(* ===== verification/Go_Prelude.thy ===== *)
theory Go_Prelude
  imports
    Main
    "HOL-Library.Word"
    "HOL-Library.Char_ord"
    "HOL-Library.List_Lexorder"
    "HOL-Library.Sublist"
begin

text \<open>
  Shared vocabulary of the development: Go strings and byte slices, big-endian 32-bit
  fields, error values, and the lemmas on them that every component uses.

  A Go \<open>string\<close> and a Go \<open>[]byte\<close> are both byte sequences, and the conversions between
  them copy the bytes. HOL's \<open>char\<close> has exactly 256 values, so both become \<open>char list\<close>,
  and \<open>[]byte(s)\<close> and \<open>string(buf)\<close> are the identity. Go compares strings bytewise and
  lexicographically, which is the order of \<open>List_Lexorder\<close> over \<open>Char_ord\<close>.
  Go's \<open>int\<close> (64 bits) is \<open>nat\<close> where it counts bytes and \<open>int\<close> where it can be
  negative; \<open>uint32\<close> and \<open>uint64\<close> stay words, so every truncating conversion
  \<open>uint32(len(x))\<close> is a \<open>word_of_nat\<close>.
\<close>

type_synonym bytes = "char list"

named_theorems codec \<comment> \<open>reading back what was written\<close>
named_theorems calm_io \<comment> \<open>system calls while no fault is injected\<close>

subsection \<open>Errors\<close>

text \<open>
  Error values: \<open>io.EOF\<close>, an error made by \<open>errors.New\<close> or \<open>fmt.Errorf\<close> with its text,
  an error of the operating system, and a run-time panic (slice bounds, nil pointer),
  which is not an error return but ends the goroutine.
\<close>

datatype goerr = EOF | Errorf string | SysErr | Panic string

abbreviation slice_panic :: goerr where
  "slice_panic \<equiv> Panic ''slice bounds out of range''"

abbreviation makeslice_panic :: goerr where
  "makeslice_panic \<equiv> Panic ''makeslice: len out of range''"

abbreviation index_panic :: goerr where
  "index_panic \<equiv> Panic ''index out of range''"

abbreviation nil_panic :: goerr where
  "nil_panic \<equiv> Panic ''invalid memory address or nil pointer dereference''"

subsection \<open>Slices and big-endian fields\<close>

text \<open>\<open>buf[i:j]\<close>, for bounds that have been checked.\<close>

definition slice :: "'a list \<Rightarrow> nat \<Rightarrow> nat \<Rightarrow> 'a list" where
  "slice xs i j = take (j - i) (drop i xs)"

text \<open>\<open>binary.BigEndian.PutUint32\<close> and \<open>AppendUint32\<close> write these four bytes.\<close>

definition be32 :: "32 word \<Rightarrow> bytes" where
  "be32 x = (let n = unat x in
     [char_of (n div 16777216), char_of (n div 65536), char_of (n div 256), char_of n])"

text \<open>\<open>binary.BigEndian.Uint32\<close> reads the first four bytes; callers pass at least four.\<close>

fun Uint32 :: "bytes \<Rightarrow> 32 word" where
  "Uint32 (a # b # c # d # _) =
     word_of_nat (of_char a * 16777216 + of_char b * 65536 + of_char c * 256 + of_char d)"
| "Uint32 _ = 0"

abbreviation len32 :: "bytes \<Rightarrow> bytes" where
  "len32 s \<equiv> be32 (word_of_nat (length s))"

text \<open>A length-prefixed string is readable again when its length fits 32 bits.\<close>

abbreviation fits32 :: "nat \<Rightarrow> bool" where
  "fits32 n \<equiv> n < 4294967296"

lemma length_be32 [simp]: "length (be32 x) = 4"
  by (simp add: be32_def Let_def)

lemma be32_not_Nil [simp]: "be32 x \<noteq> []"
  by (simp add: be32_def Let_def)

lemma base256_digits:
  fixes n :: nat
  assumes "n < 4294967296"
  shows "(n div 16777216 mod 256) * 16777216 + (n div 65536 mod 256) * 65536
       + (n div 256 mod 256) * 256 + n mod 256 = n"
proof -
  define n1 n2 n3 where "n1 = n div 256" and "n2 = n1 div 256" and "n3 = n2 div 256"
  have digits: "n = n1 * 256 + n mod 256" "n1 = n2 * 256 + n1 mod 256" "n2 = n3 * 256 + n2 mod 256"
    by (simp_all only: n1_def n2_def n3_def div_mult_mod_eq)
  have n3: "n3 < 256"
    using assms by (simp add: n1_def n2_def n3_def div_mult2_eq [symmetric])
  have "n div 65536 = n2" "n div 16777216 = n3"
    by (simp_all add: n1_def n2_def n3_def div_mult2_eq [symmetric])
  with digits n3 show ?thesis
    by (simp add: n1_def [symmetric])
qed

lemma Uint32_be32 [simp, codec]: "Uint32 (be32 x @ rest) = x"
proof -
  have "unat x < 4294967296"
    using unsigned_less [of x, where ?'a = nat] by simp
  then show ?thesis
    using base256_digits [of "unat x"]
    by (simp add: be32_def Let_def del: of_nat_add of_nat_mult)
qed

lemma Uint32_be32_Nil [simp, codec]: "Uint32 (be32 x) = x"
  using Uint32_be32 [of x "[]"] by simp

lemma unat_word_of_nat32 [simp]: "fits32 n \<Longrightarrow> unat (word_of_nat n :: 32 word) = n"
  by (simp add: unat_of_nat take_bit_nat_eq_self)

lemma word32_not_less: "fits32 m \<Longrightarrow> a \<le> m \<Longrightarrow> \<not> word_of_nat m < (word_of_nat a :: 32 word)"
  by (simp add: word_less_nat_alt)

text \<open>Reading four bytes and writing them back gives the same bytes.\<close>

lemma be32_Uint32:
  assumes "length bs = 4"
  shows "be32 (Uint32 bs) = bs"
proof -
  obtain a b c d where bs: "bs = [a, b, c, d]"
    using assms by (auto simp: numeral_eq_Suc length_Suc_conv)
  define x y z t :: nat
    where "x = of_char a" and "y = of_char b" and "z = of_char c" and "t = of_char d"
  have small: "x < 256" "y < 256" "z < 256" "t < 256"
    by (simp_all add: x_def y_def z_def t_def)
  let ?n = "x * 16777216 + y * 65536 + z * 256 + t"
  have "?n div 16777216 = x"
    by (rule div_nat_eqI) (use small in simp_all)
  moreover have "?n div 65536 = x * 256 + y"
    by (rule div_nat_eqI) (use small in simp_all)
  moreover have "?n div 256 = (x * 256 + y) * 256 + z"
    by (rule div_nat_eqI) (use small in simp_all)
  moreover have "?n = ((x * 256 + y) * 256 + z) * 256 + t"
    by simp
  ultimately have n3: "?n div 16777216 = x" and n2: "?n div 65536 mod 256 = y"
    and n1: "?n div 256 mod 256 = z" and n0: "?n mod 256 = t"
    using small by (simp_all only: mod_mult_self3 mod_less)
  have "fits32 ?n"
    using small by linarith
  then have "unat (Uint32 bs) = ?n"
    by (simp add: bs x_def y_def z_def t_def del: of_nat_add of_nat_mult)
  then have "be32 (Uint32 bs) = [char_of (?n div 16777216), char_of (?n div 65536 mod 256),
      char_of (?n div 256 mod 256), char_of (?n mod 256)]"
    by (simp add: be32_def Let_def)
  then show ?thesis
    by (simp only: n3 n2 n1 n0) (simp add: bs x_def y_def z_def t_def)
qed

subsection \<open>Maps and the order of their range\<close>

text \<open>
  Go ranges over a map in an unspecified order. Where the code does, the model takes the
  order as an argument: a list of the keys, each once.
\<close>

definition range_order :: "'k list \<Rightarrow> ('k \<rightharpoonup> 'v) \<Rightarrow> bool" where
  "range_order ord m \<longleftrightarrow> distinct ord \<and> set ord = dom m"

definition range_pairs :: "'k list \<Rightarrow> ('k \<rightharpoonup> 'v) \<Rightarrow> ('k \<times> 'v) list" where
  "range_pairs ord m = map (\<lambda>k. (k, the (m k))) ord"

lemma map_fst_range_pairs [simp]: "map fst (range_pairs ord m) = ord"
  by (simp add: range_pairs_def comp_def)

lemma map_of_range_pairs: "range_order ord m \<Longrightarrow> map_of (range_pairs ord m) = m"
  by (auto simp: range_order_def range_pairs_def map_of_map_keys fun_eq_iff restrict_map_def
      split: option.split)

subsection \<open>Slices of concatenations\<close>

lemma length_slice [simp]: "j \<le> length xs \<Longrightarrow> length (slice xs i j) = j - i"
  by (simp add: slice_def)

lemma slice_append_exact [simp, codec]:
  "slice (pre @ mid @ post) (length pre) (length pre + length mid) = mid"
  by (simp add: slice_def)

lemma slice_at:
  "i = length pre \<Longrightarrow> j = length pre + length mid \<Longrightarrow> slice (pre @ mid @ post) i j = mid"
  by simp

lemma slice_split: "i \<le> j \<Longrightarrow> j \<le> k \<Longrightarrow> slice xs i k = slice xs i j @ slice xs j k"
  using take_add [of "j - i" "k - j" "drop i xs"] by (simp add: slice_def)

lemma slice_all [simp]: "slice xs 0 (length xs) = xs"
  by (simp add: slice_def)

subsection \<open>Decimal text: the verb \<open>%d\<close>\<close>

fun nat_dec :: "nat \<Rightarrow> string" where
  "nat_dec n = (if n < 10 then [char_of (48 + n)]
                else nat_dec (n div 10) @ [char_of (48 + n mod 10)])"

declare nat_dec.simps [simp del]

definition int_dec :: "int \<Rightarrow> string" where
  "int_dec z = (if z < 0 then CHR ''-'' # nat_dec (nat (- z)) else nat_dec (nat z))"

subsection \<open>Prefixes in the lexicographic order\<close>

text \<open>\<open>strings.HasPrefix(s, p)\<close>.\<close>

abbreviation HasPrefix :: "string \<Rightarrow> string \<Rightarrow> bool" where
  "HasPrefix s p \<equiv> prefix p s"

lemma prefix_imp_le:
  fixes p s :: string
  shows "prefix p s \<Longrightarrow> p \<le> s"
  by (induction p s rule: list_induct2') auto

text \<open>Beyond the first string that leaves the prefix upwards, no string has the prefix.\<close>

lemma no_prefix_above:
  fixes p s t :: string
  assumes "p \<le> s" and "\<not> prefix p s" and "s \<le> t"
  shows "\<not> prefix p t"
  using assms
proof (induction p arbitrary: s t)
  case Nil
  then show ?case by simp
next
  case (Cons a p)
  then obtain b s' where s: "s = b # s'"
    by (cases s) auto
  with Cons.prems(3) obtain c t' where t: "t = c # t'"
    by (cases t) auto
  show ?case
    using Cons.prems Cons.IH [of s' t'] by (auto simp: s t)
qed

subsection \<open>Reading decimal text back\<close>

definition is_digit :: "char \<Rightarrow> bool" where
  "is_digit c \<longleftrightarrow> 48 \<le> (of_char c :: nat) \<and> (of_char c :: nat) \<le> 57"

definition dec_value :: "string \<Rightarrow> nat" where
  "dec_value ds = foldl (\<lambda>n c. 10 * n + (of_char c - 48)) 0 ds"

lemma of_char_digit [simp]: "d < 10 \<Longrightarrow> of_char (char_of (48 + d) :: char) = (48 + d :: nat)"
  by simp

lemma nat_dec_digits: "c \<in> set (nat_dec n) \<Longrightarrow> is_digit c"
proof (induction n rule: nat_dec.induct)
  case (1 n)
  show ?case
  proof (cases "n < 10")
    case True
    with 1(2) show ?thesis
      by (simp add: nat_dec.simps [of n] is_digit_def)
  next
    case False
    with 1 show ?thesis
      by (auto simp: nat_dec.simps [of n] is_digit_def)
  qed
qed

lemma dec_value_nat_dec: "dec_value (nat_dec n) = n"
proof (induction n rule: nat_dec.induct)
  case (1 n)
  show ?case
  proof (cases "n < 10")
    case True
    then show ?thesis
      by (simp add: nat_dec.simps [of n] dec_value_def)
  next
    case False
    then have "dec_value (nat_dec n) = 10 * dec_value (nat_dec (n div 10)) + n mod 10"
      by (simp add: nat_dec.simps [of n] dec_value_def)
    with 1 False show ?thesis
      by simp
  qed
qed

lemma nat_dec_not_Nil [simp]: "nat_dec n \<noteq> []"
  by (simp add: nat_dec.simps [of n])

lemma nat_dec_inject [simp]: "nat_dec m = nat_dec n \<longleftrightarrow> m = n"
  by (metis dec_value_nat_dec)

subsection \<open>Splitting strings\<close>

text \<open>\<open>strings.Split(s, sep)\<close> for a separator of one character.\<close>

fun Split :: "string \<Rightarrow> char \<Rightarrow> string list" where
  "Split [] sep = [[]]"
| "Split (c # s) sep =
     (if c = sep then [] # Split s sep
      else (case Split s sep of [] \<Rightarrow> [[c]] | part # parts \<Rightarrow> (c # part) # parts))"

lemma Split_not_Nil [simp]: "Split s sep \<noteq> []"
  by (induction s) (auto split: list.split)

lemma Split_free: "sep \<notin> set s \<Longrightarrow> Split s sep = [s]"
  by (induction s) auto

lemma Split_append: "sep \<notin> set s \<Longrightarrow> Split (s @ sep # r) sep = s # Split r sep"
  by (induction s) auto

text \<open>What follows the last separator.\<close>

lemma last_Split:
  assumes "sep \<notin> set s"
  shows "last (Split (a @ sep # s) sep) = s" and "2 \<le> length (Split (a @ sep # s) sep)"
proof -
  have "last (Split (a @ sep # s) sep) = s \<and> 2 \<le> length (Split (a @ sep # s) sep)"
    using Split_free [OF assms]
    by (induction a) (auto split: list.split)
  then show "last (Split (a @ sep # s) sep) = s" and "2 \<le> length (Split (a @ sep # s) sep)"
    by blast+
qed

subsection \<open>Panics\<close>

definition is_panic :: "goerr \<Rightarrow> bool" where
  "is_panic e = (case e of Panic _ \<Rightarrow> True | _ \<Rightarrow> False)"

lemma is_panic_simps [simp]:
  "is_panic (Panic s)" "\<not> is_panic EOF" "\<not> is_panic SysErr" "\<not> is_panic (Errorf s)"
  by (simp_all add: is_panic_def)

end
