(* ===== verification/Codec.thy ===== *)
theory Codec
  imports Go_Prelude
begin

text \<open>
  Length-prefixed byte formats. The WAL payloads, the tables on disk and the catalog all
  store a string as a big-endian 32-bit length followed by the bytes, and read it back at an
  offset that moves forward. The locale \<open>offset_reader\<close> is what such a reader promises: it
  reads back what the writer wrote, and whatever it accepts is what the writer writes. Its
  lemmas lift that to sequences of values.
\<close>

abbreviation lp :: "string \<Rightarrow> bytes" where
  "lp s \<equiv> len32 s @ s"

lemma slice_to_end: "off \<le> length buf \<Longrightarrow> slice buf off (length buf) = drop off buf"
  by (simp add: slice_def)

locale offset_reader =
  fixes enc :: "'a \<Rightarrow> bytes"
    and read :: "bytes \<Rightarrow> nat \<Rightarrow> goerr + 'a \<times> nat"
  assumes read_enc:
      "fits32 (length (pre @ enc x @ post)) \<Longrightarrow>
       read (pre @ enc x @ post) (length pre) = Inr (x, length pre + length (enc x))"
    and read_sound:
      "fits32 (length buf) \<Longrightarrow> off \<le> length buf \<Longrightarrow> read buf off = Inr (x, off') \<Longrightarrow>
       off' = off + length (enc x) \<and> off' \<le> length buf \<and> slice buf off off' = enc x"
begin

lemma read_at:
  assumes "fits32 (length buf)" and "buf = pre @ enc x @ post" and "off = length pre"
  shows "read buf off = Inr (x, off + length (enc x))"
  using read_enc [of pre x post] assms by simp

end

text \<open>\<open>n\<close> values one after the other.\<close>

fun read_n ::
    "(bytes \<Rightarrow> nat \<Rightarrow> goerr + 'a \<times> nat) \<Rightarrow> nat \<Rightarrow> bytes \<Rightarrow> nat \<Rightarrow> 'a list \<Rightarrow> goerr + 'a list \<times> nat" where
  "read_n read 0 buf off acc = Inr (acc, off)"
| "read_n read (Suc n) buf off acc =
     (case read buf off of Inl e \<Rightarrow> Inl e | Inr (x, off) \<Rightarrow> read_n read n buf off (acc @ [x]))"

context offset_reader
begin

lemma read_n_enc:
  assumes "fits32 (length (pre @ concat (map enc xs) @ post))"
  shows "read_n read (length xs) (pre @ concat (map enc xs) @ post) (length pre) acc =
    Inr (acc @ xs, length pre + length (concat (map enc xs)))"
  using assms
proof (induction xs arbitrary: pre acc)
  case Nil
  then show ?case by simp
next
  case (Cons x xs)
  have "read (pre @ enc x @ concat (map enc xs) @ post) (length pre) =
      Inr (x, length pre + length (enc x))"
    by (rule read_enc) (use Cons.prems in simp)
  then show ?case
    using Cons.IH [of "pre @ enc x" "acc @ [x]"] Cons.prems by (simp add: add.assoc)
qed

lemma read_n_sound:
  assumes "fits32 (length buf)" and "off \<le> length buf"
    and "read_n read n buf off acc = Inr (ys, off')"
  shows "\<exists>xs. ys = acc @ xs \<and> length xs = n \<and> off \<le> off' \<and> off' \<le> length buf
    \<and> slice buf off off' = concat (map enc xs)"
  using assms(2,3)
proof (induction n arbitrary: off acc)
  case 0
  then show ?case by (simp add: slice_def)
next
  case (Suc n)
  then obtain x off1 where x: "read buf off = Inr (x, off1)"
    and rest: "read_n read n buf off1 (acc @ [x]) = Inr (ys, off')"
    by (auto split: sum.splits)
  from read_sound [OF assms(1) Suc.prems(1) x]
  have one: "off \<le> off1" "off1 \<le> length buf" "slice buf off off1 = enc x"
    by auto
  from Suc.IH [OF one(2) rest] obtain xs where
    "ys = acc @ x # xs" "length xs = n" "off1 \<le> off'" "off' \<le> length buf"
    "slice buf off1 off' = concat (map enc xs)"
    by auto
  with one show ?case
    by (intro exI [of _ "x # xs"]) (simp add: slice_split [of off off1 off'])
qed

end

end
