(* ===== verification/Go_IO.thy ===== *)
theory Go_IO
  imports Go_Prelude
begin

text \<open>
  The part of Go's \<open>os\<close> and \<open>io\<close> packages that the program uses, over a world of named
  files. \<open>outcomes\<close> schedules faults: each system call that can fail takes the next
  outcome, \<open>None\<close> for success and \<open>Some n\<close> for a failure after \<open>n\<close> bytes were
  transferred; an exhausted schedule means success. Reads change nothing, so they do not
  take from the schedule: a read of a path fails while the path is marked unreadable.
  A file handle is the path it was opened with; the program never renames a file, and it
  uses no handle after removing its file.
\<close>

record world =
  files :: "string \<rightharpoonup> bytes"
  unreadable :: "string \<Rightarrow> bool"
  outcomes :: "nat option list"

definition syscall :: "world \<Rightarrow> nat option \<times> world" where
  "syscall w = (case outcomes w of [] \<Rightarrow> (None, w) | r # rs \<Rightarrow> (r, w\<lparr>outcomes := rs\<rparr>))"

text \<open>\<open>os.MkdirAll\<close>: directories carry no state of their own here.\<close>

definition MkdirAll :: "world \<Rightarrow> (goerr + unit) \<times> world" where
  "MkdirAll w = (case syscall w of (None, w') \<Rightarrow> (Inr (), w') | (Some _, w') \<Rightarrow> (Inl SysErr, w'))"

text \<open>\<open>os.OpenFile(path, O_APPEND|O_CREATE|O_RDWR)\<close>: an existing file keeps its content.\<close>

definition OpenFile_create :: "string \<Rightarrow> world \<Rightarrow> (goerr + string) \<times> world" where
  "OpenFile_create path w = (case syscall w of
     (Some _, w') \<Rightarrow> (Inl SysErr, w')
   | (None, w') \<Rightarrow>
       (Inr path, case files w' path of
                    Some _ \<Rightarrow> w'
                  | None \<Rightarrow> w'\<lparr>files := (files w')(path \<mapsto> [])\<rparr>))"

text \<open>\<open>os.OpenFile(path, O_RDONLY)\<close>: the file must exist.\<close>

definition OpenFile_rdonly :: "string \<Rightarrow> world \<Rightarrow> (goerr + string) \<times> world" where
  "OpenFile_rdonly path w = (case syscall w of
     (Some _, w') \<Rightarrow> (Inl SysErr, w')
   | (None, w') \<Rightarrow> (case files w' path of Some _ \<Rightarrow> (Inr path, w') | None \<Rightarrow> (Inl SysErr, w')))"

text \<open>
  \<open>file.Write(buf)\<close> on a file opened with \<open>O_APPEND\<close>: the bytes go to the end of the
  file; a failing write may have transferred some of them.
\<close>

definition file_Write :: "string \<Rightarrow> bytes \<Rightarrow> world \<Rightarrow> (goerr + unit) \<times> world" where
  "file_Write path buf w = (case files w path of
     None \<Rightarrow> (Inl SysErr, w)
   | Some content \<Rightarrow> (case syscall w of
       (None, w') \<Rightarrow> (Inr (), w'\<lparr>files := (files w')(path \<mapsto> content @ buf)\<rparr>)
     | (Some n, w') \<Rightarrow> (Inl SysErr, w'\<lparr>files := (files w')(path \<mapsto> content @ take n buf)\<rparr>)))"

definition file_Sync :: "world \<Rightarrow> (goerr + unit) \<times> world" where
  "file_Sync w = (case syscall w of (None, w') \<Rightarrow> (Inr (), w') | (Some _, w') \<Rightarrow> (Inl SysErr, w'))"

text \<open>\<open>file.Truncate(0)\<close>; a failing truncation leaves the content.\<close>

definition file_Truncate0 :: "string \<Rightarrow> world \<Rightarrow> world" where
  "file_Truncate0 path w = (case syscall w of
     (None, w') \<Rightarrow> w'\<lparr>files := (files w')(path \<mapsto> [])\<rparr> | (Some _, w') \<Rightarrow> w')"

text \<open>\<open>os.WriteFile\<close> truncates the file, then writes.\<close>

definition os_WriteFile :: "string \<Rightarrow> bytes \<Rightarrow> world \<Rightarrow> (goerr + unit) \<times> world" where
  "os_WriteFile path buf w = (case syscall w of
     (None, w') \<Rightarrow> (Inr (), w'\<lparr>files := (files w')(path \<mapsto> buf)\<rparr>)
   | (Some n, w') \<Rightarrow> (Inl SysErr, w'\<lparr>files := (files w')(path \<mapsto> take n buf)\<rparr>))"

text \<open>\<open>os.Remove\<close>; its error is ignored by the program.\<close>

definition os_Remove :: "string \<Rightarrow> world \<Rightarrow> world" where
  "os_Remove path w = (case syscall w of
     (None, w') \<Rightarrow> w'\<lparr>files := (files w')(path := None)\<rparr> | (Some _, w') \<Rightarrow> w')"

text \<open>\<open>os.Stat(path).Size()\<close>.\<close>

definition Stat_Size :: "string \<Rightarrow> world \<Rightarrow> goerr + nat" where
  "Stat_Size path w = (case files w path of None \<Rightarrow> Inl SysErr | Some c \<Rightarrow> Inr (length c))"

text \<open>
  \<open>file.ReadAt(buf, off)\<close> for a buffer of \<open>n\<close> zero bytes: the buffer afterwards and the
  error. A short read fills a prefix of the buffer and reports \<open>io.EOF\<close>; a negative
  offset is an error.
\<close>

definition file_ReadAt :: "string \<Rightarrow> nat \<Rightarrow> int \<Rightarrow> world \<Rightarrow> bytes \<times> goerr option" where
  "file_ReadAt path n off w = (case files w path of
     None \<Rightarrow> (replicate n (CHR 0x00), Some SysErr)
   | Some c \<Rightarrow>
       if off < 0 then (replicate n (CHR 0x00), Some SysErr)
       else if n = 0 then ([], None)
       else if unreadable w path then (replicate n (CHR 0x00), Some SysErr)
       else let got = take n (drop (nat off) c) in
         (got @ replicate (n - length got) (CHR 0x00),
          if length got < n then Some EOF else None))"

subsection \<open>A world without faults\<close>

definition calm :: "world \<Rightarrow> bool" where
  "calm w \<longleftrightarrow> outcomes w = [] \<and> (\<forall>path. \<not> unreadable w path)"

lemma calm_unreadable [simp]: "calm w \<Longrightarrow> \<not> unreadable w path"
  by (simp add: calm_def)

lemma calm_files_update [simp]: "calm (w\<lparr>files := f\<rparr>) = calm w"
  by (simp add: calm_def)

lemma syscall_calm [calm_io]: "calm w \<Longrightarrow> syscall w = (None, w)"
  by (simp add: syscall_def calm_def)

lemma MkdirAll_calm [calm_io]: "calm w \<Longrightarrow> MkdirAll w = (Inr (), w)"
  by (simp add: MkdirAll_def calm_io)

lemma OpenFile_create_calm [calm_io]:
  "calm w \<Longrightarrow> OpenFile_create path w =
     (Inr path, if path \<in> dom (files w) then w else w\<lparr>files := (files w)(path \<mapsto> [])\<rparr>)"
  by (auto simp: OpenFile_create_def calm_io split: option.splits)

lemma OpenFile_rdonly_calm [calm_io]:
  "calm w \<Longrightarrow> files w path = Some c \<Longrightarrow> OpenFile_rdonly path w = (Inr path, w)"
  by (simp add: OpenFile_rdonly_def calm_io)

lemma file_Write_calm [calm_io]:
  "calm w \<Longrightarrow> files w path = Some c \<Longrightarrow>
   file_Write path buf w = (Inr (), w\<lparr>files := (files w)(path \<mapsto> c @ buf)\<rparr>)"
  by (simp add: file_Write_def calm_io)

lemma file_Sync_calm [calm_io]: "calm w \<Longrightarrow> file_Sync w = (Inr (), w)"
  by (simp add: file_Sync_def calm_io)

lemma file_Truncate0_calm [calm_io]:
  "calm w \<Longrightarrow> file_Truncate0 path w = w\<lparr>files := (files w)(path \<mapsto> [])\<rparr>"
  by (simp add: file_Truncate0_def calm_io)

lemma os_WriteFile_calm [calm_io]:
  "calm w \<Longrightarrow> os_WriteFile path buf w = (Inr (), w\<lparr>files := (files w)(path \<mapsto> buf)\<rparr>)"
  by (simp add: os_WriteFile_def calm_io)

lemma os_Remove_calm [calm_io]:
  "calm w \<Longrightarrow> os_Remove path w = w\<lparr>files := (files w)(path := None)\<rparr>"
  by (simp add: os_Remove_def calm_io)

lemma file_ReadAt_calm [calm_io]:
  assumes "calm w" and "files w path = Some (pre @ mid @ post)"
    and "off = int (length pre)" and "n = length mid"
  shows "file_ReadAt path n off w = (mid, None)"
  using assms by (simp add: file_ReadAt_def Let_def)

lemma fun_upd_twice [simp]:
  "(\<lambda>a. if a = x then p else if a = x then q else f a) = (\<lambda>a. if a = x then p else f a)"
  by (simp add: fun_eq_iff)

text \<open>A world with one file and no faults, for the witnesses.\<close>

definition one_file :: "string \<Rightarrow> bytes \<Rightarrow> world" where
  "one_file path c = \<lparr>files = [path \<mapsto> c], unreadable = (\<lambda>_. False), outcomes = []\<rparr>"

lemma one_file_simps [simp]:
  "calm (one_file path c)" "files (one_file path c) = [path \<mapsto> c]"
  by (simp_all add: one_file_def calm_def)

end
