(* ===== verification/Memtable.thy ===== *)
theory Memtable
  imports Go_Prelude
begin

text \<open>
  \<^verbatim>\<open>memtable/memtable.go\<close>: the sorted in-memory write buffer.

  The tree is \<open>github.com/google/btree\<close>, which is not in the repository: its operations
  are the record \<open>btree\<close>, a parameter of every definition here, and what its
  documentation promises is the locale \<open>btree_contract\<close>. A tree is seen through
  \<open>bt_Ascend\<close>, the items in the order in which the iterator visits them. The lemmas
  show that a memtable is a finite map with a byte count, for every tree that keeps the
  contract.
\<close>

record Entry =
  Key :: string
  Value :: string

text \<open>\<open>Entry.Less\<close>\<close>

definition Less :: "Entry \<Rightarrow> Entry \<Rightarrow> bool" where
  "Less e than \<longleftrightarrow> Key e < Key than"

record 't btree =
  bt_New :: "nat \<Rightarrow> 't"
  bt_Get :: "'t \<Rightarrow> Entry \<Rightarrow> Entry option"
  bt_ReplaceOrInsert :: "'t \<Rightarrow> Entry \<Rightarrow> Entry option \<times> 't"
  bt_Ascend :: "'t \<Rightarrow> Entry list"
  bt_AscendGreaterOrEqual :: "'t \<Rightarrow> Entry \<Rightarrow> Entry list"
  bt_Clear :: "'t \<Rightarrow> bool \<Rightarrow> 't"

record 't Memtable =
  tree :: 't
  msize :: int

definition memtableSizeLimit :: int where
  "memtableSizeLimit = 1000"

definition NewMemtable :: "'t btree \<Rightarrow> 't Memtable" where
  "NewMemtable B = \<lparr>tree = bt_New B 32, msize = 0\<rparr>"

definition Memtable_Get :: "'t btree \<Rightarrow> 't Memtable \<Rightarrow> string \<Rightarrow> string \<times> bool" where
  "Memtable_Get B m key =
     (case bt_Get B (tree m) \<lparr>Key = key, Value = ''''\<rparr> of
        None \<Rightarrow> ('''', False)
      | Some item \<Rightarrow> (Value item, True))"

text \<open>\<open>Iterate\<close> calls its argument on these pairs, in this order.\<close>

definition Iterate :: "'t btree \<Rightarrow> 't Memtable \<Rightarrow> (string \<times> string) list" where
  "Iterate B m = map (\<lambda>e. (Key e, Value e)) (bt_Ascend B (tree m))"

definition Memtable_Put :: "'t btree \<Rightarrow> string \<Rightarrow> string \<Rightarrow> 't Memtable \<Rightarrow> 't Memtable" where
  "Memtable_Put B key val m =
     (case bt_ReplaceOrInsert B (tree m) \<lparr>Key = key, Value = val\<rparr> of
        (Some old, t) \<Rightarrow>
          \<lparr>tree = t, msize = msize m + int (length val) - int (length (Value old))\<rparr>
      | (None, t) \<Rightarrow>
          \<lparr>tree = t, msize = msize m + (int (length key) + int (length val))\<rparr>)"

text \<open>
  \<open>PrefixScan\<close>: the iterator starts at the first item not below the pivot and its
  callback stops it at the first key without the prefix.
\<close>

definition Memtable_PrefixScan ::
    "'t btree \<Rightarrow> 't Memtable \<Rightarrow> string \<Rightarrow> (string \<rightharpoonup> string)" where
  "Memtable_PrefixScan B m prefixKey =
     foldl (\<lambda>tableMap e. tableMap(Key e \<mapsto> Value e)) Map.empty
       (takeWhile (\<lambda>e. HasPrefix (Key e) prefixKey)
         (bt_AscendGreaterOrEqual B (tree m) \<lparr>Key = prefixKey, Value = ''''\<rparr>))"

definition ShouldFlush :: "'t Memtable \<Rightarrow> bool" where
  "ShouldFlush m \<longleftrightarrow> msize m \<ge> memtableSizeLimit"

definition GetSize :: "'t Memtable \<Rightarrow> int" where
  "GetSize m = msize m"

definition Memtable_Clear :: "'t btree \<Rightarrow> 't Memtable \<Rightarrow> 't Memtable" where
  "Memtable_Clear B m = \<lparr>tree = bt_Clear B (tree m) False, msize = 0\<rparr>"

subsection \<open>The contract of the tree\<close>

abbreviation same_item :: "Entry \<Rightarrow> Entry \<Rightarrow> bool" where
  "same_item e x \<equiv> \<not> Less e x \<and> \<not> Less x e"

definition ordered :: "'t btree \<Rightarrow> 't \<Rightarrow> bool" where
  "ordered B t \<longleftrightarrow> sorted_wrt Less (bt_Ascend B t)"

locale btree_contract =
  fixes B :: "'t btree"
  assumes New_empty: "bt_Ascend B (bt_New B degree) = []"
    and Clear_empty: "bt_Ascend B (bt_Clear B t freelist) = []"
    and Get_item: "ordered B t \<Longrightarrow> bt_Get B t e = find (same_item e) (bt_Ascend B t)"
    and Replace_returns_old:
      "ordered B t \<Longrightarrow> fst (bt_ReplaceOrInsert B t e) = find (same_item e) (bt_Ascend B t)"
    and Replace_places_item:
      "ordered B t \<Longrightarrow> bt_Ascend B (snd (bt_ReplaceOrInsert B t e)) =
         filter (\<lambda>x. Less x e) (bt_Ascend B t) @ [e] @ filter (\<lambda>x. Less e x) (bt_Ascend B t)"
    and Ascend_from:
      "ordered B t \<Longrightarrow>
         bt_AscendGreaterOrEqual B t e = filter (\<lambda>x. \<not> Less x e) (bt_Ascend B t)"

text \<open>What a memtable holds, and the invariant that ties its byte count to it.\<close>

definition mt_abs :: "'t btree \<Rightarrow> 't Memtable \<Rightarrow> (string \<rightharpoonup> string)" where
  "mt_abs B m = map_of (Iterate B m)"

definition entry_bytes :: "(string \<times> string) list \<Rightarrow> nat" where
  "entry_bytes kvs = (\<Sum>(k, v) \<leftarrow> kvs. length k + length v)"

definition mt_inv :: "'t btree \<Rightarrow> 't Memtable \<Rightarrow> bool" where
  "mt_inv B m \<longleftrightarrow> ordered B (tree m) \<and> msize m = int (entry_bytes (Iterate B m))"

text \<open>Sorted by key without duplicates: the shape of every flushed table.\<close>

definition sorted_keys :: "(string \<times> string) list \<Rightarrow> bool" where
  "sorted_keys kvs \<longleftrightarrow> sorted_wrt (<) (map fst kvs)"

subsection \<open>Lemmas on sorted pairs\<close>

lemma entry_bytes_simps [simp]:
  "entry_bytes [] = 0"
  "entry_bytes (kv # kvs) = length (fst kv) + length (snd kv) + entry_bytes kvs"
  "entry_bytes (xs @ ys) = entry_bytes xs + entry_bytes ys"
  by (simp_all add: entry_bytes_def split: prod.splits)

lemma sorted_keys_simps [simp]:
  "sorted_keys []"
  "sorted_keys (kv # kvs) \<longleftrightarrow> (\<forall>x \<in> set kvs. fst kv < fst x) \<and> sorted_keys kvs"
  by (auto simp: sorted_keys_def)

lemma sorted_keys_append:
  "sorted_keys (xs @ ys) \<longleftrightarrow>
     sorted_keys xs \<and> sorted_keys ys \<and> (\<forall>x \<in> set xs. \<forall>y \<in> set ys. fst x < fst y)"
  by (induction xs) auto

lemma sorted_keys_distinct: "sorted_keys kvs \<Longrightarrow> distinct (map fst kvs)"
  by (simp add: sorted_keys_def strict_sorted_iff)

lemma sorted_keys_Iterate: "sorted_keys (Iterate B m) \<longleftrightarrow> ordered B (tree m)"
  by (simp add: sorted_keys_def Iterate_def ordered_def Less_def [abs_def] sorted_wrt_map)

text \<open>Inserting an entry between the smaller and the larger keys.\<close>

definition insert_entry :: "string \<Rightarrow> string \<Rightarrow> (string \<times> string) list \<Rightarrow> (string \<times> string) list"
  where
  "insert_entry k v kvs = filter (\<lambda>x. fst x < k) kvs @ [(k, v)] @ filter (\<lambda>x. k < fst x) kvs"

lemma sorted_keys_filter: "sorted_keys kvs \<Longrightarrow> sorted_keys (filter P kvs)"
  by (induction kvs) auto

lemma sorted_keys_insert_entry: "sorted_keys kvs \<Longrightarrow> sorted_keys (insert_entry k v kvs)"
  by (auto simp: insert_entry_def sorted_keys_append sorted_keys_filter dest: less_trans)

lemma map_of_filter_key:
  "map_of (filter (\<lambda>x. P (fst x)) kvs) = map_of kvs |` {k. P k}"
  by (induction kvs) (auto simp: restrict_map_def fun_eq_iff)

lemma map_of_insert_entry: "map_of (insert_entry k v kvs) = (map_of kvs)(k \<mapsto> v)"
  using map_of_filter_key [of "\<lambda>x. x < k" kvs] map_of_filter_key [of "\<lambda>x. k < x" kvs]
  by (auto simp: insert_entry_def map_add_def restrict_map_def fun_eq_iff neq_iff
      split: option.splits)

lemma entry_bytes_insert_entry:
  assumes "sorted_keys kvs"
  shows "int (entry_bytes (insert_entry k v kvs)) =
    int (entry_bytes kvs) + int (length v)
      + (case map_of kvs k of None \<Rightarrow> int (length k) | Some old \<Rightarrow> - int (length old))"
  using assms
proof (induction kvs)
  case Nil
  then show ?case by (simp add: insert_entry_def)
next
  case (Cons kv kvs)
  show ?case
  proof (cases "fst kv = k")
    case True
    then have "filter (\<lambda>x. fst x < k) kvs = []" "filter (\<lambda>x. k < fst x) kvs = kvs"
      using Cons.prems by (auto simp: filter_empty_conv dest: less_asym)
    with True show ?thesis by (cases kv) (simp add: insert_entry_def)
  next
    case False
    with Cons show ?thesis
      by (cases kv) (auto simp: insert_entry_def neq_iff split: option.splits)
  qed
qed

lemma takeWhile_prefix_sorted:
  assumes "sorted_keys kvs" and "\<forall>x \<in> set kvs. p \<le> fst x"
  shows "takeWhile (\<lambda>x. HasPrefix (fst x) p) kvs = filter (\<lambda>x. HasPrefix (fst x) p) kvs"
  using assms
proof (induction kvs)
  case Nil
  then show ?case by simp
next
  case (Cons kv kvs)
  have "filter (\<lambda>x. HasPrefix (fst x) p) kvs = []" if "\<not> HasPrefix (fst kv) p"
    using that Cons.prems no_prefix_above [of p "fst kv"]
    by (fastforce simp: filter_empty_conv less_imp_le)
  with Cons show ?case
    by simp
qed

lemma foldl_map_upd:
  "foldl (\<lambda>m kv. m(fst kv \<mapsto> snd kv)) m0 kvs = m0 ++ map_of (rev kvs)"
  by (induction kvs arbitrary: m0) (auto simp: map_add_upd_left map_add_def fun_eq_iff split: option.splits)

lemma map_of_rev_distinct: "distinct (map fst kvs) \<Longrightarrow> map_of (rev kvs) = map_of kvs"
  by (simp add: map_of_inject_set rev_map [symmetric])

subsection \<open>The interface the write paths rely on\<close>

text \<open>
  A store of key-value pairs: what recovery and commit assume of the memtable (and a
  transaction of its buffer) when they replay a sequence of writes.
\<close>

locale kv_store =
  fixes put :: "'k \<Rightarrow> 'v \<Rightarrow> 's \<Rightarrow> 's"
    and content :: "'s \<Rightarrow> ('k \<rightharpoonup> 'v)"
    and inv :: "'s \<Rightarrow> bool"
  assumes content_put: "inv s \<Longrightarrow> content (put k v s) = (content s)(k \<mapsto> v)"
    and inv_put: "inv s \<Longrightarrow> inv (put k v s)"
begin

lemma put_all:
  "inv s \<Longrightarrow> inv (foldl (\<lambda>s kv. put (fst kv) (snd kv) s) s kvs)
     \<and> content (foldl (\<lambda>s kv. put (fst kv) (snd kv) s) s kvs) = content s ++ map_of (rev kvs)"
  by (induction kvs arbitrary: s) (simp_all add: content_put inv_put map_add_upd_left)

lemmas inv_put_all = put_all [THEN conjunct1]
lemmas content_put_all = put_all [THEN conjunct2]

text \<open>For distinct keys the order of the writes does not matter.\<close>

lemma content_put_all_distinct:
  "inv s \<Longrightarrow> distinct (map fst kvs) \<Longrightarrow>
     content (foldl (\<lambda>s kv. put (fst kv) (snd kv) s) s kvs) = content s ++ map_of kvs"
  by (simp add: content_put_all map_of_rev_distinct)

end

interpretation go_map: kv_store "\<lambda>k v m. m(k \<mapsto> v)" "\<lambda>m. m" "\<lambda>_. True"
  by unfold_locales auto

subsection \<open>The memtable over a tree that keeps the contract\<close>

lemma find_same_item:
  "map_option Value (find (same_item \<lparr>Key = k, Value = v\<rparr>) es) =
     map_of (map (\<lambda>e. (Key e, Value e)) es) k"
  by (induction es) (auto simp: Less_def)

lemma mt_abs_find:
  "mt_abs B m k =
     map_option Value (find (same_item \<lparr>Key = k, Value = v\<rparr>) (bt_Ascend B (tree m)))"
  by (simp only: mt_abs_def Iterate_def find_same_item)

context btree_contract
begin

lemma Iterate_Put:
  assumes "ordered B (tree m)"
  shows "Iterate B (Memtable_Put B k v m) = insert_entry k v (Iterate B m)"
proof -
  obtain r t where r: "bt_ReplaceOrInsert B (tree m) \<lparr>Key = k, Value = v\<rparr> = (r, t)"
    by (cases "bt_ReplaceOrInsert B (tree m) \<lparr>Key = k, Value = v\<rparr>")
  with Replace_places_item [OF assms, of "\<lparr>Key = k, Value = v\<rparr>"]
  have "bt_Ascend B t = filter (\<lambda>x. Key x < k) (bt_Ascend B (tree m)) @ [\<lparr>Key = k, Value = v\<rparr>]
          @ filter (\<lambda>x. k < Key x) (bt_Ascend B (tree m))"
    by (simp add: Less_def)
  with r show ?thesis
    by (simp add: Iterate_def Memtable_Put_def insert_entry_def filter_map comp_def
        split: option.split)
qed

lemma mt_abs_Put:
  "mt_inv B m \<Longrightarrow> mt_abs B (Memtable_Put B k v m) = (mt_abs B m)(k \<mapsto> v)"
  by (simp add: mt_abs_def mt_inv_def Iterate_Put map_of_insert_entry)

lemma msize_Put:
  assumes "ordered B (tree m)"
  shows "msize (Memtable_Put B k v m) = msize m + int (length v)
    + (case mt_abs B m k of None \<Rightarrow> int (length k) | Some old \<Rightarrow> - int (length old))"
proof -
  obtain r t where r: "bt_ReplaceOrInsert B (tree m) \<lparr>Key = k, Value = v\<rparr> = (r, t)"
    by (cases "bt_ReplaceOrInsert B (tree m) \<lparr>Key = k, Value = v\<rparr>")
  with Replace_returns_old [OF assms, of "\<lparr>Key = k, Value = v\<rparr>"]
  have "mt_abs B m k = map_option Value r"
    by (simp add: mt_abs_find [of _ _ _ v])
  with r show ?thesis
    by (simp add: Memtable_Put_def split: option.split)
qed

lemma mt_inv_Put: "mt_inv B m \<Longrightarrow> mt_inv B (Memtable_Put B k v m)"
  using sorted_keys_insert_entry [of "Iterate B m" k v]
    entry_bytes_insert_entry [of "Iterate B m" k v]
  by (simp add: mt_inv_def sorted_keys_Iterate [symmetric] Iterate_Put msize_Put mt_abs_def)

sublocale mt: kv_store "Memtable_Put B" "mt_abs B" "mt_inv B"
  by unfold_locales (simp_all add: mt_abs_Put mt_inv_Put)

lemma Get_abs:
  "mt_inv B m \<Longrightarrow>
     Memtable_Get B m k = (case mt_abs B m k of None \<Rightarrow> ('''', False) | Some v \<Rightarrow> (v, True))"
  by (simp add: Memtable_Get_def mt_inv_def Get_item mt_abs_find [of _ _ _ "''''"] split: option.split)

lemma NewMemtable_empty [simp]:
  "mt_inv B (NewMemtable B)" "mt_abs B (NewMemtable B) = Map.empty" "Iterate B (NewMemtable B) = []"
  by (simp_all add: NewMemtable_def mt_inv_def mt_abs_def Iterate_def ordered_def New_empty)

lemma puts_NewMemtable:
  "mt_inv B (foldl (\<lambda>m kv. Memtable_Put B (fst kv) (snd kv) m) (NewMemtable B) kvs)
   \<and> mt_abs B (foldl (\<lambda>m kv. Memtable_Put B (fst kv) (snd kv) m) (NewMemtable B) kvs) = map_of (rev kvs)"
  using mt.put_all [of "NewMemtable B" kvs] by simp

lemmas puts_all = mt.put_all

lemma Clear_empties [simp]:
  "mt_inv B (Memtable_Clear B m)" "mt_abs B (Memtable_Clear B m) = Map.empty"
  by (simp_all add: Memtable_Clear_def mt_inv_def mt_abs_def Iterate_def ordered_def Clear_empty)

lemma sorted_keys_Iterate_inv: "mt_inv B m \<Longrightarrow> sorted_keys (Iterate B m)"
  by (simp add: mt_inv_def sorted_keys_Iterate)

lemma PrefixScan_abs:
  assumes "mt_inv B m"
  shows "Memtable_PrefixScan B m p = mt_abs B m |` {k. HasPrefix k p}"
proof -
  let ?kvs = "Iterate B m"
  have sorted: "sorted_keys ?kvs"
    using assms by (rule sorted_keys_Iterate_inv)
  let ?from = "filter (\<lambda>x. p \<le> fst x) ?kvs"
  have "Memtable_PrefixScan B m p =
      foldl (\<lambda>t kv. t(fst kv \<mapsto> snd kv)) Map.empty (takeWhile (\<lambda>x. HasPrefix (fst x) p) ?from)"
    using assms
    by (simp add: Memtable_PrefixScan_def mt_inv_def Ascend_from Iterate_def Less_def
        filter_map takeWhile_map comp_def not_less foldl_map)
  also have "takeWhile (\<lambda>x. HasPrefix (fst x) p) ?from = filter (\<lambda>x. HasPrefix (fst x) p) ?from"
    using sorted by (simp add: takeWhile_prefix_sorted sorted_keys_filter)
  also have "filter (\<lambda>x. HasPrefix (fst x) p) ?from = filter (\<lambda>x. HasPrefix (fst x) p) ?kvs"
    by (auto intro: filter_cong dest: prefix_imp_le)
  also have "foldl (\<lambda>t kv. t(fst kv \<mapsto> snd kv)) Map.empty (filter (\<lambda>x. HasPrefix (fst x) p) ?kvs) =
      map_of ?kvs |` {k. HasPrefix k p}"
    using sorted
    by (simp add: foldl_map_upd map_of_rev_distinct sorted_keys_distinct sorted_keys_filter
        map_of_filter_key)
  finally show ?thesis by (simp add: mt_abs_def)
qed

end

subsection \<open>A tree that keeps the contract\<close>

text \<open>A sorted list: it shows that the contract can be met, and it runs.\<close>

definition list_btree :: "Entry list btree" where
  "list_btree =
     \<lparr>bt_New = (\<lambda>_. []),
      bt_Get = (\<lambda>t e. find (same_item e) t),
      bt_ReplaceOrInsert = (\<lambda>t e.
        (find (same_item e) t, filter (\<lambda>x. Less x e) t @ [e] @ filter (\<lambda>x. Less e x) t)),
      bt_Ascend = (\<lambda>t. t),
      bt_AscendGreaterOrEqual = (\<lambda>t e. filter (\<lambda>x. \<not> Less x e) t),
      bt_Clear = (\<lambda>_ _. [])\<rparr>"

interpretation list_tree: btree_contract list_btree
  by unfold_locales (simp_all add: list_btree_def)

subsection \<open>Properties\<close>

text \<open>C32: the memtable is a finite map with an exact byte count. Over any tree that keeps
  the contract, \<open>Put\<close> keeps the invariant (items in key order, \<open>size\<close> the sum of the
  key and value lengths, so overwriting counts only the change), changes the content at
  that key only, \<open>Get\<close> returns what the content holds with its presence flag, and
  \<open>ShouldFlush\<close> answers exactly when the content has reached the size limit.\<close>

theorem memtable_refines_map:
  assumes "btree_contract B" and "mt_inv B m"
  shows "mt_inv B (Memtable_Put B k v m)
    \<and> mt_abs B (Memtable_Put B k v m) = (mt_abs B m)(k \<mapsto> v)
    \<and> Memtable_Get B (Memtable_Put B k v m) k' =
        (case ((mt_abs B m)(k \<mapsto> v)) k' of None \<Rightarrow> ('''', False) | Some x \<Rightarrow> (x, True))
    \<and> (ShouldFlush (Memtable_Put B k v m) \<longleftrightarrow>
         1000 \<le> entry_bytes (Iterate B (Memtable_Put B k v m)))"
proof -
  note put = btree_contract.mt_inv_Put [OF assms(1,2), of k v]
    and abs = btree_contract.mt_abs_Put [OF assms(1,2), of k v]
  have "msize (Memtable_Put B k v m) = int (entry_bytes (Iterate B (Memtable_Put B k v m)))"
    using put by (simp add: mt_inv_def)
  with put abs btree_contract.Get_abs [OF assms(1) put] show ?thesis
    by (simp add: ShouldFlush_def memtableSizeLimit_def)
qed

lemmas list_memtable = list_tree.puts_NewMemtable

theorem memtable_refines_map_witness:
  "mt_inv list_btree (Memtable_Put list_btree ''a'' ''22'' (Memtable_Put list_btree ''a'' ''1'' (NewMemtable list_btree)))
   \<and> Memtable_Get list_btree
        (Memtable_Put list_btree ''a'' ''22'' (Memtable_Put list_btree ''a'' ''1'' (NewMemtable list_btree))) ''a''
      = (''22'', True)
   \<and> \<not> ShouldFlush (Memtable_Put list_btree ''a'' ''22'' (Memtable_Put list_btree ''a'' ''1'' (NewMemtable list_btree)))"
proof -
  let ?m = "Memtable_Put list_btree ''a'' ''1'' (NewMemtable list_btree)"
  have inv: "mt_inv list_btree ?m"
    using list_memtable [of "[(''a'', ''1'')]"] by simp
  show ?thesis
    using memtable_refines_map [OF list_tree.btree_contract_axioms inv, of "''a''" "''22''" "''a''"]
    by (simp add: Iterate_def Memtable_Put_def NewMemtable_def list_btree_def Less_def)
qed

text \<open>\<open>PrefixScan\<close> returns exactly the entries of the memtable whose key has the
  prefix, although it only walks the tree from the prefix onwards and stops at the first
  key that does not have it.\<close>

theorem memtable_prefix_scan:
  assumes "btree_contract B" and "mt_inv B m"
  shows "Memtable_PrefixScan B m p = mt_abs B m |` {k. HasPrefix k p}"
  using assms by (rule btree_contract.PrefixScan_abs)

theorem memtable_prefix_scan_witness:
  "Memtable_PrefixScan list_btree
     (foldl (\<lambda>m kv. Memtable_Put list_btree (fst kv) (snd kv) m) (NewMemtable list_btree)
        [(''t:2'', ''y''), (''s'', ''z''), (''t:1'', ''x''), (''u'', ''w'')]) ''t:''
   = [''t:1'' \<mapsto> ''x'', ''t:2'' \<mapsto> ''y'']"
  using memtable_prefix_scan [OF list_tree.btree_contract_axioms list_memtable [THEN conjunct1],
      of "[(''t:2'', ''y''), (''s'', ''z''), (''t:1'', ''x''), (''u'', ''w'')]" "''t:''"]
  by (simp add: list_memtable restrict_map_def fun_eq_iff del: foldl_Cons)

end
