(* ===== verification/Sstable_File.thy ===== *)
theory Sstable_File
  imports Codec Go_IO Memtable
begin

text \<open>
  \<^verbatim>\<open>sstable/sstable.go\<close>: the format of one table file,
  \<open>[data blocks][index block][footer]\<close>, its writer, and the readers of the index and of a
  data block. The specification side is a file as the list of its key-value pairs, cut into
  blocks by \<open>chunks\<close>; the lemmas show that the writer lays out exactly those blocks and
  that the readers get them back.
\<close>

record indexBlockEntry =
  ikey :: string
  ioffset :: nat

abbreviation errDatablock :: goerr where
  "errDatablock \<equiv> Errorf ''error while reading ss-table data block''"

abbreviation errIndexCorrupted :: goerr where
  "errIndexCorrupted \<equiv>
     Errorf ''error while reading index block: index block seems incomplete or corrupted''"

subsection \<open>Writing\<close>

text \<open>The variables that the callback of \<open>writeDataBlocks\<close> closes over, and the world.\<close>

record block_writer =
  bw_blockLength :: nat
  bw_blockStartOffset :: nat
  bw_blockFirstKey :: string
  bw_blockBuf :: bytes
  bw_offset :: nat
  bw_indexBlock :: "indexBlockEntry list"
  bw_err :: "goerr option"
  bw_world :: world

definition err_of :: "goerr + 'a \<Rightarrow> goerr option" where
  "err_of r = (case r of Inl e \<Rightarrow> Some e | Inr _ \<Rightarrow> None)"

text \<open>
  The callback, for one pair. Each write overwrites \<open>err\<close>, and the iteration goes on after
  a failed one, as in the code.
\<close>

definition write_entry ::
    "string \<Rightarrow> int \<Rightarrow> block_writer \<Rightarrow> string \<times> string \<Rightarrow> block_writer" where
  "write_entry file stBlockLength s = (\<lambda>(key, val).
     let blockFirstKey = (if bw_blockFirstKey s = '''' then key else bw_blockFirstKey s);
         ssTableEntryBuf = ((len32 key @ key) @ len32 val) @ val;
         offset = bw_offset s + length ssTableEntryBuf;
         blockLength = bw_blockLength s + length ssTableEntryBuf;
         ssTableBlockBuf = bw_blockBuf s @ ssTableEntryBuf
     in if int blockLength > stBlockLength
        then let (r, w') = file_Write file ssTableBlockBuf (bw_world s)
             in \<lparr>bw_blockLength = 0, bw_blockStartOffset = offset, bw_blockFirstKey = '''',
                 bw_blockBuf = [], bw_offset = offset,
                 bw_indexBlock = bw_indexBlock s @
                   [\<lparr>ikey = blockFirstKey, ioffset = bw_blockStartOffset s\<rparr>],
                 bw_err = err_of r, bw_world = w'\<rparr>
        else s\<lparr>bw_blockLength := blockLength, bw_blockFirstKey := blockFirstKey,
               bw_blockBuf := ssTableBlockBuf, bw_offset := offset\<rparr>)"

text \<open>After the iteration: the last, incomplete block.\<close>

definition write_last_block ::
    "string \<Rightarrow> block_writer \<Rightarrow> (nat \<times> indexBlockEntry list \<times> goerr option) \<times> world" where
  "write_last_block file s =
     (if bw_blockFirstKey s \<noteq> ''''
      then let (r, w') = file_Write file (bw_blockBuf s) (bw_world s)
           in ((bw_offset s,
                bw_indexBlock s @ [\<lparr>ikey = bw_blockFirstKey s, ioffset = bw_blockStartOffset s\<rparr>],
                err_of r), w')
      else ((bw_offset s, bw_indexBlock s, bw_err s), bw_world s))"

definition block_writer_init :: "world \<Rightarrow> block_writer" where
  "block_writer_init w =
     \<lparr>bw_blockLength = 0, bw_blockStartOffset = 0, bw_blockFirstKey = '''', bw_blockBuf = [],
      bw_offset = 0, bw_indexBlock = [], bw_err = None, bw_world = w\<rparr>"

text \<open>\<open>iteratorFunc\<close> is given by the pairs it passes to its callback, in order.\<close>

definition writeDataBlocks ::
    "string \<Rightarrow> int \<Rightarrow> (string \<times> string) list \<Rightarrow> world
       \<Rightarrow> (nat \<times> indexBlockEntry list \<times> goerr option) \<times> world" where
  "writeDataBlocks file stBlockLength kvs w =
     write_last_block file (foldl (write_entry file stBlockLength) (block_writer_init w) kvs)"

fun writeIndexBlock :: "string \<Rightarrow> indexBlockEntry list \<Rightarrow> world \<Rightarrow> (goerr + unit) \<times> world" where
  "writeIndexBlock file [] w = (Inr (), w)"
| "writeIndexBlock file (ib # ibs) w =
     (case file_Write file (len32 (ikey ib) @ ikey ib @ be32 (word_of_nat (ioffset ib))) w of
        (Inl e, w') \<Rightarrow> (Inl e, w')
      | (Inr _, w') \<Rightarrow> writeIndexBlock file ibs w')"

definition writeFooter :: "string \<Rightarrow> nat \<Rightarrow> world \<Rightarrow> (goerr + unit) \<times> world" where
  "writeFooter file indexBlockStartOffset w =
     file_Write file (be32 (word_of_nat indexBlockStartOffset)) w"

text \<open>\<open>writeToFile\<close> with the index on (\<open>skipIndex\<close> is a switch for benchmarks).\<close>

definition writeToFile ::
    "string \<Rightarrow> int \<Rightarrow> (string \<times> string) list \<Rightarrow> world
       \<Rightarrow> (goerr + nat \<times> indexBlockEntry list) \<times> world" where
  "writeToFile file stBlockLength kvs w =
     (case writeDataBlocks file stBlockLength kvs w of
        ((indexOffset, indexBlock, Some e), w') \<Rightarrow> (Inl e, w')
      | ((indexOffset, indexBlock, None), w') \<Rightarrow>
          (case writeIndexBlock file indexBlock w' of
             (Inl e, w'') \<Rightarrow> (Inl e, w'')
           | (Inr _, w'') \<Rightarrow>
               (case writeFooter file indexOffset w'' of
                  (Inl e, w3) \<Rightarrow> (Inl e, w3)
                | (Inr _, w3) \<Rightarrow> (Inr (indexOffset, indexBlock), w3))))"

subsection \<open>Reading the index\<close>

definition getIndexOffset :: "string \<Rightarrow> world \<Rightarrow> goerr + 32 word" where
  "getIndexOffset file w =
     (case Stat_Size file w of
        Inl _ \<Rightarrow> Inl nil_panic
      | Inr fileSize \<Rightarrow>
          (case file_ReadAt file 4 (int fileSize - 4) w of
             (_, Some e) \<Rightarrow> Inl e
           | (buf, None) \<Rightarrow> Inr (Uint32 buf)))"

text \<open>The loop over the index bytes; a slice past the end of the buffer panics.\<close>

function index_loop ::
    "bytes \<Rightarrow> nat \<Rightarrow> indexBlockEntry list \<Rightarrow> goerr + indexBlockEntry list" where
  "index_loop buf i ssTableIndex =
     (if i < length buf then
        if i + 4 > length buf then Inl slice_panic
        else let keyLength = unat (Uint32 (slice buf i (i + 4))); i1 = i + 4 in
          if i1 \<ge> length buf then Inl errIndexCorrupted
          else if i1 + keyLength > length buf then Inl slice_panic
          else let key = slice buf i1 (i1 + keyLength); i2 = i1 + keyLength in
            if i2 \<ge> length buf then Inl errIndexCorrupted
            else if i2 + 4 > length buf then Inl slice_panic
            else let off = unat (Uint32 (slice buf i2 (i2 + 4))) in
              index_loop buf (i2 + 4) (ssTableIndex @ [\<lparr>ikey = key, ioffset = off\<rparr>])
      else Inr ssTableIndex)"
  by pat_completeness auto
termination
  by (relation "measure (\<lambda>(buf, i, acc). length buf - i)") auto

declare index_loop.simps [simp del]

definition buildIndexFromFile :: "string \<Rightarrow> world \<Rightarrow> goerr + nat \<times> indexBlockEntry list" where
  "buildIndexFromFile file w =
     (case Stat_Size file w of
        Inl e \<Rightarrow> Inl e
      | Inr fileSize \<Rightarrow>
          (case getIndexOffset file w of
             Inl e \<Rightarrow> Inl e
           | Inr indexOffset \<Rightarrow>
               let indexBlockLength = (int fileSize - 4) - int (unat indexOffset) in
               if indexBlockLength < 0 then Inl makeslice_panic
               else (case file_ReadAt file (nat indexBlockLength) (int (unat indexOffset)) w of
                  (_, Some e) \<Rightarrow> Inl e
                | (indexBlockBuf, None) \<Rightarrow>
                    (case index_loop indexBlockBuf 0 [] of
                       Inl e \<Rightarrow> Inl e
                     | Inr ssTableIndex \<Rightarrow> Inr (unat indexOffset, ssTableIndex)))))"

subsection \<open>Reading data\<close>

definition extractValueFromSsTable :: "bytes \<Rightarrow> nat \<Rightarrow> goerr + string" where
  "extractValueFromSsTable buf i =
     (if i + 4 > length buf then Inl errDatablock
      else let keyLen = unat (Uint32 (slice buf i (i + 4))); i = i + 4 in
        if i + keyLen > length buf then Inl errDatablock
        else Inr (slice buf i (i + keyLen)))"

text \<open>The key and the value at \<open>i\<close> and the next \<open>i\<close>: how every loop over a block begins.\<close>

definition read_sst_entry :: "bytes \<Rightarrow> nat \<Rightarrow> goerr + (string \<times> string) \<times> nat" where
  "read_sst_entry buf i =
     (case extractValueFromSsTable buf i of
        Inl e \<Rightarrow> Inl e
      | Inr key \<Rightarrow> let i = i + (4 + length key) in
          (case extractValueFromSsTable buf i of
             Inl e \<Rightarrow> Inl e
           | Inr val \<Rightarrow> Inr ((key, val), i + (4 + length val))))"

lemma read_sst_entry_progress: "read_sst_entry buf i = Inr (kv, j) \<Longrightarrow> i < j"
  by (auto simp: read_sst_entry_def Let_def split: sum.splits)

function get_value_loop :: "bytes \<Rightarrow> string \<Rightarrow> nat \<Rightarrow> goerr + string" where
  "get_value_loop buf key i =
     (if i < length buf then
        (case read_sst_entry buf i of
           Inl e \<Rightarrow> Inl e
         | Inr ((currentKey, currentValue), j) \<Rightarrow>
             if currentKey = key then Inr currentValue else get_value_loop buf key j)
      else Inr '''')"
  by pat_completeness auto
termination
  by (relation "measure (\<lambda>(buf, key, i). length buf - i)")
     (auto dest: read_sst_entry_progress)

declare get_value_loop.simps [simp del]

text \<open>
  \<open>getValueFromSsTableDataBlock\<close>. The buffer is one byte longer than the block
  (\<open>dataBlockEndOffset-dataBlockStartOffset+1\<close>); a negative length panics.
\<close>

definition getValueFromSsTableDataBlock ::
    "string \<Rightarrow> string \<Rightarrow> nat \<Rightarrow> nat \<Rightarrow> world \<Rightarrow> goerr + string" where
  "getValueFromSsTableDataBlock file key startOffset endOffset w =
     (let bufLength = int endOffset - int startOffset + 1 in
      if bufLength < 0 then Inl makeslice_panic
      else (case file_ReadAt file (nat bufLength) (int startOffset) w of
         (buf, err) \<Rightarrow>
           if err \<noteq> None \<and> err \<noteq> Some EOF then Inl (the err)
           else get_value_loop buf key 0))"

text \<open>The loop of \<open>sequentiallyScanTableAndUpdateMap\<close>.\<close>

function scan_loop ::
    "bytes \<Rightarrow> string \<Rightarrow> nat \<Rightarrow> (string \<rightharpoonup> string) \<Rightarrow> goerr + (string \<rightharpoonup> string)" where
  "scan_loop buf tableKey i tableMap =
     (if i < length buf then
        (case read_sst_entry buf i of
           Inl e \<Rightarrow> Inl e
         | Inr ((key, val), j) \<Rightarrow>
             if HasPrefix key tableKey then
               scan_loop buf tableKey j
                 (if tableMap key = None then tableMap(key \<mapsto> val) else tableMap)
             else if take (min (length tableKey) (length key)) key > tableKey then Inr tableMap
             else scan_loop buf tableKey j tableMap)
      else Inr tableMap)"
  by pat_completeness auto
termination
  by (relation "measure (\<lambda>(buf, k, i, m). length buf - i)")
     (auto dest: read_sst_entry_progress)

declare scan_loop.simps [simp del]

definition sequentiallyScanTableAndUpdateMap ::
    "string \<Rightarrow> string \<Rightarrow> nat \<Rightarrow> nat \<Rightarrow> (string \<rightharpoonup> string) \<Rightarrow> world \<Rightarrow> goerr + (string \<rightharpoonup> string)" where
  "sequentiallyScanTableAndUpdateMap file tableKey startOffset fileEndOffset tableMap w =
     (let bufLength = int fileEndOffset - int startOffset in
      if bufLength < 0 then Inl makeslice_panic
      else (case file_ReadAt file (nat bufLength) (int startOffset) w of
         (buf, err) \<Rightarrow>
           if err \<noteq> None \<and> err \<noteq> Some EOF then Inl (the err)
           else scan_loop buf tableKey 0 tableMap))"

text \<open>The binary search of \<open>getLowerBound\<close>; \<open>-1\<close> when no block can hold the key.\<close>

function lower_bound_loop ::
    "string \<Rightarrow> indexBlockEntry list \<Rightarrow> int \<Rightarrow> int \<Rightarrow> int \<Rightarrow> int" where
  "lower_bound_loop key index low high lowerBound =
     (if low \<le> high then
        let mid = low + (high - low) div 2 in
        if ikey (index ! nat mid) \<le> key then lower_bound_loop key index (mid + 1) high mid
        else lower_bound_loop key index low (mid - 1) lowerBound
      else lowerBound)"
  by pat_completeness auto
termination
  by (relation "measure (\<lambda>(key, index, low, high, lb). nat (high - low + 1))") auto

declare lower_bound_loop.simps [simp del]

definition getLowerBound :: "string \<Rightarrow> indexBlockEntry list \<Rightarrow> int" where
  "getLowerBound key index = lower_bound_loop key index 0 (int (length index) - 1) (-1)"

subsection \<open>A file as a list of pairs, cut into blocks\<close>

definition kv_bytes :: "string \<times> string \<Rightarrow> bytes" where
  "kv_bytes kv = lp (fst kv) @ lp (snd kv)"

definition data_bytes :: "(string \<times> string) list \<Rightarrow> bytes" where
  "data_bytes kvs = concat (map kv_bytes kvs)"

text \<open>A block ends with the pair that takes it beyond the block length.\<close>

fun chunks ::
    "int \<Rightarrow> (string \<times> string) list \<Rightarrow> (string \<times> string) list \<Rightarrow> (string \<times> string) list list" where
  "chunks bl cur [] = (if cur = [] then [] else [cur])"
| "chunks bl cur (kv # kvs) =
     (if int (length (data_bytes (cur @ [kv]))) > bl then (cur @ [kv]) # chunks bl [] kvs
      else chunks bl (cur @ [kv]) kvs)"

fun index_of_chunks :: "nat \<Rightarrow> (string \<times> string) list list \<Rightarrow> indexBlockEntry list" where
  "index_of_chunks off [] = []"
| "index_of_chunks off (b # bs) =
     \<lparr>ikey = fst (hd b), ioffset = off\<rparr> # index_of_chunks (off + length (data_bytes b)) bs"

definition index_bytes :: "indexBlockEntry list \<Rightarrow> bytes" where
  "index_bytes ibs = concat (map (\<lambda>ib. lp (ikey ib) @ be32 (word_of_nat (ioffset ib))) ibs)"

text \<open>The whole file for a list of pairs.\<close>

definition file_index :: "int \<Rightarrow> (string \<times> string) list \<Rightarrow> indexBlockEntry list" where
  "file_index bl kvs = index_of_chunks 0 (chunks bl [] kvs)"

definition file_bytes :: "int \<Rightarrow> (string \<times> string) list \<Rightarrow> bytes" where
  "file_bytes bl kvs =
     data_bytes kvs @ index_bytes (file_index bl kvs) @ be32 (word_of_nat (length (data_bytes kvs)))"

definition nonempty_keys :: "(string \<times> string) list \<Rightarrow> bool" where
  "nonempty_keys kvs \<longleftrightarrow> (\<forall>kv \<in> set kvs. fst kv \<noteq> '''')"

lemma data_bytes_simps [simp]:
  "data_bytes [] = []" "data_bytes (kv # kvs) = kv_bytes kv @ data_bytes kvs"
  "data_bytes (xs @ ys) = data_bytes xs @ data_bytes ys"
  by (simp_all add: data_bytes_def)

lemma data_bytes_concat: "data_bytes (concat bs) = concat (map data_bytes bs)"
  by (induction bs) simp_all

lemma index_bytes_simps [simp]:
  "index_bytes [] = []"
  "index_bytes (ib # ibs) = lp (ikey ib) @ be32 (word_of_nat (ioffset ib)) @ index_bytes ibs"
  by (simp_all add: index_bytes_def)

lemma nonempty_keys_simps [simp]:
  "nonempty_keys []" "nonempty_keys (kv # kvs) \<longleftrightarrow> fst kv \<noteq> '''' \<and> nonempty_keys kvs"
  "nonempty_keys (xs @ ys) \<longleftrightarrow> nonempty_keys xs \<and> nonempty_keys ys"
  by (auto simp: nonempty_keys_def)

lemma concat_chunks: "concat (chunks bl cur kvs) = cur @ kvs"
  by (induction kvs arbitrary: cur) auto

lemma chunks_nonempty: "b \<in> set (chunks bl cur kvs) \<Longrightarrow> b \<noteq> []"
  by (induction kvs arbitrary: cur) (auto split: if_splits)

lemma kv_bytes_not_Nil [simp]: "kv_bytes kv \<noteq> []"
  by (simp add: kv_bytes_def)

lemma length_kv_bytes_ge: "8 \<le> length (kv_bytes kv)"
  by (simp add: kv_bytes_def)

subsection \<open>What the writer writes\<close>

text \<open>The state of the callback after the pairs \<open>cur\<close> of an unfinished block.\<close>

definition in_block ::
    "block_writer \<Rightarrow> (string \<times> string) list \<Rightarrow> bool" where
  "in_block s cur \<longleftrightarrow>
     bw_blockLength s = length (data_bytes cur)
     \<and> bw_blockFirstKey s = (if cur = [] then '''' else fst (hd cur))
     \<and> bw_blockBuf s = data_bytes cur
     \<and> bw_offset s = bw_blockStartOffset s + length (data_bytes cur)
     \<and> bw_err s = None"

lemma write_blocks:
  assumes "in_block s cur" and "nonempty_keys (cur @ kvs)"
    and "calm (bw_world s)" and "files (bw_world s) file = Some c"
  shows "write_last_block file (foldl (write_entry file bl) s kvs) =
    ((bw_blockStartOffset s + length (data_bytes (cur @ kvs)),
      bw_indexBlock s @ index_of_chunks (bw_blockStartOffset s) (chunks bl cur kvs), None),
     (bw_world s)\<lparr>files := (files (bw_world s))(file \<mapsto> c @ data_bytes (cur @ kvs))\<rparr>)"
  using assms
proof (induction kvs arbitrary: s cur c)
  case Nil
  show ?case
  proof (cases cur)
    case Nil
    with Nil.prems show ?thesis
      by (simp add: write_last_block_def in_block_def fun_upd_idem)
  next
    case (Cons kv kvs)
    with Nil.prems show ?thesis
      by (simp add: write_last_block_def in_block_def file_Write_calm err_of_def fun_upd_def)
  qed
next
  case (Cons kv kvs)
  obtain k v where kv: "kv = (k, v)"
    by (cases kv)
  let ?cur = "cur @ [kv]"
  have key: "(if bw_blockFirstKey s = '''' then k else bw_blockFirstKey s) = fst (hd ?cur)"
    using Cons.prems(1,2) by (cases cur) (auto simp: in_block_def kv)
  have buf: "bw_blockBuf s @ ((len32 k @ k) @ len32 v) @ v = data_bytes ?cur"
    using Cons.prems(1) by (simp add: in_block_def kv kv_bytes_def)
  have len: "bw_blockLength s + length (((len32 k @ k) @ len32 v) @ v) = length (data_bytes ?cur)"
    using Cons.prems(1) by (simp add: in_block_def kv kv_bytes_def)
  have off: "bw_offset s + length (((len32 k @ k) @ len32 v) @ v) =
      bw_blockStartOffset s + length (data_bytes ?cur)"
    using Cons.prems(1) by (simp add: in_block_def kv kv_bytes_def)
  show ?case
  proof (cases "int (length (data_bytes ?cur)) > bl")
    case True
    let ?w' = "(bw_world s)\<lparr>files := (files (bw_world s))(file \<mapsto> c @ data_bytes ?cur)\<rparr>"
    let ?s' = "\<lparr>bw_blockLength = 0,
        bw_blockStartOffset = bw_blockStartOffset s + length (data_bytes ?cur),
        bw_blockFirstKey = '''', bw_blockBuf = [],
        bw_offset = bw_blockStartOffset s + length (data_bytes ?cur),
        bw_indexBlock = bw_indexBlock s @ [\<lparr>ikey = fst (hd ?cur), ioffset = bw_blockStartOffset s\<rparr>],
        bw_err = None, bw_world = ?w'\<rparr>"
    have "write_entry file bl s kv = ?s'"
      using True Cons.prems(3,4)
      by (simp only: write_entry_def kv prod.case Let_def key [unfolded kv] buf [unfolded kv]
          len [unfolded kv] off [unfolded kv] if_True file_Write_calm) (simp add: err_of_def)
    moreover have "in_block ?s' []" "nonempty_keys ([] @ kvs)"
      using Cons.prems(2) by (simp_all add: in_block_def)
    ultimately show ?thesis
      using Cons.IH [of ?s' "[]" "c @ data_bytes ?cur"] Cons.prems(3) True
      by (simp add: add.assoc)
  next
    case False
    let ?s' = "s\<lparr>bw_blockLength := length (data_bytes ?cur), bw_blockFirstKey := fst (hd ?cur),
        bw_blockBuf := data_bytes ?cur,
        bw_offset := bw_blockStartOffset s + length (data_bytes ?cur)\<rparr>"
    have "write_entry file bl s kv = ?s'"
      using False
      by (simp only: write_entry_def kv prod.case Let_def key [unfolded kv] buf [unfolded kv]
          len [unfolded kv] off [unfolded kv] if_False)
    moreover have "in_block ?s' ?cur" "nonempty_keys (?cur @ kvs)"
      using Cons.prems(1,2) by (simp_all add: in_block_def)
    ultimately show ?thesis
      using Cons.IH [of ?s' ?cur c] Cons.prems(3,4) False by simp
  qed
qed

lemma writeDataBlocks_calm:
  assumes "calm w" and "files w file = Some c" and "nonempty_keys kvs"
  shows "writeDataBlocks file bl kvs w =
    ((length (data_bytes kvs), file_index bl kvs, None),
     w\<lparr>files := (files w)(file \<mapsto> c @ data_bytes kvs)\<rparr>)"
  using write_blocks [of "block_writer_init w" "[]" kvs "file" c bl] assms
  by (simp add: writeDataBlocks_def file_index_def block_writer_init_def in_block_def)

lemma writeIndexBlock_calm:
  "calm w \<Longrightarrow> files w file = Some c \<Longrightarrow>
   writeIndexBlock file ibs w = (Inr (), w\<lparr>files := (files w)(file \<mapsto> c @ index_bytes ibs)\<rparr>)"
  by (induction ibs arbitrary: w c) (simp_all add: file_Write_calm fun_upd_idem)

lemma writeToFile_calm:
  assumes "calm w" and "files w file = Some c" and "nonempty_keys kvs"
  shows "writeToFile file bl kvs w =
    (Inr (length (data_bytes kvs), file_index bl kvs),
     w\<lparr>files := (files w)(file \<mapsto> c @ file_bytes bl kvs)\<rparr>)"
  using assms
  by (simp add: writeToFile_def writeDataBlocks_calm writeIndexBlock_calm writeFooter_def
      file_Write_calm file_bytes_def)

subsection \<open>Reading entries back\<close>

definition read_sst_string :: "bytes \<Rightarrow> nat \<Rightarrow> goerr + string \<times> nat" where
  "read_sst_string buf i =
     (case extractValueFromSsTable buf i of
        Inl e \<Rightarrow> Inl e | Inr s \<Rightarrow> Inr (s, i + (4 + length s)))"

lemma read_sst_entry_strings:
  "read_sst_entry buf i =
     (case read_sst_string buf i of
        Inl e \<Rightarrow> Inl e
      | Inr (key, j) \<Rightarrow> (case read_sst_string buf j of
          Inl e \<Rightarrow> Inl e | Inr (val, l) \<Rightarrow> Inr ((key, val), l)))"
  by (simp add: read_sst_entry_def read_sst_string_def Let_def split: sum.split)

interpretation sst_string: offset_reader lp read_sst_string
proof
  fix pre post :: bytes and x :: string
  assume "fits32 (length (pre @ lp x @ post))"
  then have "unat (word_of_nat (length x) :: 32 word) = length x"
    by simp
  then show "read_sst_string (pre @ lp x @ post) (length pre) = Inr (x, length pre + length (lp x))"
    by (simp add: read_sst_string_def extractValueFromSsTable_def slice_def)
next
  fix buf :: bytes and off off' :: nat and x :: string
  assume fits: "fits32 (length buf)" and read: "read_sst_string buf off = Inr (x, off')"
  define n where "n = unat (Uint32 (slice buf off (off + 4)))"
  from read have space: "off + 4 + n \<le> length buf"
    and x: "x = slice buf (off + 4) (off + 4 + n)" and off': "off' = off + 4 + length x"
    by (auto simp: read_sst_string_def extractValueFromSsTable_def n_def Let_def
        split: if_splits sum.splits)
  then have "length x = n"
    by simp
  moreover have "be32 (word_of_nat n) = slice buf off (off + 4)"
    using space by (simp add: n_def be32_Uint32)
  ultimately show "off' = off + length (lp x) \<and> off' \<le> length buf \<and> slice buf off off' = lp x"
    using x off' space by (simp add: slice_split [of off "off + 4" "off + 4 + n"])
qed

interpretation sst_entry: offset_reader kv_bytes read_sst_entry
proof
  fix pre post :: bytes and kv :: "string \<times> string"
  let ?buf = "pre @ kv_bytes kv @ post"
  assume fits: "fits32 (length ?buf)"
  have "read_sst_string ?buf (length pre) = Inr (fst kv, length pre + length (lp (fst kv)))"
    by (rule sst_string.read_at [OF fits]) (simp_all add: kv_bytes_def)
  moreover have "read_sst_string ?buf (length pre + length (lp (fst kv))) =
      Inr (snd kv, length pre + length (lp (fst kv)) + length (lp (snd kv)))"
    by (rule sst_string.read_at [OF fits, of "pre @ lp (fst kv)" _ post])
       (simp_all add: kv_bytes_def)
  ultimately show "read_sst_entry ?buf (length pre) = Inr (kv, length pre + length (kv_bytes kv))"
    by (simp add: read_sst_entry_strings kv_bytes_def)
next
  fix buf :: bytes and off off' :: nat and kv :: "string \<times> string"
  assume fits: "fits32 (length buf)" and off: "off \<le> length buf"
    and read: "read_sst_entry buf off = Inr (kv, off')"
  from read obtain off1 where k: "read_sst_string buf off = Inr (fst kv, off1)"
    and v: "read_sst_string buf off1 = Inr (snd kv, off')"
    by (auto simp: read_sst_entry_strings split: sum.splits)
  note ks = sst_string.read_sound [OF fits off k]
  note vs = sst_string.read_sound [OF fits _ v]
  have "slice buf off off' = slice buf off off1 @ slice buf off1 off'"
    by (rule slice_split) (use ks vs in auto)
  with ks vs show "off' = off + length (kv_bytes kv) \<and> off' \<le> length buf
      \<and> slice buf off off' = kv_bytes kv"
    by (auto simp: kv_bytes_def)
qed

text \<open>At the end of the pairs, fewer than four bytes are not an entry.\<close>

lemma read_sst_entry_short: "length buf < i + 4 \<Longrightarrow> read_sst_entry buf i = Inl errDatablock"
  by (simp add: read_sst_entry_def extractValueFromSsTable_def)

subsection \<open>Loops over the entries of a buffer\<close>

text \<open>
  Every loop over a data block reads an entry, and either stops or goes on behind it with a
  new accumulator.
\<close>

locale entry_loop =
  fixes loop :: "bytes \<Rightarrow> nat \<Rightarrow> 's \<Rightarrow> 'r"
    and step :: "string \<times> string \<Rightarrow> 's \<Rightarrow> 's"
    and goes_on :: "string \<times> string \<Rightarrow> 's \<Rightarrow> bool"
  assumes loop_step:
    "i < length buf \<Longrightarrow> read_sst_entry buf i = Inr (kv, j) \<Longrightarrow> goes_on kv s \<Longrightarrow>
     loop buf i s = loop buf j (step kv s)"
begin

fun goes_through :: "(string \<times> string) list \<Rightarrow> 's \<Rightarrow> bool" where
  "goes_through [] s = True"
| "goes_through (kv # kvs) s = (goes_on kv s \<and> goes_through kvs (step kv s))"

lemma loop_entries:
  assumes "fits32 (length (pre @ data_bytes kvs @ post))" and "goes_through kvs s"
  shows "loop (pre @ data_bytes kvs @ post) (length pre) s =
    loop (pre @ data_bytes kvs @ post) (length pre + length (data_bytes kvs))
      (foldl (\<lambda>s kv. step kv s) s kvs)"
  using assms
proof (induction kvs arbitrary: pre s)
  case Nil
  then show ?case by simp
next
  case (Cons kv kvs)
  let ?buf = "pre @ data_bytes (kv # kvs) @ post"
  have "read_sst_entry ?buf (length pre) = Inr (kv, length pre + length (kv_bytes kv))"
    by (rule sst_entry.read_at [OF Cons.prems(1), of _ _ "data_bytes kvs @ post"]) simp_all
  moreover have "length pre < length ?buf"
    using length_kv_bytes_ge [of kv] by simp
  ultimately have "loop ?buf (length pre) s =
      loop ?buf (length pre + length (kv_bytes kv)) (step kv s)"
    using Cons.prems(2) by (intro loop_step) simp_all
  then show ?case
    using Cons.IH [of "pre @ kv_bytes kv" "step kv s"] Cons.prems by (simp add: add.assoc)
qed

lemma goes_throughI: "(\<And>kv s. kv \<in> set kvs \<Longrightarrow> goes_on kv s) \<Longrightarrow> goes_through kvs s"
  by (induction kvs arbitrary: s) simp_all

end

interpretation get_loop: entry_loop "\<lambda>buf i _. get_value_loop buf key i" "\<lambda>_ _. ()"
    "\<lambda>kv _. fst kv \<noteq> key" for key
  by unfold_locales (auto simp: get_value_loop.simps [of buf key i for buf i])

text \<open>One pair met by the scan; newer files come first, so the first value stays.\<close>

definition scan_step :: "string \<Rightarrow> string \<times> string \<Rightarrow> (string \<rightharpoonup> string) \<Rightarrow> (string \<rightharpoonup> string)" where
  "scan_step p kv m = (if HasPrefix (fst kv) p \<and> m (fst kv) = None then m(fst kv \<mapsto> snd kv) else m)"

definition scan_goes_on :: "string \<Rightarrow> string \<times> string \<Rightarrow> bool" where
  "scan_goes_on p kv \<longleftrightarrow>
     HasPrefix (fst kv) p \<or> \<not> take (min (length p) (length (fst kv))) (fst kv) > p"

interpretation scan: entry_loop "\<lambda>buf i m. scan_loop buf p i m" "scan_step p"
    "\<lambda>kv _. scan_goes_on p kv" for p
proof
  fix i j :: nat and buf kv and s :: "string \<rightharpoonup> string"
  assume "i < length buf" and "read_sst_entry buf i = Inr (kv, j)" and "scan_goes_on p kv"
  then show "scan_loop buf p i s = scan_loop buf p j (scan_step p kv s)"
    by (cases kv) (auto simp: scan_loop.simps [of buf p i] scan_step_def scan_goes_on_def)
qed

subsection \<open>The lookup loop\<close>

lemma get_loop_passes:
  "\<forall>kv \<in> set kvs. fst kv \<noteq> key \<Longrightarrow> get_loop.goes_through key kvs ()"
  by (rule get_loop.goes_throughI) auto

text \<open>On a block with one more byte behind it: a key that is not in the block is an error.\<close>

lemma get_value_block:
  assumes "fits32 (length (data_bytes kvs @ [x]))"
  shows "get_value_loop (data_bytes kvs @ [x]) key 0 =
    (case map_of kvs key of None \<Rightarrow> Inl errDatablock | Some v \<Rightarrow> Inr v)"
proof (cases "map_of kvs key")
  case None
  then have "\<forall>kv \<in> set kvs. fst kv \<noteq> key"
    by (auto simp: map_of_eq_None_iff)
  then have "get_value_loop (data_bytes kvs @ [x]) key 0 =
      get_value_loop (data_bytes kvs @ [x]) key (length (data_bytes kvs))"
    using get_loop.loop_entries [of "[]" kvs "[x]" key "()"] assms
    by (simp add: get_loop_passes)
  also have "\<dots> = Inl errDatablock"
    by (simp add: get_value_loop.simps [of _ key "length (data_bytes kvs)"] read_sst_entry_short)
  finally show ?thesis
    using None by simp
next
  case (Some v)
  then have "\<exists>kv \<in> set kvs. fst kv = key"
    by (force dest: map_of_SomeD)
  then obtain xs kv ys where kvs: "kvs = xs @ kv # ys" "fst kv = key" "\<forall>kv \<in> set xs. fst kv \<noteq> key"
    by (rule split_list_first_propE)
  then have "map_of xs key = None"
    by (auto simp: map_of_eq_None_iff)
  with Some kvs have kv: "kv = (key, v)"
    by (cases kv) (simp add: map_add_def)
  let ?buf = "data_bytes xs @ kv_bytes kv @ data_bytes ys @ [x]"
  have fits: "fits32 (length ?buf)"
    using assms kvs by simp
  have "get_value_loop ?buf key 0 = get_value_loop ?buf key (length (data_bytes xs))"
    using get_loop.loop_entries [of "[]" xs "kv_bytes kv @ data_bytes ys @ [x]" key "()"] fits kvs(3)
    by (simp add: get_loop_passes)
  moreover have "read_sst_entry ?buf (length (data_bytes xs)) =
      Inr (kv, length (data_bytes xs) + length (kv_bytes kv))"
    by (rule sst_entry.read_enc [OF fits])
  ultimately show ?thesis
    using Some kv kvs(1) by (simp add: get_value_loop.simps [of _ key "length (data_bytes xs)"])
qed

subsection \<open>The scan loop\<close>

text \<open>The first map wins where both are defined.\<close>

lemma foldl_scan_step:
  "foldl (\<lambda>m kv. scan_step p kv m) m kvs = (map_of kvs |` {k. HasPrefix k p}) ++ m"
proof (induction kvs arbitrary: m)
  case Nil
  then show ?case by simp
next
  case (Cons kv kvs)
  have "foldl (\<lambda>m kv. scan_step p kv m) m (kv # kvs) =
      (map_of kvs |` {k. HasPrefix k p}) ++ scan_step p kv m"
    by (simp only: foldl_Cons Cons.IH)
  also have "\<dots> = (map_of (kv # kvs) |` {k. HasPrefix k p}) ++ m"
    by (cases "HasPrefix (fst kv) p"; cases "m (fst kv)")
       (auto simp: scan_step_def fun_eq_iff map_add_def restrict_map_def split: option.split)
  finally show ?case .
qed

lemma scan_stop_no_prefix:
  assumes "\<not> scan_goes_on p kv" and "fst kv \<le> k"
  shows "\<not> HasPrefix k p"
proof -
  have "p < take (min (length p) (length (fst kv))) (fst kv)" and stop: "\<not> HasPrefix (fst kv) p"
    using assms(1) by (simp_all add: scan_goes_on_def)
  moreover have "take (min (length p) (length (fst kv))) (fst kv) \<le> fst kv"
    by (rule prefix_imp_le) (rule take_is_prefix)
  ultimately have "p \<le> fst kv"
    by (meson less_imp_le less_le_trans)
  then show ?thesis
    using no_prefix_above [of p "fst kv" k] stop assms(2) by simp
qed

lemma scan_loop_data:
  assumes "fits32 (length (data_bytes kvs))" and "sorted_keys kvs"
  shows "scan_loop (data_bytes kvs) p 0 m = Inr ((map_of kvs |` {k. HasPrefix k p}) ++ m)"
proof -
  define xs where "xs = takeWhile (scan_goes_on p) kvs"
  define ys where "ys = dropWhile (scan_goes_on p) kvs"
  have kvs: "kvs = xs @ ys"
    by (simp add: xs_def ys_def)
  have "scan.goes_through p xs m"
    by (rule scan.goes_throughI) (auto simp: xs_def dest: set_takeWhileD)
  with assms(1) have "scan_loop (data_bytes kvs) p 0 m =
      scan_loop (data_bytes kvs) p (length (data_bytes xs)) (foldl (\<lambda>m kv. scan_step p kv m) m xs)"
    using scan.loop_entries [of "[]" xs "data_bytes ys" p m] by (simp add: kvs)
  also have "\<dots> = Inr ((map_of xs |` {k. HasPrefix k p}) ++ m)"
  proof (cases ys)
    case Nil
    then show ?thesis
      by (simp add: kvs foldl_scan_step scan_loop.simps [of _ p "length (data_bytes xs)"])
  next
    case (Cons kv zs)
    have "\<not> scan_goes_on p kv"
      using Cons hd_dropWhile [of "scan_goes_on p" kvs] by (simp add: ys_def)
    moreover have "read_sst_entry (data_bytes kvs) (length (data_bytes xs)) =
        Inr (kv, length (data_bytes xs) + length (kv_bytes kv))"
      by (rule sst_entry.read_at [OF assms(1), of _ _ "data_bytes zs"]) (simp_all add: kvs Cons)
    moreover have "length (data_bytes xs) < length (data_bytes kvs)"
      using length_kv_bytes_ge [of kv] by (simp add: kvs Cons)
    ultimately show ?thesis
      by (cases kv)
        (auto simp: foldl_scan_step scan_goes_on_def scan_loop.simps [of _ p "length (data_bytes xs)"])
  qed
  also have "map_of xs |` {k. HasPrefix k p} = map_of kvs |` {k. HasPrefix k p}"
  proof (cases ys)
    case Nil
    then show ?thesis by (simp add: kvs)
  next
    case (Cons kv zs)
    have stop: "\<not> scan_goes_on p kv"
      using Cons hd_dropWhile [of "scan_goes_on p" kvs] by (simp add: ys_def)
    have "fst kv \<le> fst y" if "y \<in> set ys" for y
      using that assms(2) by (auto simp: kvs Cons sorted_keys_append)
    then have "map_of ys k = None" if "HasPrefix k p" for k
      using that scan_stop_no_prefix [OF stop] by (force simp: map_of_eq_None_iff)
    then show ?thesis
      by (auto simp: kvs restrict_map_def fun_eq_iff map_add_def split: option.split)
  qed
  finally show ?thesis .
qed

subsection \<open>Binary search\<close>

definition blocks_below :: "string \<Rightarrow> indexBlockEntry list \<Rightarrow> nat" where
  "blocks_below key index = length (takeWhile (\<lambda>ib. ikey ib \<le> key) index)"

lemma blocks_below_nth:
  assumes "sorted (map ikey index)" and "i < length index"
  shows "ikey (index ! i) \<le> key \<longleftrightarrow> i < blocks_below key index"
proof
  assume "i < blocks_below key index"
  then show "ikey (index ! i) \<le> key"
    unfolding blocks_below_def by (metis nth_mem set_takeWhileD takeWhile_nth)
next
  assume le: "ikey (index ! i) \<le> key"
  show "i < blocks_below key index"
  proof (rule ccontr)
    assume "\<not> i < blocks_below key index"
    then have n: "blocks_below key index \<le> i" "blocks_below key index < length index"
      using assms(2) by simp_all
    then have "\<not> ikey (index ! blocks_below key index) \<le> key"
      unfolding blocks_below_def by (rule_tac nth_length_takeWhile) simp
    moreover have "ikey (index ! blocks_below key index) \<le> ikey (index ! i)"
      using sorted_nth_mono [OF assms(1), of "blocks_below key index" i] n assms(2) by simp
    ultimately show False
      using le by simp
  qed
qed

lemma lower_bound_loop_eq:
  assumes "sorted (map ikey index)" and "0 \<le> low" and "high < int (length index)"
    and "low \<le> int (blocks_below key index)" and "int (blocks_below key index) \<le> high + 1"
  shows "lower_bound_loop key index low high (low - 1) = int (blocks_below key index) - 1"
  using assms
proof (induction "nat (high - low + 1)" arbitrary: low high rule: less_induct)
  case less
  show ?case
  proof (cases "low \<le> high")
    case False
    with less.prems show ?thesis
      by (simp add: lower_bound_loop.simps [of key index low high])
  next
    case True
    define mid where "mid = low + (high - low) div 2"
    have mid: "low \<le> mid" "mid \<le> high"
      using True by (auto simp: mid_def)
    have cmp: "ikey (index ! nat mid) \<le> key \<longleftrightarrow> mid < int (blocks_below key index)"
      using blocks_below_nth [OF less.prems(1), of "nat mid" key] mid less.prems(2,3) by auto
    show ?thesis
    proof (cases "ikey (index ! nat mid) \<le> key")
      case True
      have "lower_bound_loop key index (mid + 1) high (mid + 1 - 1) =
          int (blocks_below key index) - 1"
        by (rule less.hyps) (use True cmp mid less.prems in auto)
      then show ?thesis
        using True \<open>low \<le> high\<close>
        by (simp add: lower_bound_loop.simps [of key index low high] mid_def [symmetric] Let_def)
    next
      case False
      have "lower_bound_loop key index low (mid - 1) (low - 1) =
          int (blocks_below key index) - 1"
        by (rule less.hyps) (use False cmp mid less.prems in auto)
      then show ?thesis
        using False \<open>low \<le> high\<close>
        by (simp add: lower_bound_loop.simps [of key index low high] mid_def [symmetric] Let_def)
    qed
  qed
qed

lemma getLowerBound_eq:
  assumes "sorted (map ikey index)"
  shows "getLowerBound key index = int (blocks_below key index) - 1"
proof -
  have "blocks_below key index \<le> length index"
    by (simp add: blocks_below_def length_takeWhile_le)
  then show ?thesis
    using lower_bound_loop_eq [OF assms, of 0 "int (length index) - 1" key]
    by (simp add: getLowerBound_def)
qed

end
