(* ===== verification/Sstable_Read.thy ===== *)
theory Sstable_Read
  imports Sstable_File
begin

text \<open>
  \<^verbatim>\<open>sstable/sstable.go\<close>, reading one table file: the body of the loop of \<open>Get\<close>
  and the body of the loop of \<open>PrefixScan\<close>, for one file with its index, and what they
  return on a file that the writer has laid out. Also the round trip of the index block.
\<close>

subsection \<open>One file in \<open>Get\<close> and in \<open>PrefixScan\<close>\<close>

text \<open>The body of the loop of \<open>Get\<close>; \<open>None\<close> is \<open>continue\<close>, \<open>Some\<close> a return.\<close>

definition get_from_file ::
    "string \<Rightarrow> string \<Rightarrow> indexBlockEntry list \<Rightarrow> nat \<Rightarrow> world \<Rightarrow> (goerr + string) option" where
  "get_from_file key file ssTableIndex indexOffset w =
     (let lowerBoundSliceIndex = getLowerBound key ssTableIndex in
      if lowerBoundSliceIndex = -1 then None
      else let endOffset = (if lowerBoundSliceIndex < int (length ssTableIndex) - 1
                            then ioffset (ssTableIndex ! nat (lowerBoundSliceIndex + 1))
                            else indexOffset) in
        (case getValueFromSsTableDataBlock file key
                (ioffset (ssTableIndex ! nat lowerBoundSliceIndex)) endOffset w of
           Inr value \<Rightarrow> if value = '''' then None else Some (Inr value)
         | Inl err \<Rightarrow> Some (Inl err)))"

text \<open>
  The block from which \<open>PrefixScan\<close> reads a file, \<open>None\<close> for \<open>continue\<close>, and the map after
  the file.
\<close>

definition scan_start :: "string \<Rightarrow> indexBlockEntry list \<Rightarrow> nat option" where
  "scan_start prefixKey ssTableIndex =
     (let lowerBoundSliceIndex = getLowerBound prefixKey ssTableIndex in
      if lowerBoundSliceIndex = -1
      then if length ssTableIndex = 0 \<or> \<not> HasPrefix (ikey (ssTableIndex ! 0)) prefixKey
           then None else Some 0
      else Some (nat lowerBoundSliceIndex))"

definition scan_file ::
    "string \<Rightarrow> string \<Rightarrow> indexBlockEntry list \<Rightarrow> nat \<Rightarrow> (string \<rightharpoonup> string) \<Rightarrow> world
       \<Rightarrow> goerr + (string \<rightharpoonup> string)" where
  "scan_file prefixKey file ssTableIndex indexOffset tableMap w =
     (case scan_start prefixKey ssTableIndex of
        None \<Rightarrow> Inr tableMap
      | Some lowerBoundSliceIndex \<Rightarrow>
          sequentiallyScanTableAndUpdateMap file prefixKey
            (ioffset (ssTableIndex ! lowerBoundSliceIndex)) indexOffset tableMap w)"

subsection \<open>Specification\<close>

text \<open>A file with these pairs, as the writer leaves it.\<close>

definition table_file :: "world \<Rightarrow> string \<Rightarrow> int \<Rightarrow> (string \<times> string) list \<Rightarrow> bool" where
  "table_file w file bl kvs \<longleftrightarrow>
     files w file = Some (file_bytes bl kvs) \<and> sorted_keys kvs \<and> nonempty_keys kvs
     \<and> fits32 (length (file_bytes bl kvs))"

text \<open>
  What the code answers for one file: it goes on to older files below the first key and for
  an empty value, and it fails for a key that its candidate block does not hold.
\<close>

definition file_get :: "(string \<times> string) list \<Rightarrow> string \<Rightarrow> (goerr + string) option" where
  "file_get kvs key =
     (if kvs = [] \<or> key < fst (hd kvs) then None
      else case map_of kvs key of
             None \<Rightarrow> Some (Inl errDatablock)
           | Some v \<Rightarrow> if v = '''' then None else Some (Inr v))"

subsection \<open>Blocks and their index\<close>

lemma length_index_of_chunks [simp]: "length (index_of_chunks off bs) = length bs"
  by (induction bs arbitrary: off) simp_all

lemma index_of_chunks_Nil [simp]: "index_of_chunks off bs = [] \<longleftrightarrow> bs = []"
  by (cases bs) simp_all

lemma index_of_chunks_nth:
  "i < length bs \<Longrightarrow> index_of_chunks off bs ! i =
     \<lparr>ikey = fst (hd (bs ! i)), ioffset = off + length (data_bytes (concat (take i bs)))\<rparr>"
  by (induction bs arbitrary: off i) (auto simp: nth_Cons split: nat.split)

lemma concat_at: "i < length bs \<Longrightarrow> concat bs = concat (take i bs) @ bs ! i @ concat (drop (Suc i) bs)"
  by (subst (1) id_take_nth_drop [of i bs]) simp_all

lemma concat_take_Suc: "i < length bs \<Longrightarrow> concat (take (Suc i) bs) = concat (take i bs) @ bs ! i"
  by (simp add: take_Suc_conv_app_nth)

lemma keys_after_hd:
  assumes "sorted_keys (concat bs)" and "\<forall>b \<in> set bs. b \<noteq> []" and "kv \<in> set (concat bs)"
  shows "fst (hd (hd bs)) \<le> fst kv"
proof (cases bs)
  case Nil
  with assms(3) show ?thesis by simp
next
  case (Cons b bs')
  with assms(2) obtain x b' where "b = x # b'"
    by (cases b) auto
  with Cons assms(1,3) show ?thesis
    by (auto intro: less_imp_le)
qed

lemma sorted_index_of_chunks:
  assumes "sorted_keys (concat bs)" and "\<forall>b \<in> set bs. b \<noteq> []"
  shows "sorted (map ikey (index_of_chunks off bs))"
  using assms
proof (induction bs arbitrary: off)
  case Nil
  then show ?case by simp
next
  case (Cons b bs)
  have "fst (hd b) \<le> k" if "k \<in> ikey ` set (index_of_chunks off' bs)" for k off'
  proof -
    from that obtain i where i: "i < length bs" "k = fst (hd (bs ! i))"
      by (auto simp: in_set_conv_nth index_of_chunks_nth)
    then have "hd (bs ! i) \<in> set (concat (b # bs))"
      using Cons.prems(2) by (auto intro!: bexI [of _ "bs ! i"])
    with keys_after_hd [OF Cons.prems] i(2) show ?thesis
      by fastforce
  qed
  moreover have "sorted (map ikey (index_of_chunks (off + length (data_bytes b)) bs))"
    using Cons.prems by (intro Cons.IH) (simp_all add: sorted_keys_append)
  ultimately show ?case
    by auto
qed

lemma block_of_key:
  assumes "sorted_keys (concat bs)" and "\<forall>b \<in> set bs. b \<noteq> []" and i: "i < length bs"
    and "fst (hd (bs ! i)) \<le> key" and "Suc i < length bs \<Longrightarrow> key < fst (hd (bs ! Suc i))"
  shows "map_of (concat bs) key = map_of (bs ! i) key"
proof -
  have ne: "bs ! i \<noteq> []"
    using assms(2) i by auto
  have sorted: "sorted_keys (concat (take i bs) @ bs ! i @ concat (drop (Suc i) bs))"
    using assms(1) concat_at [OF i] by simp
  have "fst x < key" if "x \<in> set (concat (take i bs))" for x
  proof -
    have "fst x < fst (hd (bs ! i))"
      using sorted that hd_in_set [OF ne] by (auto simp: sorted_keys_append)
    with assms(4) show ?thesis by simp
  qed
  then have before: "map_of (concat (take i bs)) key = None"
    by (force simp: map_of_eq_None_iff)
  have "key < fst x" if x: "x \<in> set (concat (drop (Suc i) bs))" for x
  proof -
    have Suc: "Suc i < length bs"
      using x by (cases "Suc i < length bs") auto
    moreover have "fst (hd (hd (drop (Suc i) bs))) \<le> fst x"
      by (rule keys_after_hd [OF _ _ x])
         (use sorted assms(2) in \<open>auto simp: sorted_keys_append dest: in_set_dropD\<close>)
    ultimately show ?thesis
      using assms(5) by (simp add: hd_drop_conv_nth)
  qed
  then have "map_of (concat (drop (Suc i) bs)) key = None"
    by (force simp: map_of_eq_None_iff)
  with before show ?thesis
    by (simp add: concat_at [OF i] map_add_def split: option.split)
qed

subsection \<open>Reading a file that the writer has written\<close>

lemma file_ReadAt_at:
  assumes "calm w" and "files w file = Some c" and "c = pre @ mid @ post"
    and "off = int (length pre)" and "n = length mid"
  shows "file_ReadAt file n off w = (mid, None)"
  using file_ReadAt_calm [of w "file" pre mid post] assms by simp

lemma file_chunks:
  obtains bs where "concat bs = kvs" and "\<forall>b \<in> set bs. b \<noteq> []"
    and "file_index bl kvs = index_of_chunks 0 bs"
  by (rule that [of "chunks bl [] kvs"])
     (auto simp: concat_chunks file_index_def chunks_nonempty)

lemma get_block:
  assumes calm: "calm w" and tf: "table_file w name bl (concat bs)"
    and index: "file_index bl (concat bs) = index_of_chunks 0 bs"
    and i: "i < length bs"
  shows "getValueFromSsTableDataBlock name key (ioffset (index_of_chunks 0 bs ! i))
      (if Suc i < length bs then ioffset (index_of_chunks 0 bs ! Suc i)
       else length (data_bytes (concat bs))) w =
    (case map_of (bs ! i) key of None \<Rightarrow> Inl errDatablock | Some v \<Rightarrow> Inr v)"
proof -
  let ?pre = "data_bytes (concat (take i bs))" and ?b = "data_bytes (bs ! i)"
  let ?rest = "data_bytes (concat (drop (Suc i) bs)) @ index_bytes (index_of_chunks 0 bs)
    @ be32 (word_of_nat (length (data_bytes (concat bs))))"
  obtain x rest where rest: "?rest = x # rest"
    by (cases ?rest) auto
  have "file_bytes bl (concat bs) = data_bytes (concat bs) @ index_bytes (index_of_chunks 0 bs)
      @ be32 (word_of_nat (length (data_bytes (concat bs))))"
    by (simp add: file_bytes_def index)
  also have "data_bytes (concat bs) = ?pre @ ?b @ data_bytes (concat (drop (Suc i) bs))"
    by (subst concat_at [OF i]) simp
  finally have "file_bytes bl (concat bs) = ?pre @ ?b @ ?rest"
    by (simp add: concat_at [OF i])
  then have layout: "file_bytes bl (concat bs) = ?pre @ (?b @ [x]) @ rest"
    by (simp only: rest) simp
  have start: "ioffset (index_of_chunks 0 bs ! i) = length ?pre"
    using i by (simp add: index_of_chunks_nth)
  have stop: "(if Suc i < length bs then ioffset (index_of_chunks 0 bs ! Suc i)
      else length (data_bytes (concat bs))) = length ?pre + length ?b"
    using i concat_at [OF i] by (auto simp: index_of_chunks_nth concat_take_Suc)
  have "file_ReadAt name (nat (int (length ?pre + length ?b) - int (length ?pre) + 1))
      (int (length ?pre)) w = (?b @ [x], None)"
    by (rule file_ReadAt_at [OF calm _ layout]) (use tf in \<open>simp_all add: table_file_def\<close>)
  moreover have "fits32 (length (?b @ [x]))"
    using tf by (simp add: layout table_file_def)
  ultimately show ?thesis
    unfolding getValueFromSsTableDataBlock_def start stop
    by (simp add: get_value_block Let_def)
qed

lemma blocks_below_index_of_chunks:
  assumes "sorted_keys (concat bs)" and "\<forall>b \<in> set bs. b \<noteq> []" and "i < length bs"
  shows "i < blocks_below key (index_of_chunks off bs) \<longleftrightarrow> fst (hd (bs ! i)) \<le> key"
  using blocks_below_nth [OF sorted_index_of_chunks [OF assms(1,2)], of i off key] assms(3)
  by (simp add: index_of_chunks_nth)

lemma blocks_below_le: "blocks_below key index \<le> length index"
  by (simp add: blocks_below_def length_takeWhile_le)

lemma get_from_file_eq:
  assumes calm: "calm w" and tf: "table_file w name bl kvs"
  shows "get_from_file key name (file_index bl kvs) (length (data_bytes kvs)) w = file_get kvs key"
proof -
  obtain bs where kvs: "concat bs = kvs" and ne: "\<forall>b \<in> set bs. b \<noteq> []"
    and index: "file_index bl kvs = index_of_chunks 0 bs"
    by (rule file_chunks)
  have sorted: "sorted_keys (concat bs)"
    using tf by (simp add: kvs table_file_def)
  define n where "n = blocks_below key (index_of_chunks 0 bs)"
  have lb: "getLowerBound key (index_of_chunks 0 bs) = int n - 1"
    unfolding n_def by (rule getLowerBound_eq) (rule sorted_index_of_chunks [OF sorted ne])
  have n_le: "n \<le> length bs"
    using blocks_below_le [of key "index_of_chunks 0 bs"] by (simp add: n_def)
  have below: "i < length bs \<Longrightarrow> i < n \<longleftrightarrow> fst (hd (bs ! i)) \<le> key" for i
    unfolding n_def by (rule blocks_below_index_of_chunks [OF sorted ne])
  have hd_kvs: "bs \<noteq> [] \<Longrightarrow> hd kvs = hd (bs ! 0) \<and> kvs \<noteq> []"
    using ne by (cases bs) (auto simp: kvs [symmetric])
  show ?thesis
  proof (cases n)
    case 0
    then have "kvs = [] \<or> key < fst (hd kvs)"
      using below [of 0] hd_kvs kvs by (cases "bs = []") auto
    then show ?thesis
      using 0 by (simp add: get_from_file_def index lb file_get_def)
  next
    case (Suc i)
    then have i: "i < length bs"
      using n_le by simp
    have "\<not> (kvs = [] \<or> key < fst (hd kvs))"
      using below [of 0] hd_kvs Suc i by (cases "bs = []") auto
    moreover have "map_of kvs key = map_of (bs ! i) key"
      unfolding kvs [symmetric]
      by (rule block_of_key [OF sorted ne i]) (use below [of i] below [of "Suc i"] Suc i in auto)
    moreover have "getValueFromSsTableDataBlock name key (ioffset (index_of_chunks 0 bs ! i))
        (if Suc i < length bs then ioffset (index_of_chunks 0 bs ! Suc i)
         else length (data_bytes kvs)) w =
        (case map_of (bs ! i) key of None \<Rightarrow> Inl errDatablock | Some v \<Rightarrow> Inr v)"
      unfolding kvs [symmetric]
      by (rule get_block [OF calm _ _ i]) (use tf index kvs in auto)
    moreover have "(int i < int (length bs) - 1) = (Suc i < length bs)" "nat (int i + 1) = Suc i"
      by auto
    ultimately show ?thesis
      unfolding get_from_file_def index lb Suc file_get_def
      by (cases "Suc i < length bs") (simp_all add: Let_def split: option.split)
  qed
qed

text \<open>The scan from the start of block \<open>i\<close>, and what it may leave out.\<close>

lemma scan_from_block:
  assumes calm: "calm w" and tf: "table_file w name bl (concat bs)" and i: "i < length bs"
  shows "sequentiallyScanTableAndUpdateMap name p (ioffset (index_of_chunks 0 bs ! i))
      (length (data_bytes (concat bs))) m w =
    Inr ((map_of (concat (drop i bs)) |` {k. HasPrefix k p}) ++ m)"
proof -
  let ?pre = "data_bytes (concat (take i bs))" and ?d = "data_bytes (concat (drop i bs))"
  have split: "concat bs = concat (take i bs) @ concat (drop i bs)"
    by (simp flip: concat_append)
  then have len: "length (data_bytes (concat bs)) = length ?pre + length ?d"
    by simp
  have layout: "file_bytes bl (concat bs) = ?pre @ ?d @ (index_bytes (file_index bl (concat bs))
      @ be32 (word_of_nat (length (data_bytes (concat bs)))))"
    by (subst file_bytes_def, subst (1) split) simp
  have "file_ReadAt name (nat (int (length ?pre + length ?d) - int (length ?pre)))
      (int (length ?pre)) w = (?d, None)"
    by (rule file_ReadAt_at [OF calm _ layout]) (use tf in \<open>simp_all add: table_file_def\<close>)
  moreover have "fits32 (length ?d)"
    using tf by (simp add: table_file_def layout)
  moreover have "sorted_keys (concat (drop i bs))"
    using tf split by (simp add: table_file_def sorted_keys_append)
  ultimately show ?thesis
    using i unfolding sequentiallyScanTableAndUpdateMap_def len
    by (simp add: index_of_chunks_nth scan_loop_data)
qed

lemma no_match_before_block:
  assumes "sorted_keys (concat bs)" and "\<forall>b \<in> set bs. b \<noteq> []" and i: "i < length bs"
    and le: "fst (hd (bs ! i)) \<le> p"
  shows "map_of (concat (drop i bs)) |` {k. HasPrefix k p} =
    map_of (concat bs) |` {k. HasPrefix k p}"
proof -
  have split: "concat bs = concat (take i bs) @ concat (drop i bs)"
    by (simp flip: concat_append)
  have "hd (bs ! i) \<in> set (concat (drop i bs))"
    using assms(2) i hd_in_set [of "bs ! i"] by (auto simp: Cons_nth_drop_Suc [OF i, symmetric])
  then have "fst kv < p" if "kv \<in> set (concat (take i bs))" for kv
    using assms(1) that le unfolding split sorted_keys_append by (meson less_le_trans)
  then have "map_of (concat (take i bs)) k = None" if "HasPrefix k p" for k
    using prefix_imp_le [OF that] by (force simp: map_of_eq_None_iff)
  then show ?thesis
    unfolding split by (auto simp: fun_eq_iff restrict_map_def map_add_def split: option.split)
qed

lemma no_match_at_all:
  assumes "sorted_keys (concat bs)" and "\<forall>b \<in> set bs. b \<noteq> []"
    and "bs \<noteq> [] \<Longrightarrow> p \<le> fst (hd (bs ! 0)) \<and> \<not> HasPrefix (fst (hd (bs ! 0))) p"
  shows "map_of (concat bs) |` {k. HasPrefix k p} = Map.empty"
proof -
  have "\<not> HasPrefix (fst kv) p" if "kv \<in> set (concat bs)" for kv
  proof -
    from that have "bs \<noteq> []"
      by auto
    with keys_after_hd [OF assms(1,2) that] assms(3) show ?thesis
      using no_prefix_above [of p "fst (hd (bs ! 0))" "fst kv"] by (simp add: hd_conv_nth)
  qed
  then have "map_of (concat bs) k = None" if "HasPrefix k p" for k
    using that by (auto simp: map_of_eq_None_iff)
  then show ?thesis
    by (auto simp: restrict_map_def)
qed

lemma scan_file_eq:
  assumes calm: "calm w" and tf: "table_file w name bl kvs"
  shows "scan_file p name (file_index bl kvs) (length (data_bytes kvs)) m w =
    Inr ((map_of kvs |` {k. HasPrefix k p}) ++ m)"
proof -
  obtain bs where kvs: "concat bs = kvs" and ne: "\<forall>b \<in> set bs. b \<noteq> []"
    and index: "file_index bl kvs = index_of_chunks 0 bs"
    by (rule file_chunks)
  have sorted: "sorted_keys (concat bs)"
    using tf by (simp add: kvs table_file_def)
  define n where "n = blocks_below p (index_of_chunks 0 bs)"
  have lb: "getLowerBound p (index_of_chunks 0 bs) = int n - 1"
    unfolding n_def by (rule getLowerBound_eq) (rule sorted_index_of_chunks [OF sorted ne])
  have n_le: "n \<le> length bs"
    using blocks_below_le [of p "index_of_chunks 0 bs"] by (simp add: n_def)
  have below: "i < length bs \<Longrightarrow> i < n \<longleftrightarrow> fst (hd (bs ! i)) \<le> p" for i
    unfolding n_def by (rule blocks_below_index_of_chunks [OF sorted ne])
  note scan = scan_from_block [OF calm tf [folded kvs], unfolded kvs]
  consider "n = 0" "bs = [] \<or> \<not> HasPrefix (fst (hd (bs ! 0))) p"
    | "n = 0" "bs \<noteq> []" "HasPrefix (fst (hd (bs ! 0))) p"
    | i where "n = Suc i"
    by (cases n) auto
  then show ?thesis
  proof cases
    case 1
    then have "bs = [] \<or> \<not> HasPrefix (ikey (index_of_chunks 0 bs ! 0)) p"
      by (cases "bs = []") (simp_all add: index_of_chunks_nth)
    moreover have "map_of (concat bs) |` {k. HasPrefix k p} = Map.empty"
      by (rule no_match_at_all [OF sorted ne]) (use below [of 0] 1 in auto)
    ultimately show ?thesis
      by (simp add: scan_file_def scan_start_def index lb 1 kvs)
  next
    case 2
    then show ?thesis
      using scan [of 0] by (simp add: scan_file_def scan_start_def index lb index_of_chunks_nth kvs)
  next
    case (3 i)
    then have "i < length bs" "fst (hd (bs ! i)) \<le> p"
      using n_le below [of i] by simp_all
    with no_match_before_block [OF sorted ne] show ?thesis
      using scan [of i] by (simp add: scan_file_def scan_start_def index lb 3 kvs)
  qed
qed

subsection \<open>The round trip of the index\<close>

definition index_fits :: "indexBlockEntry list \<Rightarrow> bool" where
  "index_fits ibs \<longleftrightarrow> (\<forall>ib \<in> set ibs. fits32 (length (ikey ib)) \<and> fits32 (ioffset ib))"

lemma index_loop_entry:
  assumes "fits32 (length (ikey ib))" and "fits32 (ioffset ib)"
    and "buf = pre @ (lp (ikey ib) @ be32 (word_of_nat (ioffset ib))) @ post"
  shows "index_loop buf (length pre) acc =
    index_loop buf (length (pre @ lp (ikey ib) @ be32 (word_of_nat (ioffset ib)))) (acc @ [ib])"
proof -
  let ?k = "ikey ib"
  have l: "slice buf (length pre) (length pre + 4) = len32 ?k"
    using slice_at [of "length pre" pre _ "len32 ?k" "?k @ be32 (word_of_nat (ioffset ib)) @ post"]
    by (simp add: assms(3))
  have k: "slice buf (length pre + 4) (length pre + 4 + length ?k) = ?k"
    using slice_at [of "length pre + 4" "pre @ len32 ?k" _ ?k
        "be32 (word_of_nat (ioffset ib)) @ post"] by (simp add: assms(3))
  have o: "slice buf (length pre + 4 + length ?k) (length pre + 4 + length ?k + 4) =
      be32 (word_of_nat (ioffset ib))"
    using slice_at [of "length pre + 4 + length ?k" "pre @ lp ?k" _
        "be32 (word_of_nat (ioffset ib))" post] by (simp add: assms(3))
  have len: "length buf = length pre + 4 + length ?k + 4 + length post"
    by (simp add: assms(3))
  have stop: "length (pre @ lp ?k @ be32 (word_of_nat (ioffset ib))) = length pre + 4 + length ?k + 4"
    by simp
  have "index_loop buf (length pre) acc =
      index_loop buf (length pre + 4 + length ?k + 4) (acc @ [ib])"
    unfolding index_loop.simps [of buf "length pre" acc] len l k o Let_def Uint32_be32_Nil
      unat_word_of_nat32 [OF assms(1)] unat_word_of_nat32 [OF assms(2)]
    by (cases ib) simp
  then show ?thesis
    by (simp only: stop)
qed

lemma index_loop_bytes:
  assumes "index_fits ibs"
  shows "index_loop (pre @ index_bytes ibs) (length pre) acc = Inr (acc @ ibs)"
  using assms
proof (induction ibs arbitrary: pre acc)
  case Nil
  then show ?case by (simp add: index_loop.simps)
next
  case (Cons ib ibs)
  let ?e = "lp (ikey ib) @ be32 (word_of_nat (ioffset ib))"
  have "index_loop (pre @ index_bytes (ib # ibs)) (length pre) acc =
      index_loop (pre @ index_bytes (ib # ibs)) (length (pre @ ?e)) (acc @ [ib])"
    by (rule index_loop_entry [where post = "index_bytes ibs"])
       (use Cons.prems in \<open>simp_all add: index_fits_def\<close>)
  then show ?case
    using Cons.IH [of "pre @ ?e" "acc @ [ib]"] Cons.prems by (simp add: index_fits_def)
qed

lemma index_fits_chunks:
  assumes "fits32 (off + length (data_bytes (concat bs)))" and "\<forall>b \<in> set bs. b \<noteq> []"
  shows "index_fits (index_of_chunks off bs)"
  using assms
proof (induction bs arbitrary: off)
  case Nil
  then show ?case by (simp add: index_fits_def)
next
  case (Cons b bs)
  then obtain kv b' where "b = kv # b'"
    by (cases b) auto
  then have "fits32 (length (fst (hd b)))" "fits32 off"
    using Cons.prems(1) by (simp_all add: kv_bytes_def)
  then show ?case
    using Cons.IH [of "off + length (data_bytes b)"] Cons.prems
    by (simp add: index_fits_def add.assoc)
qed

lemma buildIndexFromFile_eq:
  assumes calm: "calm w" and tf: "table_file w name bl kvs"
  shows "buildIndexFromFile name w = Inr (length (data_bytes kvs), file_index bl kvs)"
proof -
  let ?d = "data_bytes kvs" and ?i = "index_bytes (file_index bl kvs)"
  let ?f = "be32 (word_of_nat (length (data_bytes kvs)))"
  have size: "Stat_Size name w = Inr (length ?d + length ?i + 4)"
    using tf by (simp add: Stat_Size_def table_file_def file_bytes_def)
  have content: "files w name = Some (file_bytes bl kvs)"
    using tf by (simp add: table_file_def)
  have fits: "fits32 (length ?d)"
    using tf by (simp add: table_file_def file_bytes_def)
  have "file_ReadAt name 4 (int (length ?d + length ?i + 4) - 4) w = (?f, None)"
    by (rule file_ReadAt_at [OF calm content, of "?d @ ?i" _ "[]"]) (simp_all add: file_bytes_def)
  then have offset: "getIndexOffset name w = Inr (word_of_nat (length ?d))"
    by (simp add: getIndexOffset_def size)
  have "file_ReadAt name (length ?i) (int (length ?d)) w = (?i, None)"
    by (rule file_ReadAt_at [OF calm content, of ?d _ ?f]) (simp_all add: file_bytes_def)
  moreover have "index_fits (file_index bl kvs)"
    unfolding file_index_def
    by (rule index_fits_chunks) (use fits in \<open>auto simp: concat_chunks chunks_nonempty\<close>)
  then have "index_loop ?i 0 [] = Inr (file_index bl kvs)"
    using index_loop_bytes [of _ "[]"] by simp
  ultimately show ?thesis
    by (simp add: buildIndexFromFile_def size offset fits)
qed

subsection \<open>Properties\<close>

text \<open>Writing a sorted list of pairs with non-empty keys to a new file returns an index
  block and an index offset; reading that file back when the program starts again rebuilds
  exactly the same index block and offset.\<close>

theorem sstable_index_roundtrip:
  assumes "calm w" and "files w name = Some []" and "sorted_keys kvs" and "nonempty_keys kvs"
    and "fits32 (length (file_bytes bl kvs))"
  shows "\<exists>indexOffset indexBlock w'.
    writeToFile name bl kvs w = (Inr (indexOffset, indexBlock), w')
    \<and> buildIndexFromFile name w' = Inr (indexOffset, indexBlock)"
  using assms buildIndexFromFile_eq [of "w\<lparr>files := (files w)(name \<mapsto> file_bytes bl kvs)\<rparr>" name bl kvs]
  by (simp add: writeToFile_calm table_file_def)

theorem sstable_index_roundtrip_witness:
  "\<exists>indexOffset indexBlock w'.
    writeToFile ''0'' 10 [(''a'', ''1''), (''b'', ''2'')] (one_file ''0'' [])
      = (Inr (indexOffset, indexBlock), w')
    \<and> buildIndexFromFile ''0'' w' = Inr (indexOffset, indexBlock)"
  by (rule sstable_index_roundtrip)
     (simp_all add: file_bytes_def file_index_def kv_bytes_def less_list_code)

text \<open>\<open>Get\<close> on a written file: below the first key, and for a pair with an empty value,
  the search goes on to older files; a pair with a value is found through the binary search of
  the index and the scan of its block; any other key makes the lookup fail, because the buffer
  is one byte longer than the block.\<close>

theorem sstable_get_exact:
  assumes "calm w" and "files w name = Some []" and "sorted_keys kvs" and "nonempty_keys kvs"
    and "fits32 (length (file_bytes bl kvs))"
  shows "\<exists>indexOffset indexBlock w'.
    writeToFile name bl kvs w = (Inr (indexOffset, indexBlock), w')
    \<and> get_from_file key name indexBlock indexOffset w' =
      (if kvs = [] \<or> key < fst (hd kvs) then None
       else case map_of kvs key of
              None \<Rightarrow> Some (Inl errDatablock)
            | Some v \<Rightarrow> if v = '''' then None else Some (Inr v))"
  using assms get_from_file_eq [of "w\<lparr>files := (files w)(name \<mapsto> file_bytes bl kvs)\<rparr>" name bl kvs key]
  by (simp add: writeToFile_calm table_file_def file_get_def)

theorem sstable_get_exact_witness:
  "\<exists>indexOffset indexBlock w'.
    writeToFile ''0'' 10 [(''a'', ''1''), (''c'', ''2'')] (one_file ''0'' [])
      = (Inr (indexOffset, indexBlock), w')
    \<and> get_from_file ''b'' ''0'' indexBlock indexOffset w' = Some (Inl errDatablock)"
  using sstable_get_exact [of "one_file ''0'' []" "''0''" "[(''a'', ''1''), (''c'', ''2'')]" 10 "''b''"]
  by (simp add: file_bytes_def file_index_def kv_bytes_def less_list_code)

text \<open>\<open>PrefixScan\<close> on a written file adds exactly the file's pairs whose key has the
  prefix, and pairs of newer files that are in the map already win.\<close>

theorem sstable_scan_exact:
  assumes "calm w" and "files w name = Some []" and "sorted_keys kvs" and "nonempty_keys kvs"
    and "fits32 (length (file_bytes bl kvs))"
  shows "\<exists>indexOffset indexBlock w'.
    writeToFile name bl kvs w = (Inr (indexOffset, indexBlock), w')
    \<and> scan_file p name indexBlock indexOffset tableMap w' =
      Inr (\<lambda>k. case tableMap k of
             Some v \<Rightarrow> Some v
           | None \<Rightarrow> if HasPrefix k p then map_of kvs k else None)"
  using assms scan_file_eq [of "w\<lparr>files := (files w)(name \<mapsto> file_bytes bl kvs)\<rparr>" name bl kvs p tableMap]
  by (simp add: writeToFile_calm table_file_def map_add_def restrict_map_def)

theorem sstable_scan_exact_witness:
  "\<exists>indexOffset indexBlock w'.
    writeToFile ''0'' 10 [(''t1'', ''x''), (''t2'', ''y'')] (one_file ''0'' [])
      = (Inr (indexOffset, indexBlock), w')
    \<and> scan_file ''t'' ''0'' indexBlock indexOffset [''t2'' \<mapsto> ''new''] w' =
      Inr (\<lambda>k. case [''t2'' \<mapsto> ''new''] k of
             Some v \<Rightarrow> Some v
           | None \<Rightarrow> if HasPrefix k ''t'' then map_of [(''t1'', ''x''), (''t2'', ''y'')] k else None)"
  by (rule sstable_scan_exact)
     (simp_all add: file_bytes_def file_index_def kv_bytes_def less_list_code)

text \<open>C36: The binary search of \<open>getLowerBound\<close> finds what a linear search finds: the last
  entry of a sorted index whose key is at most the given one, or \<open>-1\<close>.\<close>

theorem lower_bound_linear:
  assumes "sorted (map ikey index)"
  shows "getLowerBound key index = int (length (takeWhile (\<lambda>ib. ikey ib \<le> key) index)) - 1"
  using getLowerBound_eq [OF assms, of key] by (simp add: blocks_below_def)

theorem lower_bound_linear_witness:
  "getLowerBound ''c'' [\<lparr>ikey = ''a'', ioffset = 0\<rparr>, \<lparr>ikey = ''c'', ioffset = 9\<rparr>,
     \<lparr>ikey = ''f'', ioffset = 30\<rparr>] = 1"
  using lower_bound_linear [of "[\<lparr>ikey = ''a'', ioffset = 0\<rparr>, \<lparr>ikey = ''c'', ioffset = 9\<rparr>,
     \<lparr>ikey = ''f'', ioffset = 30\<rparr>]" "''c''"]
  by (simp add: less_list_code less_eq_list_code)

text \<open>The writer uses the empty key as its mark for a block without a first key. A pair
  with the empty key whose block never fills up is dropped without an error, and the footer
  then points beyond the file, so that reading the index at the next start panics.\<close>

theorem sstable_empty_key_lost:
  assumes "calm w" and "files w name = Some []" and "int (8 + length v) \<le> bl"
    and "fits32 (8 + length v)"
  shows "\<exists>r w'. writeToFile name bl [('''', v)] w = (Inr r, w')
    \<and> length (the (files w' name)) = 4 \<and> buildIndexFromFile name w' = Inl makeslice_panic"
proof -
  let ?w' = "w\<lparr>files := (files w)(name \<mapsto> be32 (word_of_nat (8 + length v)))\<rparr>"
  have "writeToFile name bl [('''', v)] w = (Inr (8 + length v, []), ?w')"
    using assms
    by (simp add: writeToFile_def writeDataBlocks_def write_entry_def write_last_block_def
        block_writer_init_def writeFooter_def file_Write_calm Let_def)
  moreover have "file_ReadAt name 4 0 ?w' = (be32 (word_of_nat (8 + length v)), None)"
    by (rule file_ReadAt_at [where pre = "[]" and post = "[]"]) (use assms in simp_all)
  then have "getIndexOffset name ?w' = Inr (word_of_nat (8 + length v))"
    by (simp add: getIndexOffset_def Stat_Size_def)
  then have "buildIndexFromFile name ?w' = Inl makeslice_panic"
    using assms(4) unat_word_of_nat32 [OF assms(4)]
    by (simp add: buildIndexFromFile_def Stat_Size_def del: of_nat_add)
  ultimately show ?thesis
    by simp
qed

theorem sstable_empty_key_lost_witness:
  "\<exists>r w'. writeToFile ''0'' 100 [('''', ''v'')] (one_file ''0'' []) = (Inr r, w')
    \<and> length (the (files w' ''0'')) = 4 \<and> buildIndexFromFile ''0'' w' = Inl makeslice_panic"
  by (rule sstable_empty_key_lost) simp_all

end
