(* ===== verification/Manifest.thy ===== *)
theory Manifest
  imports Go_IO
begin

text \<open>
  \<^verbatim>\<open>sstable/manifest.go\<close>: the manifest with the next file id and the order of the
  table files, and its JSON text. \<open>json.MarshalIndent(m, "", " ")\<close> is written out for the two
  fields of this record; \<open>json.Unmarshal\<close> is modelled on that layout, which is the only one
  the program ever writes to this file, and any other text (a torn write included) is an
  error. File names are taken to be valid UTF-8 (without the line separators U+2028 and
  U+2029), whose bytes JSON copies.
\<close>

record manifest =
  NextFileId :: nat
  FileNames :: "string list"

subsection \<open>JSON strings\<close>

definition hex_digit :: "nat \<Rightarrow> char" where
  "hex_digit n = (if n < 10 then char_of (48 + n) else char_of (87 + n))"

definition hex_value :: "char \<Rightarrow> nat" where
  "hex_value c = (let n = of_char c in if n < 58 then n - 48 else n - 87)"

text \<open>Go escapes quotes, backslashes, control characters and the three HTML characters.\<close>

definition json_char :: "char \<Rightarrow> string" where
  "json_char c =
     (if c = CHR 0x22 \<or> c = CHR 0x5C then [CHR 0x5C, c]
      else if c = CHR 0x0A then [CHR 0x5C, CHR ''n'']
      else if c = CHR 0x0D then [CHR 0x5C, CHR ''r'']
      else if c = CHR 0x09 then [CHR 0x5C, CHR ''t'']
      else if c = CHR 0x08 then [CHR 0x5C, CHR ''b'']
      else if c = CHR 0x0C then [CHR 0x5C, CHR ''f'']
      else if (of_char c :: nat) < 32 \<or> c \<in> {CHR ''<'', CHR ''>'', CHR ''&''}
      then [CHR 0x5C, CHR ''u'', CHR ''0'', CHR ''0'',
            hex_digit (of_char c div 16), hex_digit (of_char c mod 16)]
      else [c])"

definition json_string :: "string \<Rightarrow> string" where
  "json_string s = CHR 0x22 # concat (map json_char s) @ [CHR 0x22]"

text \<open>One character of a string literal, and the rest.\<close>

fun json_unescape :: "string \<Rightarrow> (char \<times> string) option" where
  "json_unescape [] = None"
| "json_unescape (c # s) =
     (if c = CHR 0x5C then
        (case s of
           [] \<Rightarrow> None
         | e # t \<Rightarrow>
             if e = CHR ''n'' then Some (CHR 0x0A, t)
             else if e = CHR ''r'' then Some (CHR 0x0D, t)
             else if e = CHR ''t'' then Some (CHR 0x09, t)
             else if e = CHR ''b'' then Some (CHR 0x08, t)
             else if e = CHR ''f'' then Some (CHR 0x0C, t)
             else if e = CHR ''u'' then
               (case t of a # b # h # l # t' \<Rightarrow> Some (char_of (16 * hex_value h + hex_value l), t')
                | _ \<Rightarrow> None)
             else Some (e, t))
      else Some (c, s))"

lemma json_unescape_shorter: "json_unescape s = Some (c, t) \<Longrightarrow> length t < length s"
  by (cases s) (auto split: if_splits list.splits)

text \<open>The rest of a string literal behind its opening quote.\<close>

function json_unquote :: "string \<Rightarrow> (string \<times> string) option" where
  "json_unquote s =
     (if s \<noteq> [] \<and> hd s = CHR 0x22 then Some ([], tl s)
      else (case json_unescape s of
              None \<Rightarrow> None
            | Some (c, t) \<Rightarrow>
                (case json_unquote t of None \<Rightarrow> None | Some (cs, u) \<Rightarrow> Some (c # cs, u))))"
  by pat_completeness auto
termination
  by (relation "measure length") (auto dest: json_unescape_shorter)

declare json_unquote.simps [simp del]

lemma json_unescape_char: "json_unescape (json_char c @ rest) = Some (c, rest)"
proof -
  have hex: "16 * hex_value (hex_digit (n div 16)) + hex_value (hex_digit (n mod 16)) = n"
    if "n < 64" for n :: nat
  proof -
    have "n div 16 < 10" "n mod 16 < 16"
      using that by auto
    then have "hex_value (hex_digit (n div 16)) = n div 16" "hex_value (hex_digit (n mod 16)) = n mod 16"
      by (simp_all add: hex_value_def hex_digit_def Let_def)
    then show ?thesis
      by simp
  qed
  show ?thesis
  proof (cases "(of_char c :: nat) < 32 \<or> c \<in> {CHR ''<'', CHR ''>'', CHR ''&''}")
    case True
    then have "(of_char c :: nat) < 64"
      by auto
    with hex [of "of_char c"] show ?thesis
      by (simp add: json_char_def)
  next
    case False
    then show ?thesis
      by (simp add: json_char_def)
  qed
qed

lemma json_char_no_quote: "json_char c \<noteq> [] \<and> hd (json_char c) \<noteq> CHR 0x22"
  by (simp add: json_char_def)

lemma json_unquote_string: "json_unquote (concat (map json_char s) @ CHR 0x22 # rest) = Some (s, rest)"
proof (induction s)
  case Nil
  then show ?case by (simp add: json_unquote.simps)
next
  case (Cons c s)
  then show ?case
    using json_char_no_quote [of c]
    by (subst json_unquote.simps) (simp add: json_unescape_char)
qed

subsection \<open>The text of a manifest\<close>

abbreviation nl :: char where
  "nl \<equiv> CHR 0x0A"

text \<open>The elements of \<open>file_names\<close> behind the opening bracket, one per line.\<close>

fun json_names :: "string list \<Rightarrow> string" where
  "json_names [] = nl # '' ]''"
| "json_names [x] = nl # ''  '' @ json_string x @ nl # '' ]''"
| "json_names (x # xs) = nl # ''  '' @ json_string x @ '','' @ json_names xs"

text \<open>Without a file the slice is nil, which is \<open>null\<close>.\<close>

definition MarshalIndent :: "manifest \<Rightarrow> string" where
  "MarshalIndent m =
     ''{'' @ nl # '' '' @ json_string ''next_file_id'' @ '': '' @ nat_dec (NextFileId m) @ '','' @ nl #
     '' '' @ json_string ''file_names'' @ '': '' @
     (if FileNames m = [] then ''null'' else ''['' @ json_names (FileNames m)) @ nl # ''}''"

definition expect :: "string \<Rightarrow> string \<Rightarrow> string option" where
  "expect lit s = (if HasPrefix s lit then Some (drop (length lit) s) else None)"

lemma expect_shorter: "expect lit s = Some t \<Longrightarrow> length t = length s - length lit \<and> length lit \<le> length s"
  by (auto simp: expect_def prefix_length_le split: if_splits)

lemma json_unquote_shorter: "json_unquote s = Some (x, t) \<Longrightarrow> length t < length s"
proof (induction s arbitrary: x t rule: json_unquote.induct)
  case (1 s)
  show ?case
  proof (cases "s \<noteq> [] \<and> hd s = CHR 0x22")
    case True
    with 1(2) show ?thesis
      by (cases s) (auto simp: json_unquote.simps)
  next
    case False
    with 1(2) obtain c u cs where u: "json_unescape s = Some (c, u)" "json_unquote u = Some (cs, t)"
      by (subst (asm) json_unquote.simps) (auto split: option.splits)
    then have "length t < length u"
      using 1(1) False by fastforce
    with json_unescape_shorter [OF u(1)] show ?thesis
      by simp
  qed
qed

function json_read_names :: "string \<Rightarrow> (string list \<times> string) option" where
  "json_read_names s =
     (case expect (nl # ''  '' @ [CHR 0x22]) s of
        None \<Rightarrow> None
      | Some t \<Rightarrow>
          (case json_unquote t of
             None \<Rightarrow> None
           | Some (x, u) \<Rightarrow>
               (case expect '','' u of
                  Some v \<Rightarrow> (case json_read_names v of
                      None \<Rightarrow> None | Some (xs, v') \<Rightarrow> Some (x # xs, v'))
                | None \<Rightarrow> (case expect (nl # '' ]'') u of
                      None \<Rightarrow> None | Some v \<Rightarrow> Some ([x], v)))))"
  by pat_completeness auto
termination
  by (relation "measure length")
     (auto dest!: expect_shorter json_unquote_shorter)

declare json_read_names.simps [simp del]

definition Unmarshal :: "string \<Rightarrow> goerr + manifest" where
  "Unmarshal s =
     (let bad = Inl (Errorf ''invalid manifest'');
          read_id = (\<lambda>t. (takeWhile is_digit t, dropWhile is_digit t)) in
      case expect (''{'' @ nl # '' '' @ json_string ''next_file_id'' @ '': '') s of
        None \<Rightarrow> bad
      | Some t \<Rightarrow>
          (case read_id t of (ds, u) \<Rightarrow>
             if ds = [] then bad
             else (case expect ('','' @ nl # '' '' @ json_string ''file_names'' @ '': '') u of
                None \<Rightarrow> bad
              | Some v \<Rightarrow>
                  (case (case expect ''null'' v of
                           Some x \<Rightarrow> Some ([], x)
                         | None \<Rightarrow> (case expect ''['' v of
                             None \<Rightarrow> None | Some x \<Rightarrow> json_read_names x)) of
                     None \<Rightarrow> bad
                   | Some (names, x) \<Rightarrow>
                       if x = nl # ''}''
                       then Inr \<lparr>NextFileId = dec_value ds, FileNames = names\<rparr> else bad))))"

lemma expect_append [simp]: "expect lit (lit @ s) = Some s"
  by (simp add: expect_def)

lemma json_read_names_names:
  "names \<noteq> [] \<Longrightarrow> json_read_names (json_names names @ rest) = Some (names, rest)"
proof (induction names rule: json_names.induct)
  case 1
  then show ?case by simp
next
  case (2 x)
  show ?case
    by (subst json_read_names.simps) (simp add: expect_def json_string_def json_unquote_string)
next
  case (3 x y zs)
  then show ?case
    by (subst json_read_names.simps)
       (simp add: expect_def json_string_def json_unquote_string del: json_names.simps(1,2))
qed

lemma Unmarshal_MarshalIndent: "Unmarshal (MarshalIndent m) = Inr m"
proof -
  let ?h = "''{'' @ nl # '' '' @ json_string ''next_file_id'' @ '': ''"
  let ?k = "'','' @ nl # '' '' @ json_string ''file_names'' @ '': ''"
  let ?n = "(if FileNames m = [] then ''null'' else ''['' @ json_names (FileNames m)) @ nl # ''}''"
  have layout: "MarshalIndent m = ?h @ nat_dec (NextFileId m) @ ?k @ ?n"
    by (simp add: MarshalIndent_def)
  have "\<not> is_digit (CHR '','')"
    by (simp add: is_digit_def)
  then have "takeWhile is_digit (nat_dec (NextFileId m) @ ?k @ ?n) = nat_dec (NextFileId m)"
    and "dropWhile is_digit (nat_dec (NextFileId m) @ ?k @ ?n) = ?k @ ?n"
    using nat_dec_digits [of _ "NextFileId m"]
    by (simp_all add: takeWhile_append2 dropWhile_append2)
  moreover have "(case expect ''null'' ?n of Some x \<Rightarrow> Some ([], x)
      | None \<Rightarrow> (case expect ''['' ?n of None \<Rightarrow> None | Some x \<Rightarrow> json_read_names x)) =
      Some (FileNames m, nl # ''}'')"
    by (simp add: expect_def json_read_names_names)
  ultimately show ?thesis
    unfolding Unmarshal_def layout by (simp only: expect_append Let_def option.case prod.case if_False
        nat_dec_not_Nil dec_value_nat_dec simp_thms) simp
qed

subsection \<open>Loading and saving\<close>

definition manifestPath :: "string \<Rightarrow> string" where
  "manifestPath dir = dir @ ''/manifest.json''"

text \<open>The error of \<open>Read\<close> is not looked at, so an unreadable file gives zero bytes.\<close>

definition getManifest :: "string \<Rightarrow> world \<Rightarrow> (goerr + manifest) \<times> world" where
  "getManifest dir w =
     (case OpenFile_create (manifestPath dir) w of
        (Inl e, w') \<Rightarrow> (Inl e, w')
      | (Inr file, w') \<Rightarrow>
          (case Stat_Size file w' of
             Inl _ \<Rightarrow> (Inl nil_panic, w')
           | Inr fileSize \<Rightarrow>
               if fileSize = 0 then (Inr \<lparr>NextFileId = 0, FileNames = []\<rparr>, w')
               else (Unmarshal (fst (file_ReadAt file fileSize 0 w')), w')))"

definition saveManifest :: "string \<Rightarrow> manifest \<Rightarrow> world \<Rightarrow> (goerr + unit) \<times> world" where
  "saveManifest dir m w = os_WriteFile (manifestPath dir) (MarshalIndent m) w"

fun getAllFiles :: "string list \<Rightarrow> world \<Rightarrow> (goerr + string list) \<times> world" where
  "getAllFiles [] w = (Inr [], w)"
| "getAllFiles (filePath # filePaths) w =
     (case OpenFile_rdonly filePath w of
        (Inl e, w') \<Rightarrow> (Inl e, w')
      | (Inr file, w') \<Rightarrow>
          (case getAllFiles filePaths w' of
             (Inl e, w'') \<Rightarrow> (Inl e, w'')
           | (Inr ssTableFiles, w'') \<Rightarrow> (Inr (file # ssTableFiles), w'')))"

lemma MarshalIndent_not_Nil [simp]: "MarshalIndent m \<noteq> []"
  by (simp add: MarshalIndent_def)

lemma saveManifest_calm [calm_io]:
  "calm w \<Longrightarrow> saveManifest dir m w =
     (Inr (), w\<lparr>files := (files w)(manifestPath dir \<mapsto> MarshalIndent m)\<rparr>)"
  by (simp add: saveManifest_def calm_io)

lemma getManifest_saved:
  assumes "calm w" and "files w (manifestPath dir) = Some (MarshalIndent m)"
  shows "getManifest dir w = (Inr m, w)"
  using assms file_ReadAt_calm [OF assms(1), of "manifestPath dir" "[]" "MarshalIndent m" "[]" 0]
  by (auto simp: getManifest_def OpenFile_create_calm Stat_Size_def Unmarshal_MarshalIndent dom_def)

lemma getManifest_none:
  assumes "calm w" and "files w (manifestPath dir) = None"
  shows "getManifest dir w =
    (Inr \<lparr>NextFileId = 0, FileNames = []\<rparr>, w\<lparr>files := (files w)(manifestPath dir \<mapsto> [])\<rparr>)"
  using assms by (simp add: getManifest_def OpenFile_create_calm Stat_Size_def dom_def)

lemma getAllFiles_calm:
  "calm w \<Longrightarrow> set paths \<subseteq> dom (files w) \<Longrightarrow> getAllFiles paths w = (Inr paths, w)"
  by (induction paths) (auto simp: OpenFile_rdonly_calm)

text \<open>Saving a manifest and loading it gives the manifest back, whatever the file held
  before, for every list of file names, with the characters that JSON escapes.\<close>

theorem manifest_roundtrip:
  assumes "calm w"
  shows "\<exists>w'. saveManifest dir m w = (Inr (), w') \<and> getManifest dir w' = (Inr m, w')"
  using assms
    getManifest_saved [of "w\<lparr>files := (files w)(manifestPath dir \<mapsto> MarshalIndent m)\<rparr>" dir m]
  by (simp add: saveManifest_calm)

theorem manifest_roundtrip_witness:
  "\<exists>w'. saveManifest ''d'' \<lparr>NextFileId = 12, FileNames = [''d/4.log'', ''d/<11>.log'']\<rparr> (one_file ''x'' [])
      = (Inr (), w')
    \<and> getManifest ''d'' w' = (Inr \<lparr>NextFileId = 12, FileNames = [''d/4.log'', ''d/<11>.log'']\<rparr>, w')"
  by (rule manifest_roundtrip) simp

end
