(* ===== verification/Sstable.thy ===== *)
theory Sstable
  imports Sstable_Read Manifest
begin

text \<open>
  \<^verbatim>\<open>sstable/sstable.go\<close>: the set of table files, oldest first, with the indexes kept
  in memory. The abstract state is the list of tables, each with the block length it was
  written with and its pairs; \<open>sst_map\<close> is the map in which newer tables win.
  The switch \<open>skipIndex\<close> (benchmarks only) is off here; \<open>Sstable_Linear\<close> has it on. Each method runs under \<open>st.mutex\<close>.
\<close>

record SsTable =
  dataFilesDirectory :: string
  firstLevelFiles :: "string list"
  indexOffsets :: "nat list"
  blockLength :: int
  indexBlocks :: "indexBlockEntry list list"
  st_manifest :: manifest
  compacting :: bool

record sstable_Config =
  DataFilesDirectory :: string
  BlockLength :: int

subsection \<open>Operations\<close>

definition tablePath :: "string \<Rightarrow> nat \<Rightarrow> string" where
  "tablePath dir fileId = dir @ ''/'' @ nat_dec fileId @ ''.log''"

definition NewFile :: "SsTable \<Rightarrow> world \<Rightarrow> (goerr + string) \<times> SsTable \<times> world" where
  "NewFile st w =
     (case MkdirAll w of
        (Inl e, w') \<Rightarrow> (Inl e, st, w')
      | (Inr _, w') \<Rightarrow>
          let fileId = NextFileId (st_manifest st);
              st' = st\<lparr>st_manifest := (st_manifest st)\<lparr>NextFileId := fileId + 1\<rparr>\<rparr>;
              (r, w'') = OpenFile_create (tablePath (dataFilesDirectory st) fileId) w'
          in (r, st', w''))"

text \<open>\<open>Write\<close>; the error of \<open>saveManifest\<close> is dropped.\<close>

definition SsTable_Write ::
    "string \<Rightarrow> (string \<times> string) list \<Rightarrow> SsTable \<Rightarrow> world \<Rightarrow> (goerr + unit) \<times> SsTable \<times> world" where
  "SsTable_Write file kvs st w =
     (case writeToFile file (blockLength st) kvs w of
        (Inl e, w') \<Rightarrow> (Inl e, st, w')
      | (Inr (indexOffset, indexBlock), w') \<Rightarrow>
          let st' = st\<lparr>firstLevelFiles := firstLevelFiles st @ [file],
                       indexBlocks := indexBlocks st @ [indexBlock],
                       st_manifest := (st_manifest st)
                         \<lparr>FileNames := FileNames (st_manifest st) @ [file]\<rparr>,
                       indexOffsets := indexOffsets st @ [indexOffset]\<rparr>;
              (_, w'') = saveManifest (dataFilesDirectory st') (st_manifest st') w'
          in (Inr (), st', w''))"

text \<open>\<open>Get\<close>: the loop with \<open>i\<close> files left to look at, newest first.\<close>

fun SsTable_Get_loop :: "SsTable \<Rightarrow> string \<Rightarrow> nat \<Rightarrow> world \<Rightarrow> goerr + string" where
  "SsTable_Get_loop st key 0 w = Inr ''''"
| "SsTable_Get_loop st key (Suc i) w =
     (if i \<ge> length (indexBlocks st) then Inl index_panic
      else if getLowerBound key (indexBlocks st ! i) \<noteq> -1 \<and> i \<ge> length (indexOffsets st)
      then Inl index_panic
      else case get_from_file key (firstLevelFiles st ! i) (indexBlocks st ! i)
                  (indexOffsets st ! i) w of
             None \<Rightarrow> SsTable_Get_loop st key i w
           | Some r \<Rightarrow> r)"

definition SsTable_Get :: "SsTable \<Rightarrow> string \<Rightarrow> world \<Rightarrow> goerr + string" where
  "SsTable_Get st key w = SsTable_Get_loop st key (length (firstLevelFiles st)) w"

fun SsTable_PrefixScan_loop ::
    "SsTable \<Rightarrow> string \<Rightarrow> nat \<Rightarrow> (string \<rightharpoonup> string) \<Rightarrow> world \<Rightarrow> goerr + (string \<rightharpoonup> string)" where
  "SsTable_PrefixScan_loop st prefixKey 0 tableMap w = Inr tableMap"
| "SsTable_PrefixScan_loop st prefixKey (Suc i) tableMap w =
     (if i \<ge> length (indexBlocks st) then Inl index_panic
      else if scan_start prefixKey (indexBlocks st ! i) \<noteq> None \<and> i \<ge> length (indexOffsets st)
      then Inl index_panic
      else case scan_file prefixKey (firstLevelFiles st ! i) (indexBlocks st ! i)
                  (indexOffsets st ! i) tableMap w of
             Inl e \<Rightarrow> Inl e
           | Inr tableMap \<Rightarrow> SsTable_PrefixScan_loop st prefixKey i tableMap w)"

definition SsTable_PrefixScan :: "SsTable \<Rightarrow> string \<Rightarrow> world \<Rightarrow> goerr + (string \<rightharpoonup> string)" where
  "SsTable_PrefixScan st prefixKey w =
     SsTable_PrefixScan_loop st prefixKey (length (firstLevelFiles st)) Map.empty w"

subsection \<open>Start\<close>

definition getDirectoryMetadata :: "string \<Rightarrow> world \<Rightarrow> (goerr + string list \<times> manifest) \<times> world" where
  "getDirectoryMetadata dir w =
     (case MkdirAll w of
        (Inl e, w') \<Rightarrow> (Inl e, w')
      | (Inr _, w') \<Rightarrow>
          (case getManifest dir w' of
             (Inl e, w'') \<Rightarrow> (Inl e, w'')
           | (Inr m, w'') \<Rightarrow>
               (case getAllFiles (FileNames m) w'' of
                  (Inl e, w3) \<Rightarrow> (Inl e, w3)
                | (Inr ssTableFiles, w3) \<Rightarrow> (Inr (ssTableFiles, m), w3))))"

fun buildIndexes :: "string list \<Rightarrow> world \<Rightarrow> goerr + nat list \<times> indexBlockEntry list list" where
  "buildIndexes [] w = Inr ([], [])"
| "buildIndexes (file # fs) w =
     (case buildIndexFromFile file w of
        Inl e \<Rightarrow> Inl e
      | Inr (indexOffset, ssTableIndex) \<Rightarrow>
          (case buildIndexes fs w of
             Inl e \<Rightarrow> Inl e
           | Inr (offsets, ssTableIndexes) \<Rightarrow>
               Inr (indexOffset # offsets, ssTableIndex # ssTableIndexes)))"

definition NewSsTable :: "sstable_Config \<Rightarrow> world \<Rightarrow> (goerr + SsTable) \<times> world" where
  "NewSsTable config w =
     (let dir = (if DataFilesDirectory config = '''' then ''data_files_sstable''
                 else DataFilesDirectory config);
          bl = (if BlockLength config = 0 then 100 else BlockLength config) in
      case getDirectoryMetadata dir w of
        (Inl e, w') \<Rightarrow> (Inl e, w')
      | (Inr (fs, m), w') \<Rightarrow>
          (case buildIndexes fs w' of
             Inl e \<Rightarrow> (Inl e, w')
           | Inr (offsets, blocks) \<Rightarrow>
               (Inr \<lparr>dataFilesDirectory = dir, firstLevelFiles = fs, indexOffsets = offsets,
                     blockLength = bl, indexBlocks = blocks, st_manifest = m,
                     compacting = False\<rparr>, w')))"

subsection \<open>Abstract state and invariant\<close>

type_synonym sorted_table = "int \<times> (string \<times> string) list"

definition sst_map :: "sorted_table list \<Rightarrow> (string \<rightharpoonup> string)" where
  "sst_map tabs = foldl (\<lambda>m t. m ++ map_of (snd t)) Map.empty tabs"

text \<open>The indexes in memory are those of the tables, and the files hold the tables.\<close>

definition indexed :: "SsTable \<Rightarrow> sorted_table list \<Rightarrow> bool" where
  "indexed st tabs \<longleftrightarrow>
     indexBlocks st = map (\<lambda>t. file_index (fst t) (snd t)) tabs
     \<and> indexOffsets st = map (\<lambda>t. length (data_bytes (snd t))) tabs"

definition stored :: "world \<Rightarrow> string list \<Rightarrow> sorted_table list \<Rightarrow> bool" where
  "stored w names tabs \<longleftrightarrow> list_all2 (\<lambda>name t. table_file w name (fst t) (snd t)) names tabs"

text \<open>File names come from ids that were handed out; ids to come have no file.\<close>

definition fresh_ids :: "world \<Rightarrow> string \<Rightarrow> nat \<Rightarrow> string list \<Rightarrow> bool" where
  "fresh_ids w dir next names \<longleftrightarrow>
     distinct names \<and> (\<forall>name \<in> set names. \<exists>id < next. name = tablePath dir id)
     \<and> (\<forall>id \<ge> next. files w (tablePath dir id) = None)"

text \<open>The invariant of the files and the manifest, and with the indexes in memory.\<close>

definition disk_inv :: "world \<Rightarrow> SsTable \<Rightarrow> sorted_table list \<Rightarrow> bool" where
  "disk_inv w st tabs \<longleftrightarrow>
     calm w \<and> stored w (firstLevelFiles st) tabs
     \<and> FileNames (st_manifest st) = firstLevelFiles st
     \<and> fresh_ids w (dataFilesDirectory st) (NextFileId (st_manifest st)) (firstLevelFiles st)"

definition sst_inv :: "world \<Rightarrow> SsTable \<Rightarrow> sorted_table list \<Rightarrow> bool" where
  "sst_inv w st tabs \<longleftrightarrow> disk_inv w st tabs \<and> indexed st tabs"

text \<open>What \<open>Get\<close> answers on tables, newest first.\<close>

fun tables_get :: "sorted_table list \<Rightarrow> string \<Rightarrow> goerr + string" where
  "tables_get [] key = Inr ''''"
| "tables_get (t # ts) key =
     (case file_get (snd t) key of None \<Rightarrow> tables_get ts key | Some r \<Rightarrow> r)"

subsection \<open>Reading\<close>

lemma sst_map_simps [simp]:
  "sst_map [] = Map.empty" "sst_map (ts @ [t]) = sst_map ts ++ map_of (snd t)"
  by (simp_all add: sst_map_def)

lemma foldl_map_add: "foldl (\<lambda>m t. m ++ map_of (snd t)) m tabs = m ++ sst_map tabs"
proof (induction tabs rule: rev_induct)
  case Nil
  then show ?case by simp
next
  case (snoc t ts)
  then show ?case by (simp add: sst_map_def)
qed

lemma sst_map_append: "sst_map (ts @ us) = sst_map ts ++ sst_map us"
proof -
  have "sst_map (ts @ us) = foldl (\<lambda>m t. m ++ map_of (snd t)) (sst_map ts) us"
    by (simp add: sst_map_def)
  then show ?thesis
    by (simp only: foldl_map_add)
qed

lemma sst_map_Cons: "sst_map (t # ts) = map_of (snd t) ++ sst_map ts"
  using sst_map_append [of "[t]" ts] sst_map_simps(2) [of "[]" t] by simp

lemma stored_nth:
  "stored w names tabs \<Longrightarrow> i < length tabs \<Longrightarrow>
   table_file w (names ! i) (fst (tabs ! i)) (snd (tabs ! i))"
  by (simp add: stored_def list_all2_conv_all_nth)

lemma stored_length: "stored w names tabs \<Longrightarrow> length names = length tabs"
  by (simp add: stored_def list_all2_lengthD)

lemma Get_loop_tables:
  assumes "calm w" and "indexed st tabs" and "stored w (firstLevelFiles st) tabs"
    and "i \<le> length tabs"
  shows "SsTable_Get_loop st key i w = tables_get (rev (take i tabs)) key"
  using assms(4)
proof (induction i)
  case 0
  then show ?case by simp
next
  case (Suc i)
  have "get_from_file key (firstLevelFiles st ! i) (indexBlocks st ! i) (indexOffsets st ! i) w =
      file_get (snd (tabs ! i)) key"
    using get_from_file_eq [OF assms(1) stored_nth [OF assms(3)], of i key] Suc.prems assms(2)
    by (simp add: indexed_def)
  moreover have "rev (take (Suc i) tabs) = tabs ! i # rev (take i tabs)"
    using Suc.prems by (simp add: take_Suc_conv_app_nth)
  ultimately show ?case
    using Suc assms(2) by (simp add: indexed_def split: option.split)
qed

lemma SsTable_Get_tables:
  assumes "sst_inv w st tabs"
  shows "SsTable_Get st key w = tables_get (rev tabs) key"
  using Get_loop_tables [of w st tabs "length tabs" key] stored_length [of w _ tabs] assms
  by (simp add: SsTable_Get_def sst_inv_def disk_inv_def)

lemma PrefixScan_loop_tables:
  assumes "calm w" and "indexed st tabs" and "stored w (firstLevelFiles st) tabs"
    and "i \<le> length tabs"
  shows "SsTable_PrefixScan_loop st p i m w =
    Inr ((sst_map (take i tabs) |` {k. HasPrefix k p}) ++ m)"
  using assms(4)
proof (induction i arbitrary: m)
  case 0
  then show ?case by simp
next
  case (Suc i)
  have "scan_file p (firstLevelFiles st ! i) (indexBlocks st ! i) (indexOffsets st ! i) m w =
      Inr ((map_of (snd (tabs ! i)) |` {k. HasPrefix k p}) ++ m)"
    using scan_file_eq [OF assms(1) stored_nth [OF assms(3)], of i p m] Suc.prems assms(2)
    by (simp add: indexed_def)
  moreover have "sst_map (take (Suc i) tabs) |` {k. HasPrefix k p} =
      (sst_map (take i tabs) |` {k. HasPrefix k p}) ++ (map_of (snd (tabs ! i)) |` {k. HasPrefix k p})"
    using Suc.prems
    by (auto simp: take_Suc_conv_app_nth restrict_map_def fun_eq_iff map_add_def)
  ultimately show ?case
    using Suc assms(2) by (simp add: indexed_def)
qed

lemma SsTable_PrefixScan_tables:
  assumes "sst_inv w st tabs"
  shows "SsTable_PrefixScan st p w = Inr (sst_map tabs |` {k. HasPrefix k p})"
  using PrefixScan_loop_tables [of w st tabs "length tabs" p Map.empty] assms
    stored_length [of w _ tabs]
  by (simp add: SsTable_PrefixScan_def sst_inv_def disk_inv_def)

text \<open>
  The answer of \<open>Get\<close> agrees with the map when every newer table either holds the key
  with a value or starts above it.
\<close>

lemma first_key_le:
  "sorted_keys kvs \<Longrightarrow> map_of kvs key = Some v \<Longrightarrow> kvs \<noteq> [] \<and> \<not> key < fst (hd kvs)"
proof -
  assume "sorted_keys kvs" and "map_of kvs key = Some v"
  from map_of_SomeD [OF this(2)] this(1) show ?thesis
    by (cases kvs) (force dest: less_asym)+
qed

lemma tables_get_found:
  assumes "sst_map (rev ts) key = Some v" and "v \<noteq> ''''"
    and "\<And>t. t \<in> set ts \<Longrightarrow> sorted_keys (snd t) \<and>
      (map_of (snd t) key = None \<longrightarrow> snd t = [] \<or> key < fst (hd (snd t)))"
  shows "tables_get ts key = Inr v"
  using assms
proof (induction ts)
  case Nil
  then show ?case by simp
next
  case (Cons t ts)
  show ?case
  proof (cases "map_of (snd t) key")
    case None
    then have "sst_map (rev ts) key = Some v"
      using Cons.prems(1) by (auto simp: map_add_def)
    then show ?thesis
      using None Cons by (auto simp: file_get_def)
  next
    case (Some v')
    then have "v' = v"
      using Cons.prems(1) by (simp add: map_add_def)
    moreover have "snd t \<noteq> []" "\<not> key < fst (hd (snd t))"
      using first_key_le [OF _ Some] Cons.prems(3) [of t] by auto
    ultimately show ?thesis
      using Some Cons.prems(2) by (simp add: file_get_def)
  qed
qed

lemma tables_get_absent:
  assumes "\<And>t. t \<in> set ts \<Longrightarrow> snd t = [] \<or> key < fst (hd (snd t))"
  shows "tables_get ts key = Inr ''''"
  using assms by (induction ts) (auto simp: file_get_def)

subsection \<open>Writing\<close>

lemma table_file_upd:
  "table_file w name bl kvs \<Longrightarrow> name \<noteq> other \<Longrightarrow>
   table_file (w\<lparr>files := (files w)(other := c)\<rparr>) name bl kvs"
  by (simp add: table_file_def)

lemma stored_upd:
  "stored w names tabs \<Longrightarrow> other \<notin> set names \<Longrightarrow>
   stored (w\<lparr>files := (files w)(other := c)\<rparr>) names tabs"
  unfolding stored_def
  by (erule list_all2_mono [OF list.rel_mono_strong]) (auto intro!: table_file_upd)

lemma tablePath_inject [simp]: "tablePath dir i = tablePath dir j \<longleftrightarrow> i = j"
  by (simp add: tablePath_def)

lemma tablePath_not_manifest [simp]:
  "tablePath dir i \<noteq> manifestPath dir" "manifestPath dir \<noteq> tablePath dir i"
proof -
  have "is_digit (hd (nat_dec i))"
    by (rule nat_dec_digits [of _ i]) simp
  then have "hd (nat_dec i @ ''.log'') \<noteq> hd ''manifest.json''"
    by (auto simp: is_digit_def)
  then have "nat_dec i @ ''.log'' \<noteq> ''manifest.json''"
    by metis
  then show "tablePath dir i \<noteq> manifestPath dir" "manifestPath dir \<noteq> tablePath dir i"
    by (auto simp: tablePath_def manifestPath_def)
qed

lemma fresh_not_in:
  "fresh_ids w dir next names \<Longrightarrow> tablePath dir next \<notin> set names"
  by (auto simp: fresh_ids_def)

lemma disk_invD:
  assumes "disk_inv w st tabs"
  shows "calm w" "stored w (firstLevelFiles st) tabs"
    "FileNames (st_manifest st) = firstLevelFiles st"
    "fresh_ids w (dataFilesDirectory st) (NextFileId (st_manifest st)) (firstLevelFiles st)"
  using assms by (simp_all add: disk_inv_def)

lemma sst_invD:
  assumes "sst_inv w st tabs"
  shows "disk_inv w st tabs" "indexed st tabs"
  using assms by (simp_all add: sst_inv_def)

text \<open>A table of sorted pairs with non-empty keys, within the limit of the 32-bit offsets.\<close>

definition table_ok :: "int \<Rightarrow> (string \<times> string) list \<Rightarrow> bool" where
  "table_ok bl kvs \<longleftrightarrow> sorted_keys kvs \<and> nonempty_keys kvs \<and> fits32 (length (file_bytes bl kvs))"

definition saved :: "world \<Rightarrow> SsTable \<Rightarrow> bool" where
  "saved w st \<longleftrightarrow>
     files w (manifestPath (dataFilesDirectory st)) = Some (MarshalIndent (st_manifest st))"

text \<open>A file that was created by \<open>NewFile\<close> and is not in the list of tables.\<close>

definition unlisted :: "SsTable \<Rightarrow> string \<Rightarrow> bool" where
  "unlisted st name \<longleftrightarrow> name \<notin> set (firstLevelFiles st)
     \<and> (\<exists>i < NextFileId (st_manifest st). name = tablePath (dataFilesDirectory st) i)"

lemma NewFile_calm:
  assumes "disk_inv w st tabs"
  defines "name \<equiv> tablePath (dataFilesDirectory st) (NextFileId (st_manifest st))"
    and "st' \<equiv> st\<lparr>st_manifest := (st_manifest st)\<lparr>NextFileId := NextFileId (st_manifest st) + 1\<rparr>\<rparr>"
  shows "NewFile st w = (Inr name, st', w\<lparr>files := (files w)(name \<mapsto> [])\<rparr>)"
    and "disk_inv (w\<lparr>files := (files w)(name \<mapsto> [])\<rparr>) st' tabs"
    and "unlisted st' name"
    and "files w name = None"
proof -
  note inv = disk_invD [OF assms(1)]
  show "NewFile st w = (Inr name, st', w\<lparr>files := (files w)(name \<mapsto> [])\<rparr>)"
    using inv by (simp add: NewFile_def MkdirAll_calm OpenFile_create_calm name_def st'_def
        fresh_ids_def dom_def Let_def)
  show "disk_inv (w\<lparr>files := (files w)(name \<mapsto> [])\<rparr>) st' tabs"
    using inv stored_upd [OF inv(2) fresh_not_in [OF inv(4)]]
    by (auto simp: disk_inv_def name_def st'_def fresh_ids_def intro: less_SucI)
  show "unlisted st' name"
    using fresh_not_in [OF inv(4)] by (auto simp: unlisted_def name_def st'_def)
  show "files w name = None"
    using inv(4) by (simp add: fresh_ids_def name_def)
qed

lemma table_file_written:
  assumes "table_ok bl kvs" and "files w name = Some (file_bytes bl kvs)"
  shows "table_file w name bl kvs"
  using assms by (simp add: table_ok_def table_file_def)

text \<open>The state and the world after \<open>Write\<close> of a new table.\<close>

definition written_state :: "string \<Rightarrow> (string \<times> string) list \<Rightarrow> SsTable \<Rightarrow> SsTable" where
  "written_state name kvs st = st\<lparr>firstLevelFiles := firstLevelFiles st @ [name],
     indexBlocks := indexBlocks st @ [file_index (blockLength st) kvs],
     st_manifest := (st_manifest st)\<lparr>FileNames := FileNames (st_manifest st) @ [name]\<rparr>,
     indexOffsets := indexOffsets st @ [length (data_bytes kvs)]\<rparr>"

definition written_world :: "string \<Rightarrow> (string \<times> string) list \<Rightarrow> SsTable \<Rightarrow> world \<Rightarrow> world" where
  "written_world name kvs st w = w\<lparr>files := (files w)
     (name \<mapsto> file_bytes (blockLength st) kvs,
      manifestPath (dataFilesDirectory st) \<mapsto> MarshalIndent (st_manifest (written_state name kvs st)))\<rparr>"

lemma SsTable_Write_calm:
  assumes inv: "disk_inv w st tabs" and ok: "table_ok (blockLength st) kvs"
    and un: "unlisted st name" and "files w name = Some []"
  defines "st' \<equiv> written_state name kvs st" and "w' \<equiv> written_world name kvs st w"
  shows "SsTable_Write name kvs st w = (Inr (), st', w')"
    and "disk_inv w' st' (tabs @ [(blockLength st, kvs)])" and "saved w' st'"
    and "indexed st tabs \<Longrightarrow> indexed st' (tabs @ [(blockLength st, kvs)])"
proof -
  note inv' = disk_invD [OF inv]
  let ?dir = "dataFilesDirectory st"
  have not_manifest: "name \<noteq> manifestPath ?dir"
    using un by (auto simp: unlisted_def)
  show "SsTable_Write name kvs st w = (Inr (), st', w')"
    using inv'(1) ok assms(4)
    by (simp add: SsTable_Write_def writeToFile_calm table_ok_def saveManifest_calm st'_def w'_def
        written_state_def written_world_def)
  show "saved w' st'"
    by (simp add: saved_def w'_def st'_def written_world_def written_state_def)
  show "indexed st' (tabs @ [(blockLength st, kvs)])" if "indexed st tabs"
    using that by (simp add: indexed_def st'_def written_state_def)
  have "stored w' (firstLevelFiles st @ [name]) (tabs @ [(blockLength st, kvs)])"
  proof -
    have "manifestPath ?dir \<notin> set (firstLevelFiles st)" "name \<notin> set (firstLevelFiles st)"
      using inv'(4) un by (auto simp: fresh_ids_def unlisted_def)
    then have "stored w' (firstLevelFiles st) tabs"
      using stored_upd [OF stored_upd [OF inv'(2)]] by (simp add: w'_def written_world_def)
    moreover have "table_file w' name (blockLength st) kvs"
      by (rule table_file_written [OF ok]) (simp add: not_manifest w'_def written_world_def)
    ultimately show ?thesis
      by (simp add: stored_def list_all2_appendI)
  qed
  then show "disk_inv w' st' (tabs @ [(blockLength st, kvs)])"
    using inv' un
    by (auto simp: disk_inv_def st'_def w'_def written_state_def written_world_def fresh_ids_def
        unlisted_def)
qed

subsection \<open>Restart\<close>

lemma buildIndexes_stored:
  assumes "calm w" and "stored w names tabs"
  shows "buildIndexes names w =
    Inr (map (\<lambda>t. length (data_bytes (snd t))) tabs, map (\<lambda>t. file_index (fst t) (snd t)) tabs)"
  using assms(2)
proof (induction names arbitrary: tabs)
  case Nil
  then show ?case by (simp add: stored_def)
next
  case (Cons name names)
  then obtain t ts where "tabs = t # ts" "table_file w name (fst t) (snd t)" "stored w names ts"
    by (cases tabs) (auto simp: stored_def)
  with Cons.IH show ?case
    by (simp add: buildIndexFromFile_eq [OF assms(1)])
qed

lemma stored_dom: "stored w names tabs \<Longrightarrow> set names \<subseteq> dom (files w)"
  by (auto simp: stored_def list_all2_conv_all_nth in_set_conv_nth table_file_def)

text \<open>What the manifest file tells at the next start: the id to continue with and the tables.\<close>

definition manifest_read :: "world \<Rightarrow> string \<Rightarrow> manifest \<Rightarrow> bool" where
  "manifest_read w dir m \<longleftrightarrow>
     (case files w (manifestPath dir) of
        None \<Rightarrow> False
      | Some c \<Rightarrow> if c = [] then m = \<lparr>NextFileId = 0, FileNames = []\<rparr> else Unmarshal c = Inr m)"

lemma manifest_read_saved:
  "saved w st \<Longrightarrow> manifest_read w (dataFilesDirectory st) (st_manifest st)"
  by (simp add: manifest_read_def saved_def Unmarshal_MarshalIndent)

lemma manifest_read_upd:
  "name \<noteq> manifestPath dir \<Longrightarrow>
   manifest_read (w\<lparr>files := (files w)(name := c)\<rparr>) dir m = manifest_read w dir m"
  by (simp add: manifest_read_def)

lemma getManifest_read:
  assumes "calm w" and "manifest_read w dir m"
  shows "getManifest dir w = (Inr m, w)"
proof -
  obtain c where c: "files w (manifestPath dir) = Some c"
    "if c = [] then m = \<lparr>NextFileId = 0, FileNames = []\<rparr> else Unmarshal c = Inr m"
    using assms(2) by (auto simp: manifest_read_def split: option.splits)
  then show ?thesis
    using assms(1) file_ReadAt_calm [OF assms(1), of "manifestPath dir" "[]" c "[]" 0]
    by (auto simp: getManifest_def OpenFile_create_calm Stat_Size_def dom_def split: if_splits)
qed

definition reopened :: "string \<Rightarrow> int \<Rightarrow> string list \<Rightarrow> manifest \<Rightarrow> sorted_table list \<Rightarrow> SsTable" where
  "reopened dir bl names m tabs =
     \<lparr>dataFilesDirectory = dir, firstLevelFiles = names,
      indexOffsets = map (\<lambda>t. length (data_bytes (snd t))) tabs,
      blockLength = (if bl = 0 then 100 else bl),
      indexBlocks = map (\<lambda>t. file_index (fst t) (snd t)) tabs, st_manifest = m, compacting = False\<rparr>"

lemma NewSsTable_reopen:
  assumes "calm w" and "stored w names tabs" and "dir \<noteq> ''''"
    and "manifest_read w dir m" and "FileNames m = names"
  shows "NewSsTable \<lparr>DataFilesDirectory = dir, BlockLength = bl\<rparr> w =
    (Inr (reopened dir bl names m tabs), w)"
  using assms stored_dom [OF assms(2)]
  by (simp add: NewSsTable_def getDirectoryMetadata_def MkdirAll_calm getManifest_read
      getAllFiles_calm buildIndexes_stored reopened_def)

lemma reopened_sst_inv:
  assumes "disk_inv w st tabs"
  shows "sst_inv w (reopened (dataFilesDirectory st) bl (firstLevelFiles st) (st_manifest st) tabs) tabs"
  using assms by (simp add: sst_inv_def disk_inv_def indexed_def reopened_def)

lemma NewSsTable_fresh:
  assumes "calm w" and "dir \<noteq> ''''" and "files w (manifestPath dir) = None"
    and "\<And>i. files w (tablePath dir i) = None"
  obtains st w' where "NewSsTable \<lparr>DataFilesDirectory = dir, BlockLength = bl\<rparr> w = (Inr st, w')"
    and "sst_inv w' st []" and "blockLength st = (if bl = 0 then 100 else bl)"
    and "dataFilesDirectory st = dir" and "compacting st = False"
    and "w' = w\<lparr>files := (files w)(manifestPath dir \<mapsto> [])\<rparr>"
proof -
  define bl' where "bl' = (if bl = 0 then 100 else bl)"
  define st where "st = \<lparr>dataFilesDirectory = dir, firstLevelFiles = [], indexOffsets = [],
      blockLength = bl', indexBlocks = [],
      st_manifest = \<lparr>NextFileId = 0, FileNames = []\<rparr>, compacting = False\<rparr>"
  let ?w' = "w\<lparr>files := (files w)(manifestPath dir \<mapsto> [])\<rparr>"
  have "NewSsTable \<lparr>DataFilesDirectory = dir, BlockLength = bl\<rparr> w = (Inr st, ?w')"
    using assms by (simp add: NewSsTable_def getDirectoryMetadata_def MkdirAll_calm getManifest_none
        st_def bl'_def)
  moreover have "sst_inv ?w' st []"
    using assms by (simp add: sst_inv_def disk_inv_def indexed_def stored_def fresh_ids_def st_def)
  ultimately show ?thesis
    by (rule that) (simp_all add: st_def bl'_def)
qed

subsection \<open>Concrete table sets\<close>

definition table_names :: "string \<Rightarrow> sorted_table list \<Rightarrow> string list" where
  "table_names dir tabs = map (tablePath dir) [0..<length tabs]"

definition tables_state :: "string \<Rightarrow> int \<Rightarrow> sorted_table list \<Rightarrow> SsTable" where
  "tables_state dir bl tabs =
     \<lparr>dataFilesDirectory = dir, firstLevelFiles = table_names dir tabs,
      indexOffsets = map (\<lambda>t. length (data_bytes (snd t))) tabs, blockLength = bl,
      indexBlocks = map (\<lambda>t. file_index (fst t) (snd t)) tabs,
      st_manifest = \<lparr>NextFileId = length tabs, FileNames = table_names dir tabs\<rparr>,
      compacting = False\<rparr>"

definition tables_world :: "string \<Rightarrow> int \<Rightarrow> sorted_table list \<Rightarrow> world" where
  "tables_world dir bl tabs =
     \<lparr>files = (map_of (zip (table_names dir tabs) (map (\<lambda>t. file_bytes (fst t) (snd t)) tabs)))
        (manifestPath dir \<mapsto> MarshalIndent (st_manifest (tables_state dir bl tabs))),
      unreadable = (\<lambda>_. False), outcomes = []\<rparr>"

lemma distinct_table_names: "distinct (table_names dir tabs)"
  by (simp add: table_names_def distinct_map inj_on_def)

lemma tables_state_inv:
  assumes "\<forall>t \<in> set tabs. table_ok (fst t) (snd t)"
  shows "sst_inv (tables_world dir bl tabs) (tables_state dir bl tabs) tabs"
    and "saved (tables_world dir bl tabs) (tables_state dir bl tabs)"
proof -
  let ?w = "tables_world dir bl tabs" and ?names = "table_names dir tabs"
  have "table_file ?w (?names ! i) (fst (tabs ! i)) (snd (tabs ! i))" if i: "i < length tabs" for i
  proof (rule table_file_written)
    show "table_ok (fst (tabs ! i)) (snd (tabs ! i))"
      using assms i by simp
    have "map_of (zip ?names (map (\<lambda>t. file_bytes (fst t) (snd t)) tabs)) (?names ! i) =
        Some (file_bytes (fst (tabs ! i)) (snd (tabs ! i)))"
      using map_of_zip_nth [of ?names "map (\<lambda>t. file_bytes (fst t) (snd t)) tabs" i] i
        distinct_table_names by (simp add: table_names_def)
    then show "files ?w (?names ! i) = Some (file_bytes (fst (tabs ! i)) (snd (tabs ! i)))"
      using i by (simp add: tables_world_def table_names_def)
  qed
  then have "stored ?w ?names tabs"
    by (simp add: stored_def list_all2_conv_all_nth table_names_def)
  moreover have "files ?w (tablePath dir i) = None" if "length tabs \<le> i" for i
    using that by (auto simp: tables_world_def table_names_def map_of_eq_None_iff dest!: set_zip_leftD)
  ultimately show "sst_inv ?w (tables_state dir bl tabs) tabs"
    using distinct_table_names [of dir tabs]
    by (auto simp: sst_inv_def disk_inv_def tables_state_def indexed_def fresh_ids_def calm_def tables_world_def
        table_names_def)
  show "saved ?w (tables_state dir bl tabs)"
    by (simp add: saved_def tables_world_def tables_state_def)
qed

subsection \<open>Properties\<close>

text \<open>A flush of sorted pairs (\<open>NewFile\<close>, then \<open>Write\<close>) adds one table that is newer
  than all others: every prefix scan afterwards sees the old contents overridden by the new
  pairs, and the state is again well-formed and saved in the manifest.\<close>

theorem sst_write_refines:
  assumes "sst_inv w st tabs" and "table_ok (blockLength st) kvs"
  shows "\<exists>file st1 w1 st' w'.
    NewFile st w = (Inr file, st1, w1) \<and> SsTable_Write file kvs st1 w1 = (Inr (), st', w')
    \<and> sst_inv w' st' (tabs @ [(blockLength st, kvs)]) \<and> saved w' st'
    \<and> SsTable_PrefixScan st' p w' = Inr ((sst_map tabs ++ map_of kvs) |` {k. HasPrefix k p})"
proof -
  note new = NewFile_calm [OF sst_invD(1) [OF assms(1)]]
  let ?name = "tablePath (dataFilesDirectory st) (NextFileId (st_manifest st))"
  let ?st1 = "st\<lparr>st_manifest := (st_manifest st)\<lparr>NextFileId := NextFileId (st_manifest st) + 1\<rparr>\<rparr>"
  let ?w1 = "w\<lparr>files := (files w)(?name \<mapsto> [])\<rparr>"
  have ok: "table_ok (blockLength ?st1) kvs" and "indexed ?st1 tabs"
    using assms by (simp_all add: sst_inv_def indexed_def)
  moreover note wr = SsTable_Write_calm [OF new(2) ok new(3)]
  ultimately have "sst_inv (written_world ?name kvs ?st1 ?w1) (written_state ?name kvs ?st1)
      (tabs @ [(blockLength st, kvs)])"
    by (simp add: sst_inv_def)
  with new(1) wr show ?thesis
    by (force simp: SsTable_PrefixScan_tables)
qed

theorem sst_write_refines_witness:
  "\<exists>file st1 w1 st' w'.
    NewFile (tables_state ''d'' 100 [(100, [(''a'', ''1'')])])
        (tables_world ''d'' 100 [(100, [(''a'', ''1'')])]) = (Inr file, st1, w1)
    \<and> SsTable_Write file [(''a'', ''2''), (''b'', ''3'')] st1 w1 = (Inr (), st', w')
    \<and> sst_inv w' st' ([(100, [(''a'', ''1'')])] @
        [(blockLength (tables_state ''d'' 100 [(100, [(''a'', ''1'')])]), [(''a'', ''2''), (''b'', ''3'')])])
    \<and> saved w' st'
    \<and> SsTable_PrefixScan st' '''' w' =
        Inr ((sst_map [(100, [(''a'', ''1'')])] ++ map_of [(''a'', ''2''), (''b'', ''3'')])
             |` {k. HasPrefix k ''''})"
  by (rule sst_write_refines, rule tables_state_inv)
     (simp_all add: table_ok_def file_bytes_def file_index_def kv_bytes_def less_list_code
       tables_state_def)

text \<open>A prefix scan over all tables returns exactly the newest value of every key with
  the prefix.\<close>

theorem sst_prefix_scan:
  assumes "sst_inv w st tabs"
  shows "SsTable_PrefixScan st p w = Inr (sst_map tabs |` {k. HasPrefix k p})"
  using assms by (rule SsTable_PrefixScan_tables)

theorem sst_prefix_scan_witness:
  "SsTable_PrefixScan (tables_state ''d'' 100 [(100, [(''ta'', ''1'')]), (100, [(''ta'', ''2''), (''u'', ''3'')])])
     ''t'' (tables_world ''d'' 100 [(100, [(''ta'', ''1'')]), (100, [(''ta'', ''2''), (''u'', ''3'')])]) =
   Inr (sst_map [(100, [(''ta'', ''1'')]), (100, [(''ta'', ''2''), (''u'', ''3'')])] |` {k. HasPrefix k ''t''})"
  by (rule sst_prefix_scan, rule tables_state_inv)
     (simp add: table_ok_def file_bytes_def file_index_def kv_bytes_def less_list_code)

text \<open>C33: As long as the indexes and offsets in memory are those of the files that are listed (from
  the start until a compaction replaces files: the compaction does not assign the offsets), \<open>Get\<close>
  returns the newest value of a key, if that value is not empty and every table without the key is
  empty or starts above it.\<close>

theorem sst_get_newest:
  assumes "sst_inv w st tabs" and "sst_map tabs key = Some v" and "v \<noteq> ''''"
    and "\<forall>t \<in> set tabs. map_of (snd t) key = None \<longrightarrow> snd t = [] \<or> key < fst (hd (snd t))"
  shows "SsTable_Get st key w = Inr v"
proof -
  have "sorted_keys (snd t)" if "t \<in> set tabs" for t
    using that disk_invD(2) [OF sst_invD(1) [OF assms(1)]] stored_nth stored_length
    by (fastforce simp: in_set_conv_nth table_file_def)
  then show ?thesis
    using assms tables_get_found [of "rev tabs" key v] by (simp add: SsTable_Get_tables)
qed

theorem sst_get_newest_witness:
  "SsTable_Get (tables_state ''d'' 100 [(100, [(''a'', ''1'')]), (100, [(''a'', ''2'')]), (100, [(''b'', ''3'')])])
     ''a'' (tables_world ''d'' 100 [(100, [(''a'', ''1'')]), (100, [(''a'', ''2'')]), (100, [(''b'', ''3'')])]) =
   Inr ''2''"
  by (rule sst_get_newest, rule tables_state_inv)
     (simp_all add: table_ok_def file_bytes_def file_index_def kv_bytes_def less_list_code sst_map_def)

text \<open>C34: A key that the newest table does not hold, but whose place lies within or behind that
  table, makes \<open>Get\<close> fail, whatever the older tables hold: they are not searched.\<close>

theorem sst_get_hidden:
  assumes "sst_inv w st (tabs @ [t])" and "map_of (snd t) key = None"
    and "snd t \<noteq> []" and "fst (hd (snd t)) \<le> key"
  shows "SsTable_Get st key w = Inl errDatablock"
  using SsTable_Get_tables [OF assms(1), of key] assms(2,3) leD [OF assms(4)]
  by (simp add: file_get_def)

theorem sst_get_hidden_witness:
  "SsTable_Get (tables_state ''d'' 100 [(100, [(''b'', ''1'')]), (100, [(''a'', ''2''), (''c'', ''3'')])])
     ''b'' (tables_world ''d'' 100 [(100, [(''b'', ''1'')]), (100, [(''a'', ''2''), (''c'', ''3'')])]) =
   Inl errDatablock
   \<and> sst_map [(100 :: int, [(''b'', ''1'')]), (100, [(''a'', ''2''), (''c'', ''3'')])] ''b'' = Some ''1''"
proof
  show "SsTable_Get (tables_state ''d'' 100 [(100, [(''b'', ''1'')]), (100, [(''a'', ''2''), (''c'', ''3'')])])
     ''b'' (tables_world ''d'' 100 [(100, [(''b'', ''1'')]), (100, [(''a'', ''2''), (''c'', ''3'')])]) =
   Inl errDatablock"
    by (rule sst_get_hidden [where tabs = "[(100, [(''b'', ''1'')])]" and t = "(100, [(''a'', ''2''), (''c'', ''3'')])"],
        simp only: append.simps, rule tables_state_inv)
       (simp_all add: table_ok_def file_bytes_def file_index_def kv_bytes_def less_list_code
         less_eq_list_code)
qed (simp add: sst_map_def)

text \<open>An empty value does not hide an older one: after a key is set to the empty string,
  \<open>Get\<close> still returns the value of the table before, while a prefix scan returns the empty
  value.\<close>

theorem sst_empty_value_resurfaces:
  assumes "sst_inv w st (tabs @ [(bl, kvs), (bl', kvs')])"
    and "map_of kvs key = Some v" and "v \<noteq> ''''" and "map_of kvs' key = Some ''''"
  shows "SsTable_Get st key w = Inr v
    \<and> (\<exists>m. SsTable_PrefixScan st key w = Inr m \<and> m key = Some '''')"
proof -
  have "stored w (firstLevelFiles st) (tabs @ [(bl, kvs), (bl', kvs')])"
    using disk_invD(2) [OF sst_invD(1) [OF assms(1)]] .
  from stored_nth [OF this, of "length tabs"] stored_nth [OF this, of "Suc (length tabs)"]
  have "sorted_keys kvs" "sorted_keys kvs'"
    by (simp_all add: table_file_def nth_append)
  then have "kvs \<noteq> [] \<and> \<not> key < fst (hd kvs)" "kvs' \<noteq> [] \<and> \<not> key < fst (hd kvs')"
    using first_key_le assms(2,4) by blast+
  then have "SsTable_Get st key w = Inr v"
    using SsTable_Get_tables [OF assms(1), of key] assms(2-4) by (simp add: file_get_def)
  moreover have "sst_map (tabs @ [(bl, kvs), (bl', kvs')]) key = Some ''''"
    using assms(4) by (simp add: sst_map_def)
  ultimately show ?thesis
    using SsTable_PrefixScan_tables [OF assms(1), of key] by simp
qed

theorem sst_empty_value_resurfaces_witness:
  "SsTable_Get (tables_state ''d'' 100 [(100, [(''a'', ''1'')]), (100, [(''a'', '''')])])
     ''a'' (tables_world ''d'' 100 [(100, [(''a'', ''1'')]), (100, [(''a'', '''')])]) = Inr ''1''
   \<and> (\<exists>m. SsTable_PrefixScan (tables_state ''d'' 100 [(100, [(''a'', ''1'')]), (100, [(''a'', '''')])])
        ''a'' (tables_world ''d'' 100 [(100, [(''a'', ''1'')]), (100, [(''a'', '''')])]) = Inr m
      \<and> m ''a'' = Some '''')"
  by (rule sst_empty_value_resurfaces [where tabs = "[]" and kvs = "[(''a'', ''1'')]" and bl = 100
        and kvs' = "[(''a'', '''')]" and bl' = 100],
      simp only: append.simps, rule tables_state_inv)
     (simp_all add: table_ok_def file_bytes_def file_index_def kv_bytes_def)

text \<open>After a clean shutdown, \<open>NewSsTable\<close> on the same directory rebuilds exactly the
  state of before: the files in their order, the indexes and the next file id; only the block
  length comes from the configuration.\<close>

theorem sst_restart:
  assumes "sst_inv w st tabs" and "saved w st" and "dataFilesDirectory st \<noteq> ''''"
  shows "NewSsTable \<lparr>DataFilesDirectory = dataFilesDirectory st, BlockLength = bl\<rparr> w =
    (Inr (st\<lparr>blockLength := (if bl = 0 then 100 else bl), compacting := False\<rparr>), w)"
proof -
  note inv = disk_invD [OF sst_invD(1) [OF assms(1)]]
  have "reopened (dataFilesDirectory st) bl (firstLevelFiles st) (st_manifest st) tabs =
      st\<lparr>blockLength := (if bl = 0 then 100 else bl), compacting := False\<rparr>"
    using sst_invD(2) [OF assms(1)] by (simp add: reopened_def indexed_def)
  then show ?thesis
    using NewSsTable_reopen [OF inv(1,2) assms(3) manifest_read_saved [OF assms(2)] inv(3)]
    by simp
qed

theorem sst_restart_witness:
  "NewSsTable \<lparr>DataFilesDirectory = dataFilesDirectory (tables_state ''d'' 100 [(100, [(''a'', ''1'')])]),
       BlockLength = 0\<rparr> (tables_world ''d'' 100 [(100, [(''a'', ''1'')])]) =
    (Inr ((tables_state ''d'' 100 [(100, [(''a'', ''1'')])])
        \<lparr>blockLength := (if (0 :: int) = 0 then 100 else 0), compacting := False\<rparr>),
     tables_world ''d'' 100 [(100, [(''a'', ''1'')])])"
proof (rule sst_restart)
  have ok: "\<forall>t \<in> set [(100, [(''a'', ''1'')])]. table_ok (fst t) (snd t)"
    by (simp add: table_ok_def file_bytes_def file_index_def kv_bytes_def)
  show "sst_inv (tables_world ''d'' 100 [(100, [(''a'', ''1'')])])
      (tables_state ''d'' 100 [(100, [(''a'', ''1'')])]) [(100, [(''a'', ''1'')])]"
    and "saved (tables_world ''d'' 100 [(100, [(''a'', ''1'')])])
      (tables_state ''d'' 100 [(100, [(''a'', ''1'')])])"
    by (rule tables_state_inv [OF ok])+
qed (simp add: tables_state_def)

end
