(* ===== verification/Compaction.thy ===== *)
theory Compaction
  imports Sstable
begin

text \<open>
  \<^verbatim>\<open>sstable/compaction.go\<close> and \<^verbatim>\<open>sstable/utils.go\<close>: merging the first-level
  files into one. The compaction runs in its own goroutine, beside flushes; its critical
  sections are the phases below. \<open>Lsm_Steps\<close> interleaves these phases with the steps of
  flushes.
\<close>

subsection \<open>Building the compacted map\<close>

definition ShouldRunCompaction :: "SsTable \<Rightarrow> bool" where
  "ShouldRunCompaction st \<longleftrightarrow> \<not> compacting st \<and> length (firstLevelFiles st) \<ge> 4"

text \<open>The loop over the data of one file.\<close>

function compact_loop :: "bytes \<Rightarrow> nat \<Rightarrow> (string \<rightharpoonup> string) \<Rightarrow> goerr + (string \<rightharpoonup> string)" where
  "compact_loop buf i compactedMap =
     (if i < length buf then
        (case read_sst_entry buf i of
           Inl e \<Rightarrow> Inl e
         | Inr ((key, value), j) \<Rightarrow> compact_loop buf j (compactedMap(key \<mapsto> value)))
      else Inr compactedMap)"
  by pat_completeness auto
termination
  by (relation "measure (\<lambda>(buf, i, m). length buf - i)") (auto dest: read_sst_entry_progress)

declare compact_loop.simps [simp del]

fun buildCompactedMap ::
    "string list \<Rightarrow> (string \<rightharpoonup> string) \<Rightarrow> world \<Rightarrow> goerr + (string \<rightharpoonup> string)" where
  "buildCompactedMap [] compactedMap w = Inr compactedMap"
| "buildCompactedMap (file # fs) compactedMap w =
     (case getIndexOffset file w of
        Inl e \<Rightarrow> Inl e
      | Inr indexOffset \<Rightarrow>
          (case file_ReadAt file (unat indexOffset) 0 w of
             (_, Some e) \<Rightarrow> Inl e
           | (buf, None) \<Rightarrow>
               (case compact_loop buf 0 compactedMap of
                  Inl e \<Rightarrow> Inl e
                | Inr m \<Rightarrow> buildCompactedMap fs m w)))"

text \<open>\<open>sortedKeys\<close>: \<open>rng\<close> gives the order in which Go ranges over the map.\<close>

type_synonym map_range = "(string \<rightharpoonup> string) \<Rightarrow> string list"

definition sortedKeys :: "map_range \<Rightarrow> (string \<rightharpoonup> string) \<Rightarrow> string list" where
  "sortedKeys rng mp = sort (rng mp)"

subsection \<open>The phases of \<open>RunCompaction\<close>\<close>

text \<open>Phases 1 and 2, first half: the flag is set and the list of files is copied.\<close>

definition compaction_begin :: "SsTable \<Rightarrow> SsTable \<times> string list" where
  "compaction_begin st = (st\<lparr>compacting := True\<rparr>, firstLevelFiles st)"

text \<open>
  Phases 2 to 4: the pairs that the iterator will pass. An error of \<open>buildCompactedMap\<close> is
  only logged, and the map it returns then is nil, without keys; a panic ends the process.
\<close>

definition compaction_build ::
    "map_range \<Rightarrow> string list \<Rightarrow> world \<Rightarrow> goerr + (string \<times> string) list" where
  "compaction_build rng filesToCompact w =
     (case buildCompactedMap filesToCompact Map.empty w of
        Inl e \<Rightarrow> if is_panic e then Inl e else Inr []
      | Inr compactedMap \<Rightarrow>
          Inr (map (\<lambda>key. (key, the (compactedMap key))) (sortedKeys rng compactedMap)))"

text \<open>
  Phase 5: the file and its index. Without a file (\<open>NewFile\<close> failed, which is only logged)
  every write to the nil file fails and \<open>compactedFile.Name()\<close> panics. A failed write is
  only logged; the index is then empty and the offset 0.
\<close>

definition compaction_write ::
    "(string \<times> string) list \<Rightarrow> SsTable \<Rightarrow> world
       \<Rightarrow> (goerr + string \<times> nat \<times> indexBlockEntry list) \<times> SsTable \<times> world" where
  "compaction_write kvs st w =
     (case NewFile st w of
        (Inl e, st', w') \<Rightarrow> (Inl nil_panic, st', w')
      | (Inr compactedFile, st', w') \<Rightarrow>
          (case writeToFile compactedFile (blockLength st') kvs w' of
             (Inl e, w'') \<Rightarrow> (Inr (compactedFile, 0, []), st', w'')
           | (Inr (compactedIndexOffset, compactedIndexBlock), w'') \<Rightarrow>
               (Inr (compactedFile, compactedIndexOffset, compactedIndexBlock), st', w'')))"

text \<open>
  Phase 6. The code also collects \<open>swappedIndexOffsets\<close>, but never stores them: the
  offsets in the state stay those of the old files.
\<close>

definition atomicSwap ::
    "string \<Rightarrow> string list \<Rightarrow> indexBlockEntry list \<Rightarrow> nat \<Rightarrow> SsTable \<Rightarrow> world \<Rightarrow> SsTable \<times> world" where
  "atomicSwap compactedFile oldFiles compactedIndexBlock compactedIndexOffset st w =
     (let keep = filter (\<lambda>i. firstLevelFiles st ! i \<notin> set oldFiles) [0..<length (firstLevelFiles st)];
          swappedFiles = compactedFile # map (\<lambda>i. firstLevelFiles st ! i) keep;
          swappedIndexBlocks = compactedIndexBlock # map (\<lambda>i. indexBlocks st ! i) keep;
          st' = st\<lparr>firstLevelFiles := swappedFiles, indexBlocks := swappedIndexBlocks,
                   st_manifest := (st_manifest st)\<lparr>FileNames := swappedFiles\<rparr>\<rparr>;
          (_, w') = saveManifest (dataFilesDirectory st') (st_manifest st') w
      in (st', w'))"

text \<open>Phase 7.\<close>

fun remove_files :: "string list \<Rightarrow> world \<Rightarrow> world" where
  "remove_files [] w = w"
| "remove_files (file # fs) w = remove_files fs (os_Remove file w)"

text \<open>The whole of \<open>RunCompaction\<close>, with no other goroutine in between.\<close>

definition RunCompaction :: "map_range \<Rightarrow> SsTable \<Rightarrow> world \<Rightarrow> (goerr + unit) \<times> SsTable \<times> world" where
  "RunCompaction rng st w =
     (let (st1, filesToCompact) = compaction_begin st in
      case compaction_build rng filesToCompact w of
        Inl e \<Rightarrow> (Inl e, st1, w)
      | Inr kvs \<Rightarrow>
          (case compaction_write kvs st1 w of
             (Inl e, st2, w2) \<Rightarrow> (Inl e, st2, w2)
           | (Inr (compactedFile, compactedIndexOffset, compactedIndexBlock), st2, w2) \<Rightarrow>
               let (st3, w3) = atomicSwap compactedFile filesToCompact compactedIndexBlock
                                 compactedIndexOffset st2 w2
               in (Inr (), st3\<lparr>compacting := False\<rparr>, remove_files filesToCompact w3)))"

subsection \<open>The compacted map is the contents of the files\<close>

interpretation compact: entry_loop compact_loop "\<lambda>kv m. m(fst kv \<mapsto> snd kv)" "\<lambda>_ _. True"
  by unfold_locales (subst compact_loop.simps, auto)

lemma foldl_upd_map_of:
  "distinct (map fst kvs) \<Longrightarrow> foldl (\<lambda>m kv. m(fst kv \<mapsto> snd kv)) m kvs = m ++ map_of kvs"
proof (induction kvs arbitrary: m)
  case Nil
  then show ?case by simp
next
  case (Cons kv kvs)
  then have "map_of kvs (fst kv) = None"
    by (simp add: map_of_eq_None_iff)
  with Cons show ?case
    by (auto simp: fun_eq_iff map_add_def split: option.split)
qed

lemma compact_loop_data:
  assumes "fits32 (length (data_bytes kvs))" and "sorted_keys kvs"
  shows "compact_loop (data_bytes kvs) 0 m = Inr (m ++ map_of kvs)"
proof -
  have "compact_loop (data_bytes kvs) 0 m =
      compact_loop (data_bytes kvs) (length (data_bytes kvs)) (m ++ map_of kvs)"
    using compact.loop_entries [of "[]" kvs "[]" m] assms compact.goes_throughI
    by (simp add: foldl_upd_map_of sorted_keys_distinct)
  then show ?thesis
    by (simp add: compact_loop.simps [of _ "length (data_bytes kvs)"])
qed

lemma getIndexOffset_eq:
  assumes "calm w" and "table_file w name bl kvs"
  shows "getIndexOffset name w = Inr (word_of_nat (length (data_bytes kvs)))"
proof -
  let ?d = "data_bytes kvs" and ?i = "index_bytes (file_index bl kvs)"
  have content: "files w name = Some (file_bytes bl kvs)"
    using assms(2) by (simp add: table_file_def)
  have "file_ReadAt name 4 (int (length ?d + length ?i + 4) - 4) w = (len32 ?d, None)"
    by (rule file_ReadAt_at [OF assms(1) content, of "?d @ ?i" _ "[]"])
       (simp_all add: file_bytes_def)
  then show ?thesis
    by (simp add: getIndexOffset_def Stat_Size_def content file_bytes_def)
qed

lemma buildCompactedMap_stored:
  assumes "calm w" and "stored w names tabs"
  shows "buildCompactedMap names m w = Inr (m ++ sst_map tabs)"
  using assms(2)
proof (induction names arbitrary: tabs m)
  case Nil
  then show ?case by (simp add: stored_def)
next
  case (Cons name names)
  then obtain t ts where tabs: "tabs = t # ts" "stored w names ts"
    and tf: "table_file w name (fst t) (snd t)"
    by (cases tabs) (auto simp: stored_def)
  let ?d = "data_bytes (snd t)"
  have fits: "fits32 (length ?d)"
    using tf by (simp add: table_file_def file_bytes_def)
  have "file_ReadAt name (length ?d) 0 w = (?d, None)"
    by (rule file_ReadAt_at [OF assms(1), where pre = "[]"
          and post = "index_bytes (file_index (fst t) (snd t)) @ len32 ?d"])
       (use tf in \<open>simp_all add: table_file_def file_bytes_def\<close>)
  moreover have "compact_loop ?d 0 m = Inr (m ++ map_of (snd t))"
    using compact_loop_data [OF fits] tf by (simp add: table_file_def)
  moreover have "(m ++ map_of (snd t)) ++ sst_map ts = m ++ sst_map (t # ts)"
    by (simp add: sst_map_Cons)
  ultimately show ?case
    using Cons.IH [OF tabs(2), of "m ++ map_of (snd t)"]
    by (simp add: tabs(1) getIndexOffset_eq [OF assms(1) tf] fits)
qed

subsection \<open>Each phase on a well-formed state\<close>

definition rng_ok :: "map_range \<Rightarrow> bool" where
  "rng_ok rng \<longleftrightarrow> (\<forall>m. finite (dom m) \<longrightarrow> range_order (rng m) m)"

definition merged :: "map_range \<Rightarrow> sorted_table list \<Rightarrow> (string \<times> string) list" where
  "merged rng tabs = range_pairs (sort (rng (sst_map tabs))) (sst_map tabs)"

lemma finite_dom_sst_map: "finite (dom (sst_map tabs))"
  by (induction tabs) (simp_all add: sst_map_Cons finite_dom_map_of)

lemma sst_map_nonempty:
  assumes "stored w names tabs"
  shows "sst_map tabs '''' = None"
proof -
  have "nonempty_keys (snd t)" if "t \<in> set tabs" for t
    using assms that by (auto simp: stored_def list_all2_conv_all_nth in_set_conv_nth table_file_def)
  then show ?thesis
  proof (induction tabs)
    case Nil
    then show ?case by simp
  next
    case (Cons t ts)
    have "nonempty_keys (snd t)"
      by (rule Cons.prems) simp
    then have "map_of (snd t) '''' = None"
      by (force simp: map_of_eq_None_iff nonempty_keys_def)
    moreover have "sst_map ts '''' = None"
      by (rule Cons.IH) (rule Cons.prems, simp)
    ultimately show ?case
      unfolding sst_map_Cons map_add_def by simp
  qed
qed

lemma merged_facts:
  assumes "rng_ok rng" and "stored w names tabs"
  shows "map_of (merged rng tabs) = sst_map tabs" "sorted_keys (merged rng tabs)"
    "nonempty_keys (merged rng tabs)"
proof -
  have r: "range_order (sort (rng (sst_map tabs))) (sst_map tabs)"
    using assms(1) finite_dom_sst_map [of tabs] by (simp add: rng_ok_def range_order_def)
  then show "map_of (merged rng tabs) = sst_map tabs"
    unfolding merged_def by (rule map_of_range_pairs)
  show "sorted_keys (merged rng tabs)"
    using r by (simp add: sorted_keys_def merged_def strict_sorted_iff range_order_def)
  have "'''' \<notin> set (sort (rng (sst_map tabs)))"
    using r sst_map_nonempty [OF assms(2)] by (auto simp: range_order_def)
  then have "'''' \<notin> fst ` set (merged rng tabs)"
    by (metis list.set_map map_fst_range_pairs merged_def)
  then show "nonempty_keys (merged rng tabs)"
    by (force simp: nonempty_keys_def)
qed

lemma compaction_build_stored:
  "calm w \<Longrightarrow> stored w names tabs \<Longrightarrow> compaction_build rng names w = Inr (merged rng tabs)"
  by (simp add: compaction_build_def buildCompactedMap_stored merged_def range_pairs_def
      sortedKeys_def)

lemma compaction_write_calm:
  assumes "disk_inv w st tabs" and "table_ok (blockLength st) kvs"
    and name_def: "name = tablePath (dataFilesDirectory st) (NextFileId (st_manifest st))"
    and st'_def: "st' = st\<lparr>st_manifest :=
      (st_manifest st)\<lparr>NextFileId := NextFileId (st_manifest st) + 1\<rparr>\<rparr>"
    and w'_def: "w' = w\<lparr>files := (files w)(name \<mapsto> file_bytes (blockLength st) kvs)\<rparr>"
  shows "compaction_write kvs st w =
      (Inr (name, length (data_bytes kvs), file_index (blockLength st) kvs), st', w')"
    and "disk_inv w' st' tabs"
proof -
  note new = NewFile_calm [OF assms(1)]
  have "calm w"
    using assms(1) by (simp add: disk_inv_def)
  then show "compaction_write kvs st w =
      (Inr (name, length (data_bytes kvs), file_index (blockLength st) kvs), st', w')"
    using assms(2) new(1)
    by (simp add: compaction_write_def writeToFile_calm table_ok_def name_def st'_def w'_def)
  have "name \<notin> set (firstLevelFiles st)"
    using fresh_not_in [OF disk_invD(4) [OF assms(1)]] by (simp add: name_def)
  then show "disk_inv w' st' tabs"
    using new(2) stored_upd [OF disk_invD(2) [OF assms(1)]]
    by (auto simp: disk_inv_def name_def st'_def w'_def fresh_ids_def)
qed

lemma nth_filter_upt:
  "map (\<lambda>i. xs ! i) (filter (\<lambda>i. P (xs ! i)) [0..<length xs]) = filter P xs"
proof -
  have "filter P (map (nth xs) [0..<length xs]) = map (nth xs) (filter (P \<circ> nth xs) [0..<length xs])"
    by (rule filter_map)
  then show ?thesis
    by (simp add: map_nth comp_def)
qed

text \<open>The tables whose files are not among the old ones.\<close>

definition kept :: "string list \<Rightarrow> string list \<Rightarrow> sorted_table list \<Rightarrow> sorted_table list" where
  "kept old names tabs = map snd (filter (\<lambda>x. fst x \<notin> set old) (zip names tabs))"

lemma stored_kept:
  assumes "stored w names tabs"
  shows "stored w (filter (\<lambda>n. n \<notin> set old) names) (kept old names tabs)"
  using assms unfolding stored_def kept_def
  by (induction rule: list_all2_induct) simp_all

lemma kept_prefix:
  assumes "distinct (fs @ rest)" and "length fs = length ts" and "length rest = length us"
  shows "kept fs (fs @ rest) (ts @ us) = us" and "filter (\<lambda>n. n \<notin> set fs) (fs @ rest) = rest"
proof -
  have "filter (\<lambda>x. fst x \<notin> set fs) (zip fs ts) = []"
    by (auto simp: filter_empty_conv dest: set_zip_leftD)
  moreover have "filter (\<lambda>x. fst x \<notin> set fs) (zip rest us) = zip rest us"
    using assms(1) by (auto simp: filter_id_conv dest!: set_zip_leftD)
  ultimately show "kept fs (fs @ rest) (ts @ us) = us"
    using assms(2,3) by (simp add: kept_def)
  show "filter (\<lambda>n. n \<notin> set fs) (fs @ rest) = rest"
    using assms(1) by (auto simp: filter_empty_conv filter_id_conv)
qed

lemma atomicSwap_calm:
  assumes inv: "disk_inv w st tabs" and un: "unlisted st c" and tf: "table_file w c bl kvs"
    and swap: "atomicSwap c old ib off st w = (st', w')"
  shows "disk_inv w' st' ((bl, kvs) # kept old (firstLevelFiles st) tabs)" and "saved w' st'"
    and "firstLevelFiles st' = c # filter (\<lambda>n. n \<notin> set old) (firstLevelFiles st)"
    and "dataFilesDirectory st' = dataFilesDirectory st" and "blockLength st' = blockLength st"
    and "NextFileId (st_manifest st') = NextFileId (st_manifest st)"
    and "\<And>f. f \<noteq> manifestPath (dataFilesDirectory st) \<Longrightarrow> files w' f = files w f"
proof -
  note inv' = disk_invD [OF inv]
  let ?names = "c # filter (\<lambda>n. n \<notin> set old) (firstLevelFiles st)"
  let ?keep = "filter (\<lambda>i. firstLevelFiles st ! i \<notin> set old) [0..<length (firstLevelFiles st)]"
  let ?m = "(st_manifest st)\<lparr>FileNames := ?names\<rparr>"
  have w': "w' = w\<lparr>files := (files w)(manifestPath (dataFilesDirectory st) \<mapsto> MarshalIndent ?m)\<rparr>"
    and st': "st' = st\<lparr>firstLevelFiles := ?names, indexBlocks := ib # map (\<lambda>i. indexBlocks st ! i) ?keep,
      st_manifest := ?m\<rparr>"
    using swap inv'(1) nth_filter_upt [of "firstLevelFiles st" "\<lambda>n. n \<notin> set old"]
    by (simp_all add: atomicSwap_def Let_def saveManifest_calm)
  show "saved w' st'" "firstLevelFiles st' = ?names"
    "dataFilesDirectory st' = dataFilesDirectory st" "blockLength st' = blockLength st"
    "NextFileId (st_manifest st') = NextFileId (st_manifest st)"
    by (simp_all add: saved_def w' st')
  show "files w' f = files w f" if "f \<noteq> manifestPath (dataFilesDirectory st)" for f
    using that by (simp add: w')
  have "manifestPath (dataFilesDirectory st) \<notin> set (firstLevelFiles st)"
    "c \<noteq> manifestPath (dataFilesDirectory st)"
    using inv'(4) un by (auto simp: fresh_ids_def unlisted_def)
  then have "stored w' ?names ((bl, kvs) # kept old (firstLevelFiles st) tabs)"
    using stored_upd [OF stored_kept [OF inv'(2), of old]] table_file_upd [OF tf]
    by (simp add: w' stored_def)
  then show "disk_inv w' st' ((bl, kvs) # kept old (firstLevelFiles st) tabs)"
    using inv' un by (auto simp: disk_inv_def w' st' fresh_ids_def unlisted_def)
qed

lemma remove_files_calm:
  "calm w \<Longrightarrow> remove_files fs w = w\<lparr>files := (\<lambda>f. if f \<in> set fs then None else files w f)\<rparr>"
  by (induction fs arbitrary: w) (auto simp: os_Remove_calm fun_eq_iff intro!: arg_cong2 [where f = "\<lambda>w f. w\<lparr>files := f\<rparr>"])

text \<open>The merged pairs do not depend on the order in which Go ranges over the map.\<close>

lemma merged_eqI:
  assumes "rng_ok rng" and "sorted_keys kvs" and "map_of kvs = sst_map tabs"
  shows "merged rng tabs = kvs"
proof -
  have r: "range_order (sort (rng (sst_map tabs))) (sst_map tabs)"
    using assms(1) finite_dom_sst_map [of tabs] by (simp add: rng_ok_def range_order_def)
  have "set (sort (rng (sst_map tabs))) = set (map fst kvs)"
    using r assms(3) dom_map_of_conv_image_fst [of kvs] by (simp add: range_order_def)
  moreover have "distinct (sort (rng (sst_map tabs)))"
    using r by (simp add: range_order_def)
  moreover have "sorted (map fst kvs)" "distinct (map fst kvs)"
    using assms(2) by (simp_all add: sorted_keys_def strict_sorted_iff)
  ultimately have "sort (rng (sst_map tabs)) = map fst kvs"
    using sorted_sort sorted_distinct_set_unique by blast
  then have "merged rng tabs = map (\<lambda>k. (k, the (map_of kvs k))) (map fst kvs)"
    by (simp add: merged_def range_pairs_def assms(3))
  also have "\<dots> = kvs"
    unfolding map_map comp_def using sorted_keys_distinct [OF assms(2)] by (intro map_idI) auto
  finally show ?thesis .
qed

definition ordered_range :: map_range where
  "ordered_range m = sorted_list_of_set (dom m)"

lemma rng_ok_ordered_range: "rng_ok ordered_range"
  by (simp add: rng_ok_def ordered_range_def range_order_def)

definition four_tables :: "sorted_table list" where
  "four_tables = [(10, [(''a'', ''1'')]), (10, [(''b'', ''2'')]), (10, [(''c'', ''3'')]),
     (10, [(''a'', ''4''), (''d'', ''5'')])]"

lemma four_tables_ok: "\<forall>t \<in> set four_tables. table_ok (fst t) (snd t)"
  by (simp add: four_tables_def table_ok_def file_bytes_def file_index_def kv_bytes_def less_list_code)

lemma merged_four_tables:
  "merged ordered_range four_tables = [(''a'', ''4''), (''b'', ''2''), (''c'', ''3''), (''d'', ''5'')]"
  by (rule merged_eqI [OF rng_ok_ordered_range])
     (auto simp: four_tables_def sst_map_def less_list_code fun_eq_iff)

subsection \<open>A whole compaction\<close>

lemma RunCompaction_calm:
  assumes inv: "disk_inv w st tabs" and rng: "rng_ok rng"
    and fits: "fits32 (length (file_bytes (blockLength st) (merged rng tabs)))"
  obtains c st' w' where "RunCompaction rng st w = (Inr (), st', w')"
    and "disk_inv w' st' [(blockLength st, merged rng tabs)]" and "saved w' st'"
    and "firstLevelFiles st' = [c]" and "c \<notin> set (firstLevelFiles st)"
    and "\<And>f. f \<in> set (firstLevelFiles st) \<Longrightarrow> files w' f = None"
    and "indexBlocks st' = [file_index (blockLength st) (merged rng tabs)]"
    and "indexOffsets st' = indexOffsets st" and "compacting st' = False"
    and "dataFilesDirectory st' = dataFilesDirectory st"
    and "\<And>f. f \<noteq> manifestPath (dataFilesDirectory st) \<Longrightarrow>
      \<forall>i. f \<noteq> tablePath (dataFilesDirectory st) i \<Longrightarrow> files w' f = files w f"
proof -
  note inv' = disk_invD [OF inv]
  let ?kvs = "merged rng tabs" and ?fs = "firstLevelFiles st"
  let ?c = "tablePath (dataFilesDirectory st) (NextFileId (st_manifest st))"
  let ?st1 = "st\<lparr>compacting := True\<rparr>"
  have ok: "table_ok (blockLength ?st1) ?kvs"
    using merged_facts [OF rng inv'(2)] fits by (simp add: table_ok_def)
  have inv1: "disk_inv w ?st1 tabs"
    using inv by (simp add: disk_inv_def)
  note W = compaction_write_calm [OF inv1 ok refl refl refl]
  define st2 where "st2 = ?st1\<lparr>st_manifest :=
    (st_manifest ?st1)\<lparr>NextFileId := NextFileId (st_manifest ?st1) + 1\<rparr>\<rparr>"
  define w2 where "w2 = w\<lparr>files := (files w)(?c \<mapsto> file_bytes (blockLength st) ?kvs)\<rparr>"
  have wr: "compaction_write ?kvs ?st1 w =
      (Inr (?c, length (data_bytes ?kvs), file_index (blockLength st) ?kvs), st2, w2)"
    and inv2: "disk_inv w2 st2 tabs"
    using W by (simp_all add: st2_def w2_def)
  have un: "unlisted st2 ?c"
    using fresh_not_in [OF inv'(4)] by (auto simp: unlisted_def st2_def)
  have tf: "table_file w2 ?c (blockLength st) ?kvs"
    by (rule table_file_written) (use ok in \<open>simp_all add: w2_def\<close>)
  obtain st3 w3 where swap: "atomicSwap ?c ?fs (file_index (blockLength st) ?kvs)
      (length (data_bytes ?kvs)) st2 w2 = (st3, w3)"
    by (meson surj_pair)
  have all: "kept ?fs ?fs tabs = []" "filter (\<lambda>n. n \<notin> set ?fs) ?fs = []" "firstLevelFiles st2 = ?fs"
    using kept_prefix [of ?fs "[]" tabs "[]"] stored_length [OF inv'(2)] inv'(4)
    by (simp_all add: fresh_ids_def st2_def)
  note S = atomicSwap_calm [OF inv2 un tf swap, unfolded all]
  have ix: "indexBlocks st3 = [file_index (blockLength st) ?kvs]" "indexOffsets st3 = indexOffsets st"
    using swap by (auto simp: atomicSwap_def Let_def st2_def filter_empty_conv split: prod.splits)
  let ?w' = "remove_files ?fs w3"
  note rm = remove_files_calm [OF disk_invD(1) [OF S(1)], of ?fs]
  have keep: "?c \<notin> set ?fs" "manifestPath (dataFilesDirectory st) \<notin> set ?fs"
    using fresh_not_in [OF inv'(4)] inv'(4) by (auto simp: fresh_ids_def)
  have "RunCompaction rng st w = (Inr (), st3\<lparr>compacting := False\<rparr>, ?w')"
    by (simp add: RunCompaction_def compaction_begin_def compaction_build_stored [OF inv'(1,2)]
        wr swap)
  moreover have "disk_inv ?w' (st3\<lparr>compacting := False\<rparr>) [(blockLength st, ?kvs)]"
    using S(1,3) keep by (simp add: disk_inv_def stored_def table_file_def fresh_ids_def rm)
  moreover have "saved ?w' (st3\<lparr>compacting := False\<rparr>)"
    using S(2,4) keep by (simp add: saved_def rm st2_def)
  moreover have others: "files ?w' f = files w f"
    if "f \<noteq> manifestPath (dataFilesDirectory st)" "\<forall>i. f \<noteq> tablePath (dataFilesDirectory st) i" for f
  proof -
    have "f \<notin> set ?fs"
      using that(2) inv'(4) by (auto simp: fresh_ids_def)
    then show ?thesis
      using that S(7) by (simp add: rm st2_def w2_def)
  qed
  ultimately show ?thesis
    by (intro that [of "st3\<lparr>compacting := False\<rparr>" ?w' ?c])
       (use S(3,4) ix keep in \<open>simp_all add: rm st2_def\<close>)
qed

text \<open>C6: A compaction with nothing running beside it replaces the files by one file that
  holds, sorted, the newest value of every key; the old files are deleted, and a restart sees
  the same contents as before.\<close>

theorem compaction_preserves_contents:
  assumes "disk_inv w st tabs" and "rng_ok rng" and "dataFilesDirectory st \<noteq> ''''"
    and "fits32 (length (file_bytes (blockLength st) (merged rng tabs)))"
  shows "\<exists>c st' w' st''. RunCompaction rng st w = (Inr (), st', w')
    \<and> firstLevelFiles st' = [c] \<and> (\<forall>f \<in> set (firstLevelFiles st). files w' f = None)
    \<and> NewSsTable \<lparr>DataFilesDirectory = dataFilesDirectory st, BlockLength = bl\<rparr> w' = (Inr st'', w')
    \<and> SsTable_PrefixScan st'' p w' = Inr (sst_map tabs |` {k. HasPrefix k p})"
proof -
  obtain c st' w' where run: "RunCompaction rng st w = (Inr (), st', w')"
    and inv: "disk_inv w' st' [(blockLength st, merged rng tabs)]" "saved w' st'"
    and c: "firstLevelFiles st' = [c]"
    and gone: "\<And>f. f \<in> set (firstLevelFiles st) \<Longrightarrow> files w' f = None"
    and dir: "dataFilesDirectory st' = dataFilesDirectory st"
    by (rule RunCompaction_calm [OF assms(1,2,4)]) blast
  note i = disk_invD [OF inv(1)]
  let ?st'' = "reopened (dataFilesDirectory st) bl (firstLevelFiles st') (st_manifest st')
    [(blockLength st, merged rng tabs)]"
  have "NewSsTable \<lparr>DataFilesDirectory = dataFilesDirectory st, BlockLength = bl\<rparr> w' = (Inr ?st'', w')"
    using NewSsTable_reopen [OF i(1,2) assms(3) _ i(3)] manifest_read_saved [OF inv(2)] by (simp add: dir)
  moreover have "sst_inv w' ?st'' [(blockLength st, merged rng tabs)]"
    using reopened_sst_inv [OF inv(1)] by (simp add: dir)
  moreover have "map_of (merged rng tabs) = sst_map tabs"
    by (rule merged_facts [OF assms(2) disk_invD(2) [OF assms(1)]])
  ultimately show ?thesis
    using run c gone by (auto simp: SsTable_PrefixScan_tables sst_map_Cons)
qed

theorem compaction_preserves_contents_witness:
  "\<exists>c st' w' st''.
    RunCompaction ordered_range (tables_state ''d'' 10 four_tables) (tables_world ''d'' 10 four_tables)
      = (Inr (), st', w')
    \<and> firstLevelFiles st' = [c]
    \<and> (\<forall>f \<in> set (firstLevelFiles (tables_state ''d'' 10 four_tables)). files w' f = None)
    \<and> NewSsTable \<lparr>DataFilesDirectory = dataFilesDirectory (tables_state ''d'' 10 four_tables),
        BlockLength = 10\<rparr> w' = (Inr st'', w')
    \<and> SsTable_PrefixScan st'' ''a'' w' = Inr (sst_map four_tables |` {k. HasPrefix k ''a''})"
  by (rule compaction_preserves_contents
        [OF sst_invD(1) [OF tables_state_inv(1) [OF four_tables_ok]] rng_ok_ordered_range])
     (simp_all add: tables_state_def merged_four_tables file_bytes_def file_index_def kv_bytes_def)

text \<open>C35: After a compaction the offsets in memory are still those of the old files. When the
  data of the first old file ends before the last block of the compacted file starts, looking up
  any key of that last block panics until the program is restarted.\<close>

theorem compaction_stale_offsets:
  assumes "sst_inv w st (t # tabs)" and "rng_ok rng"
    and "fits32 (length (file_bytes (blockLength st) (merged rng (t # tabs))))"
    and "merged rng (t # tabs) \<noteq> []"
    and "ikey (last (file_index (blockLength st) (merged rng (t # tabs)))) \<le> key"
    and "length (data_bytes (snd t)) + 1 <
      ioffset (last (file_index (blockLength st) (merged rng (t # tabs))))"
  shows "\<exists>st' w'. RunCompaction rng st w = (Inr (), st', w')
    \<and> SsTable_Get st' key w' = Inl makeslice_panic"
proof -
  let ?kvs = "merged rng (t # tabs)" and ?bl = "blockLength st"
  obtain c st' w' where run: "RunCompaction rng st w = (Inr (), st', w')"
    and c: "firstLevelFiles st' = [c]" and ib: "indexBlocks st' = [file_index ?bl ?kvs]"
    and off: "indexOffsets st' = indexOffsets st"
    by (rule RunCompaction_calm [OF sst_invD(1) [OF assms(1)] assms(2,3)]) blast
  obtain bs where bs: "concat bs = ?kvs" "\<forall>b \<in> set bs. b \<noteq> []" "file_index ?bl ?kvs = index_of_chunks 0 bs"
    by (rule file_chunks)
  have sorted: "sorted (map ikey (index_of_chunks 0 bs))"
    using merged_facts(2) [OF assms(2) disk_invD(2) [OF sst_invD(1) [OF assms(1)]]] bs
    by (intro sorted_index_of_chunks) simp_all
  define n where "n = length bs"
  have n: "0 < n"
    using assms(4) bs(1) by (auto simp: n_def)
  have last: "last (index_of_chunks 0 bs) = index_of_chunks 0 bs ! (n - 1)"
    using n by (subst last_conv_nth) (auto simp: n_def)
  have "n - 1 < blocks_below key (index_of_chunks 0 bs)"
    using blocks_below_nth [OF sorted, of "n - 1" key] assms(5) n by (simp add: bs(3) last n_def)
  then have "blocks_below key (index_of_chunks 0 bs) = n"
    using blocks_below_le [of key "index_of_chunks 0 bs"] by (simp add: n_def)
  then have lb: "getLowerBound key (index_of_chunks 0 bs) = int n - 1"
    by (simp add: getLowerBound_eq [OF sorted])
  have "indexOffsets st ! 0 = length (data_bytes (snd t))" "indexOffsets st \<noteq> []"
    using sst_invD(2) [OF assms(1)] by (simp_all add: indexed_def)
  moreover have "nat (int n - 1) = n - 1"
    using n by simp
  ultimately have "SsTable_Get st' key w' = Inl makeslice_panic"
    using assms(6) n unfolding bs(3) last
    by (simp add: SsTable_Get_def c ib off bs(3) lb get_from_file_def n_def [symmetric]
        getValueFromSsTableDataBlock_def)
  with run show ?thesis
    by simp
qed

theorem compaction_stale_offsets_witness:
  "\<exists>st' w'. RunCompaction ordered_range (tables_state ''d'' 10 four_tables)
      (tables_world ''d'' 10 four_tables) = (Inr (), st', w')
    \<and> SsTable_Get st' ''c'' w' = Inl makeslice_panic"
proof (rule compaction_stale_offsets [OF _ rng_ok_ordered_range])
  show "sst_inv (tables_world ''d'' 10 four_tables) (tables_state ''d'' 10 four_tables)
      ((10, [(''a'', ''1'')]) # tl four_tables)"
    using tables_state_inv(1) [OF four_tables_ok] by (simp add: four_tables_def)
  have tabs: "(10, [(''a'', ''1'')]) # tl four_tables = four_tables"
    by (simp add: four_tables_def)
  have m: "merged ordered_range ((10, [(''a'', ''1'')]) # tl four_tables) =
      [(''a'', ''4''), (''b'', ''2''), (''c'', ''3''), (''d'', ''5'')]"
    unfolding tabs by (rule merged_four_tables)
  show "fits32 (length (file_bytes (blockLength (tables_state ''d'' 10 four_tables))
      (merged ordered_range ((10, [(''a'', ''1'')]) # tl four_tables))))"
    unfolding m by (simp add: tables_state_def file_bytes_def file_index_def kv_bytes_def)
qed (simp_all add: tables_state_def merged_four_tables [unfolded four_tables_def] four_tables_def
      file_index_def kv_bytes_def)

end
