(* ===== verification/Lsm_Steps.thy ===== *)
theory Lsm_Steps
  imports Compaction
begin

text \<open>
  Flushes and one compaction, interleaved: each step is one critical section of
  \<^verbatim>\<open>sstable.go\<close> or \<^verbatim>\<open>compaction.go\<close>. A flush is \<open>NewFile\<close> and then \<open>Write\<close> (the
  caller holds \<open>db.mu\<close>, so there is one at a time); the compaction goroutine goes through
  its phases. The contents of a run are the pairs of its flushes, later ones winning; the
  invariant says that the tables on disk and the manifest give exactly these contents in every
  reachable state, so a crash at any point loses no finished flush.
\<close>

datatype phase =
    Idle
  | Snapshot "string list"
  | Built "string list" "(string \<times> string) list"
  | Written "string list" string nat "indexBlockEntry list"
  | Swapped "string list"

record lsm =
  lsm_st :: SsTable
  lsm_world :: world
  flushing :: "string option"
  compaction :: phase

text \<open>The pairs that a step publishes; no pairs for the steps of the compaction.\<close>

inductive lsm_step :: "map_range \<Rightarrow> lsm \<Rightarrow> (string \<times> string) list \<Rightarrow> lsm \<Rightarrow> bool"
  for rng :: map_range where
  flush_file:
    "flushing s = None \<Longrightarrow> NewFile (lsm_st s) (lsm_world s) = (Inr f, st', w') \<Longrightarrow>
     lsm_step rng s [] (s\<lparr>lsm_st := st', lsm_world := w', flushing := Some f\<rparr>)"
| flush_write:
    "flushing s = Some f \<Longrightarrow> table_ok (blockLength (lsm_st s)) kvs \<Longrightarrow>
     SsTable_Write f kvs (lsm_st s) (lsm_world s) = (Inr (), st', w') \<Longrightarrow>
     lsm_step rng s kvs (s\<lparr>lsm_st := st', lsm_world := w', flushing := None\<rparr>)"
| compact_begin:
    "compaction s = Idle \<Longrightarrow> ShouldRunCompaction (lsm_st s) \<Longrightarrow>
     compaction_begin (lsm_st s) = (st', fs) \<Longrightarrow>
     lsm_step rng s [] (s\<lparr>lsm_st := st', compaction := Snapshot fs\<rparr>)"
| compact_build:
    "compaction s = Snapshot fs \<Longrightarrow> compaction_build rng fs (lsm_world s) = Inr kvs \<Longrightarrow>
     lsm_step rng s [] (s\<lparr>compaction := Built fs kvs\<rparr>)"
| compact_write:
    "compaction s = Built fs kvs \<Longrightarrow> fits32 (length (file_bytes (blockLength (lsm_st s)) kvs)) \<Longrightarrow>
     compaction_write kvs (lsm_st s) (lsm_world s) = (Inr (c, off, ib), st', w') \<Longrightarrow>
     lsm_step rng s [] (s\<lparr>lsm_st := st', lsm_world := w', compaction := Written fs c off ib\<rparr>)"
| compact_swap:
    "compaction s = Written fs c off ib \<Longrightarrow>
     atomicSwap c fs ib off (lsm_st s) (lsm_world s) = (st', w') \<Longrightarrow>
     lsm_step rng s [] (s\<lparr>lsm_st := st', lsm_world := w', compaction := Swapped fs\<rparr>)"
| compact_end:
    "compaction s = Swapped fs \<Longrightarrow>
     lsm_step rng s [] (s\<lparr>lsm_st := (lsm_st s)\<lparr>compacting := False\<rparr>,
                          lsm_world := remove_files fs (lsm_world s), compaction := Idle\<rparr>)"

inductive lsm_run :: "map_range \<Rightarrow> lsm \<Rightarrow> (string \<rightharpoonup> string) \<Rightarrow> lsm \<Rightarrow> bool"
  for rng :: map_range and s0 :: lsm where
  start: "lsm_run rng s0 Map.empty s0"
| step: "lsm_run rng s0 m s \<Longrightarrow> lsm_step rng s kvs s' \<Longrightarrow> lsm_run rng s0 (m ++ map_of kvs) s'"

subsection \<open>Invariant\<close>

definition flush_inv :: "lsm \<Rightarrow> bool" where
  "flush_inv s = (case flushing s of
     None \<Rightarrow> True
   | Some f \<Rightarrow> unlisted (lsm_st s) f \<and> files (lsm_world s) f = Some [])"

text \<open>A snapshot is a prefix of the list of files, holding the oldest tables.\<close>

definition comp_inv :: "map_range \<Rightarrow> lsm \<Rightarrow> sorted_table list \<Rightarrow> bool" where
  "comp_inv rng s tabs = (case compaction s of
     Idle \<Rightarrow> True
   | Snapshot fs \<Rightarrow> take (length fs) (firstLevelFiles (lsm_st s)) = fs
   | Built fs kvs \<Rightarrow> take (length fs) (firstLevelFiles (lsm_st s)) = fs
       \<and> kvs = merged rng (take (length fs) tabs)
   | Written fs c off ib \<Rightarrow> take (length fs) (firstLevelFiles (lsm_st s)) = fs
       \<and> unlisted (lsm_st s) c \<and> flushing s \<noteq> Some c
       \<and> (\<exists>bl. table_file (lsm_world s) c bl (merged rng (take (length fs) tabs)))
   | Swapped fs \<Rightarrow> (\<forall>f \<in> set fs. unlisted (lsm_st s) f \<and> flushing s \<noteq> Some f))"

definition manifest_inv :: "lsm \<Rightarrow> bool" where
  "manifest_inv s \<longleftrightarrow> (\<exists>m. manifest_read (lsm_world s) (dataFilesDirectory (lsm_st s)) m
     \<and> FileNames m = firstLevelFiles (lsm_st s))"

definition lsm_inv :: "map_range \<Rightarrow> lsm \<Rightarrow> sorted_table list \<Rightarrow> bool" where
  "lsm_inv rng s tabs \<longleftrightarrow>
     disk_inv (lsm_world s) (lsm_st s) tabs \<and> manifest_inv s \<and> flush_inv s \<and> comp_inv rng s tabs"

lemma lsm_invD:
  assumes "lsm_inv rng s tabs"
  shows "disk_inv (lsm_world s) (lsm_st s) tabs" "manifest_inv s" "flush_inv s" "comp_inv rng s tabs"
  using assms by (simp_all add: lsm_inv_def)

lemma unlisted_not_next:
  "unlisted st f \<Longrightarrow> f \<noteq> tablePath (dataFilesDirectory st) (NextFileId (st_manifest st))"
  by (auto simp: unlisted_def)

lemma unlisted_not_manifest: "unlisted st f \<Longrightarrow> f \<noteq> manifestPath (dataFilesDirectory st)"
  by (auto simp: unlisted_def)

lemma unlisted_cong:
  "dataFilesDirectory st' = dataFilesDirectory st \<Longrightarrow> firstLevelFiles st' = firstLevelFiles st \<Longrightarrow>
   NextFileId (st_manifest st) \<le> NextFileId (st_manifest st') \<Longrightarrow> unlisted st f \<Longrightarrow> unlisted st' f"
  by (auto simp: unlisted_def intro: less_le_trans)

lemma listed_file:
  "disk_inv w st tabs \<Longrightarrow> f \<in> set (firstLevelFiles st) \<Longrightarrow>
   f \<noteq> tablePath (dataFilesDirectory st) (NextFileId (st_manifest st))
   \<and> f \<noteq> manifestPath (dataFilesDirectory st)"
  by (auto simp: disk_inv_def fresh_ids_def)

lemma inv_flush_file:
  assumes inv: "lsm_inv rng s tabs" and "flushing s = None"
    and new: "NewFile (lsm_st s) (lsm_world s) = (Inr f, st', w')"
  shows "lsm_inv rng (s\<lparr>lsm_st := st', lsm_world := w', flushing := Some f\<rparr>) tabs"
proof -
  note i = lsm_invD [OF inv]
  note n = NewFile_calm [OF i(1)]
  let ?next = "tablePath (dataFilesDirectory (lsm_st s)) (NextFileId (st_manifest (lsm_st s)))"
  have f: "f = ?next" and st': "st' = (lsm_st s)\<lparr>st_manifest :=
      (st_manifest (lsm_st s))\<lparr>NextFileId := NextFileId (st_manifest (lsm_st s)) + 1\<rparr>\<rparr>"
    and w': "w' = (lsm_world s)\<lparr>files := (files (lsm_world s))(?next \<mapsto> [])\<rparr>"
    using trans [OF new [symmetric] n(1)] by (simp_all only: prod.inject sum.inject)
  have un: "unlisted st' g" if "unlisted (lsm_st s) g" for g
    by (rule unlisted_cong [OF _ _ _ that]) (simp_all add: st')
  have "comp_inv rng (s\<lparr>lsm_st := st', lsm_world := w', flushing := Some f\<rparr>) tabs"
    using i(4) un unlisted_not_next table_file_upd
    by (fastforce simp: comp_inv_def f st' w' split: phase.splits)
  moreover have "manifest_inv (s\<lparr>lsm_st := st', lsm_world := w', flushing := Some f\<rparr>)"
    using i(2) by (simp add: manifest_inv_def st' w' manifest_read_upd)
  ultimately show ?thesis
    using n(2,3) by (simp add: lsm_inv_def flush_inv_def f st' w')
qed

lemma take_same_length: "take (length fs) xs = fs \<Longrightarrow> length fs \<le> length xs"
  by (metis length_take min.cobounded1)

lemma take_append_same: "take (length fs) xs = fs \<Longrightarrow> take (length fs) (xs @ ys) = fs"
  by (simp add: take_same_length)

lemma take_tabs:
  "stored w names tabs \<Longrightarrow> take (length fs) names = fs \<Longrightarrow> length fs \<le> length tabs"
  by (metis length_take min.cobounded1 stored_length)

lemma inv_flush_write:
  assumes inv: "lsm_inv rng s tabs" and fl: "flushing s = Some f"
    and ok: "table_ok (blockLength (lsm_st s)) kvs"
    and wr: "SsTable_Write f kvs (lsm_st s) (lsm_world s) = (Inr (), st', w')"
  shows "lsm_inv rng (s\<lparr>lsm_st := st', lsm_world := w', flushing := None\<rparr>)
    (tabs @ [(blockLength (lsm_st s), kvs)])"
proof -
  note i = lsm_invD [OF inv]
  have un: "unlisted (lsm_st s) f" and empty: "files (lsm_world s) f = Some []"
    using i(3) fl by (simp_all add: flush_inv_def)
  note W = SsTable_Write_calm [OF i(1) ok un empty]
  have st': "st' = written_state f kvs (lsm_st s)" and w': "w' = written_world f kvs (lsm_st s) (lsm_world s)"
    using trans [OF wr [symmetric] W(1)] by (simp_all only: prod.inject)
  let ?s' = "s\<lparr>lsm_st := st', lsm_world := w', flushing := None\<rparr>"
  have other: "table_file w' c bl kvs'" if "table_file (lsm_world s) c bl kvs'"
    "unlisted (lsm_st s) c" "c \<noteq> f" for c bl kvs'
    using that unlisted_not_manifest [OF that(2)]
    by (simp add: w' written_world_def table_file_def)
  have still: "unlisted st' c" if "unlisted (lsm_st s) c" "c \<noteq> f" for c
    using that by (simp add: unlisted_def st' written_state_def)
  have "comp_inv rng ?s' (tabs @ [(blockLength (lsm_st s), kvs)])"
  proof (cases "compaction s")
    case Idle
    then show ?thesis by (simp add: comp_inv_def)
  next
    case (Snapshot fs)
    then show ?thesis
      using i(4) by (simp add: comp_inv_def st' written_state_def take_same_length)
  next
    case (Built fs kvs')
    then show ?thesis
      using i(4) take_tabs [OF disk_invD(2) [OF i(1)]]
      by (simp add: comp_inv_def st' written_state_def take_same_length)
  next
    case (Written fs c off ib)
    then obtain bl where fs: "take (length fs) (firstLevelFiles (lsm_st s)) = fs"
      and c: "unlisted (lsm_st s) c" "c \<noteq> f"
      and tf: "table_file (lsm_world s) c bl (merged rng (take (length fs) tabs))"
      using i(4) fl by (auto simp: comp_inv_def)
    have "length fs \<le> length tabs"
      by (rule take_tabs [OF disk_invD(2) [OF i(1)] fs])
    moreover have "take (length fs) (firstLevelFiles st') = fs"
      using fs by (simp add: st' written_state_def take_same_length)
    ultimately show ?thesis
      using Written still [OF c] other [OF tf c] by (auto simp: comp_inv_def)
  next
    case (Swapped fs)
    then show ?thesis
      using i(4) fl still by (auto simp: comp_inv_def)
  qed
  moreover have "manifest_inv ?s'"
    using manifest_read_saved [OF W(3)] disk_invD(3) [OF W(2)]
    unfolding manifest_inv_def st' w' by auto
  ultimately show ?thesis
    using W(2) by (simp add: lsm_inv_def flush_inv_def st' w')
qed

lemma inv_compact_begin:
  assumes inv: "lsm_inv rng s tabs" and "compaction_begin (lsm_st s) = (st', fs)"
  shows "lsm_inv rng (s\<lparr>lsm_st := st', compaction := Snapshot fs\<rparr>) tabs"
proof -
  have st': "st' = (lsm_st s)\<lparr>compacting := True\<rparr>" and fs: "fs = firstLevelFiles (lsm_st s)"
    using assms(2) by (auto simp: compaction_begin_def)
  have "unlisted st' f \<longleftrightarrow> unlisted (lsm_st s) f" for f
    by (simp add: unlisted_def st')
  then show ?thesis
    using inv
    by (simp add: lsm_inv_def disk_inv_def manifest_inv_def flush_inv_def comp_inv_def st' fs
        split: option.splits)
qed

lemma stored_take: "stored w names tabs \<Longrightarrow> stored w (take n names) (take n tabs)"
  by (simp add: stored_def list_all2_takeI)

lemma inv_compact_build:
  assumes inv: "lsm_inv rng s tabs" and "compaction s = Snapshot fs"
    and build: "compaction_build rng fs (lsm_world s) = Inr kvs"
  shows "lsm_inv rng (s\<lparr>compaction := Built fs kvs\<rparr>) tabs"
proof -
  note i = lsm_invD [OF inv]
  have fs: "take (length fs) (firstLevelFiles (lsm_st s)) = fs"
    using i(4) assms(2) by (simp add: comp_inv_def)
  have "stored (lsm_world s) fs (take (length fs) tabs)"
    using stored_take [OF disk_invD(2) [OF i(1)], of "length fs"] by (simp add: fs)
  then have "kvs = merged rng (take (length fs) tabs)"
    using compaction_build_stored [OF disk_invD(1) [OF i(1)]] build by simp
  then show ?thesis
    using i fs
    by (simp add: lsm_inv_def manifest_inv_def flush_inv_def comp_inv_def split: option.splits)
qed

lemma built_table_ok:
  assumes inv: "lsm_inv rng s tabs" and rng: "rng_ok rng" and built: "compaction s = Built fs kvs"
    and fits: "fits32 (length (file_bytes (blockLength (lsm_st s)) kvs))"
  shows "table_ok (blockLength (lsm_st s)) kvs"
proof -
  note i = lsm_invD [OF inv]
  have fs: "take (length fs) (firstLevelFiles (lsm_st s)) = fs"
    and kvs: "kvs = merged rng (take (length fs) tabs)"
    using i(4) built by (simp_all add: comp_inv_def)
  have "stored (lsm_world s) fs (take (length fs) tabs)"
    using stored_take [OF disk_invD(2) [OF i(1)], of "length fs"] by (simp add: fs)
  then show ?thesis
    using merged_facts [OF rng] fits by (simp add: table_ok_def kvs)
qed

lemma inv_compact_write:
  assumes inv: "lsm_inv rng s tabs" and rng: "rng_ok rng" and built: "compaction s = Built fs kvs"
    and fits: "fits32 (length (file_bytes (blockLength (lsm_st s)) kvs))"
    and wr: "compaction_write kvs (lsm_st s) (lsm_world s) = (Inr (c, off, ib), st', w')"
  shows "lsm_inv rng (s\<lparr>lsm_st := st', lsm_world := w', compaction := Written fs c off ib\<rparr>) tabs"
proof -
  note i = lsm_invD [OF inv]
  have fs: "take (length fs) (firstLevelFiles (lsm_st s)) = fs"
    and kvs: "kvs = merged rng (take (length fs) tabs)"
    using i(4) built by (simp_all add: comp_inv_def)
  have ok: "table_ok (blockLength (lsm_st s)) kvs"
    by (rule built_table_ok [OF inv rng built fits])
  note W = compaction_write_calm [OF i(1) ok refl refl refl]
  let ?next = "tablePath (dataFilesDirectory (lsm_st s)) (NextFileId (st_manifest (lsm_st s)))"
  have eqs: "c = ?next" "st' = (lsm_st s)\<lparr>st_manifest :=
      (st_manifest (lsm_st s))\<lparr>NextFileId := NextFileId (st_manifest (lsm_st s)) + 1\<rparr>\<rparr>"
    "w' = (lsm_world s)\<lparr>files := (files (lsm_world s))
      (?next \<mapsto> file_bytes (blockLength (lsm_st s)) kvs)\<rparr>"
    using trans [OF wr [symmetric] W(1)] by (simp_all only: prod.inject sum.inject)
  have un: "unlisted st' g" if "unlisted (lsm_st s) g" for g
    by (rule unlisted_cong [OF _ _ _ that]) (simp_all add: eqs)
  have c: "unlisted st' c"
    using fresh_not_in [OF disk_invD(4) [OF i(1)]] by (auto simp: unlisted_def eqs)
  have tf: "table_file w' c (blockLength (lsm_st s)) kvs"
    by (rule table_file_written [OF ok]) (simp add: eqs)
  have flushed: "flush_inv (s\<lparr>lsm_st := st', lsm_world := w', compaction := Written fs c off ib\<rparr>)"
    and differ: "flushing s \<noteq> Some c"
    using i(3) un unlisted_not_next [of "lsm_st s"]
    by (auto simp: flush_inv_def eqs split: option.splits)
  have "manifest_inv (s\<lparr>lsm_st := st', lsm_world := w', compaction := Written fs c off ib\<rparr>)"
    using i(2) by (simp add: manifest_inv_def eqs manifest_read_upd)
  moreover have "comp_inv rng (s\<lparr>lsm_st := st', lsm_world := w', compaction := Written fs c off ib\<rparr>) tabs"
    using fs c differ tf by (auto simp: comp_inv_def eqs(2) kvs)
  ultimately show ?thesis
    using W(2) flushed by (simp add: lsm_inv_def eqs)
qed

lemma inv_compact_swap:
  assumes inv: "lsm_inv rng s tabs" and rng: "rng_ok rng" and ph: "compaction s = Written fs c off ib"
    and swap: "atomicSwap c fs ib off (lsm_st s) (lsm_world s) = (st', w')"
  obtains bl where "lsm_inv rng (s\<lparr>lsm_st := st', lsm_world := w', compaction := Swapped fs\<rparr>)
      ((bl, merged rng (take (length fs) tabs)) # drop (length fs) tabs)"
    and "sst_map ((bl, merged rng (take (length fs) tabs)) # drop (length fs) tabs) = sst_map tabs"
proof -
  note i = lsm_invD [OF inv]
  obtain bl where fs: "take (length fs) (firstLevelFiles (lsm_st s)) = fs"
    and c: "unlisted (lsm_st s) c" "flushing s \<noteq> Some c"
    and tf: "table_file (lsm_world s) c bl (merged rng (take (length fs) tabs))"
    using i(4) ph by (auto simp: comp_inv_def)
  let ?tabs = "(bl, merged rng (take (length fs) tabs)) # drop (length fs) tabs"
  obtain rest where names: "firstLevelFiles (lsm_st s) = fs @ rest"
    using fs by (metis append_take_drop_id)
  have dist: "distinct (fs @ rest)"
    using disk_invD(4) [OF i(1)] by (simp add: fresh_ids_def names)
  have len: "length fs \<le> length tabs" "length rest = length (drop (length fs) tabs)"
    using stored_length [OF disk_invD(2) [OF i(1)]] by (simp_all add: names)
  have kept: "kept fs (firstLevelFiles (lsm_st s)) tabs = drop (length fs) tabs"
    and filtered: "filter (\<lambda>n. n \<notin> set fs) (firstLevelFiles (lsm_st s)) = rest"
    using kept_prefix [OF dist, of "take (length fs) tabs" "drop (length fs) tabs"] len
    by (simp_all add: names)
  note S = atomicSwap_calm [OF i(1) c(1) tf swap, unfolded kept filtered]
  have un: "unlisted st' f" if "unlisted (lsm_st s) f" "f \<noteq> c" for f
    using that S(3-6) by (auto simp: unlisted_def names)
  have old: "unlisted st' f \<and> flushing s \<noteq> Some f" if f: "f \<in> set fs" for f
  proof -
    have mem: "f \<in> set (firstLevelFiles (lsm_st s))"
      using f by (simp add: names)
    then have "f \<noteq> c" "flushing s \<noteq> Some f"
      using c(1) i(3) by (auto simp: unlisted_def flush_inv_def)
    moreover have "f \<notin> set rest"
      using dist f by auto
    moreover have "\<exists>j < NextFileId (st_manifest (lsm_st s)).
        f = tablePath (dataFilesDirectory (lsm_st s)) j"
      using disk_invD(4) [OF i(1)] mem by (simp add: fresh_ids_def)
    ultimately show ?thesis
      using S(3-6) by (simp add: unlisted_def)
  qed
  have "flush_inv (s\<lparr>lsm_st := st', lsm_world := w', compaction := Swapped fs\<rparr>)"
    using i(3) c(2) un S(7) unlisted_not_manifest
    by (fastforce simp: flush_inv_def split: option.splits)
  moreover have "manifest_inv (s\<lparr>lsm_st := st', lsm_world := w', compaction := Swapped fs\<rparr>)"
    using manifest_read_saved [OF S(2)] disk_invD(3) [OF S(1)] by (auto simp: manifest_inv_def)
  moreover have "comp_inv rng (s\<lparr>lsm_st := st', lsm_world := w', compaction := Swapped fs\<rparr>) ?tabs"
    using old by (simp add: comp_inv_def)
  ultimately have "lsm_inv rng (s\<lparr>lsm_st := st', lsm_world := w', compaction := Swapped fs\<rparr>) ?tabs"
    using S(1) by (simp add: lsm_inv_def)
  moreover have "sst_map ?tabs = sst_map tabs"
    using merged_facts(1) [OF rng stored_take [OF disk_invD(2) [OF i(1)]]]
    by (simp add: sst_map_Cons flip: sst_map_append)
  ultimately show ?thesis
    by (rule that)
qed

lemma inv_compact_end:
  assumes inv: "lsm_inv rng s tabs" and ph: "compaction s = Swapped fs"
  shows "lsm_inv rng (s\<lparr>lsm_st := (lsm_st s)\<lparr>compacting := False\<rparr>,
      lsm_world := remove_files fs (lsm_world s), compaction := Idle\<rparr>) tabs"
proof -
  note i = lsm_invD [OF inv]
  have old: "\<And>f. f \<in> set fs \<Longrightarrow> unlisted (lsm_st s) f \<and> flushing s \<noteq> Some f"
    using i(4) ph by (simp add: comp_inv_def)
  note rm = remove_files_calm [OF disk_invD(1) [OF i(1)], of fs]
  have keep: "files (remove_files fs (lsm_world s)) f = files (lsm_world s) f" if "f \<notin> set fs" for f
    using that by (simp add: rm)
  have mp: "manifestPath (dataFilesDirectory (lsm_st s)) \<notin> set fs"
    using old unlisted_not_manifest by blast
  have listed: "f \<notin> set fs" if "f \<in> set (firstLevelFiles (lsm_st s))" for f
    using old that by (auto simp: unlisted_def)
  have "stored (remove_files fs (lsm_world s)) (firstLevelFiles (lsm_st s)) tabs"
    using disk_invD(2) [OF i(1)] unfolding stored_def
    by (rule list.rel_mono_strong)
       (use listed keep in \<open>auto simp: table_file_def\<close>)
  then have "disk_inv (remove_files fs (lsm_world s)) ((lsm_st s)\<lparr>compacting := False\<rparr>) tabs"
    using disk_invD [OF i(1)] by (simp add: disk_inv_def fresh_ids_def rm)
  moreover have "flush_inv (s\<lparr>lsm_st := (lsm_st s)\<lparr>compacting := False\<rparr>,
      lsm_world := remove_files fs (lsm_world s), compaction := Idle\<rparr>)"
    using i(3) old by (auto simp: flush_inv_def rm unlisted_def split: option.splits)
  ultimately show ?thesis
    using i(2) mp by (simp add: lsm_inv_def manifest_inv_def manifest_read_def comp_inv_def keep)
qed

lemma lsm_step_inv:
  assumes "lsm_step rng s kvs s'" and "rng_ok rng" and "lsm_inv rng s tabs"
  shows "\<exists>tabs'. lsm_inv rng s' tabs' \<and> sst_map tabs' = sst_map tabs ++ map_of kvs"
  using assms(1,3)
proof (cases rule: lsm_step.cases)
  case (flush_file f st' w')
  then show ?thesis
    using inv_flush_file [OF assms(3)] by auto
next
  case (flush_write f st' w')
  then show ?thesis
    using inv_flush_write [OF assms(3), of f kvs st' w']
    by (auto intro!: exI [of _ "tabs @ [(blockLength (lsm_st s), kvs)]"])
next
  case (compact_begin st' fs)
  then show ?thesis
    using inv_compact_begin [OF assms(3)] by auto
next
  case (compact_build fs kvs')
  then show ?thesis
    using inv_compact_build [OF assms(3)] by auto
next
  case (compact_write fs kvs' c off ib st' w')
  then show ?thesis
    using inv_compact_write [OF assms(3,2)] by auto
next
  case (compact_swap fs c off ib st' w')
  note c = this
  obtain bl where "lsm_inv rng (s\<lparr>lsm_st := st', lsm_world := w', compaction := Swapped fs\<rparr>)
      ((bl, merged rng (take (length fs) tabs)) # drop (length fs) tabs)"
    and "sst_map ((bl, merged rng (take (length fs) tabs)) # drop (length fs) tabs) = sst_map tabs"
    by (rule inv_compact_swap [OF assms(3,2) c(3,4)])
  then show ?thesis
    using c(1,2) by auto
next
  case (compact_end fs)
  then show ?thesis
    using inv_compact_end [OF assms(3)] by auto
qed

lemma lsm_run_inv:
  assumes "lsm_run rng s0 m s" and "rng_ok rng" and "lsm_inv rng s0 tabs"
  shows "\<exists>tabs'. lsm_inv rng s tabs' \<and> sst_map tabs' = sst_map tabs ++ m"
  using assms(1)
proof induction
  case start
  with assms(3) show ?case
    by auto
next
  case (step m s kvs s')
  then obtain t1 where t1: "lsm_inv rng s t1" "sst_map t1 = sst_map tabs ++ m"
    by auto
  from lsm_step_inv [OF step.hyps(2) assms(2) t1(1)] t1(2) show ?case
    by auto
qed

text \<open>The state with no flush and no compaction under way.\<close>

definition quiet :: "SsTable \<Rightarrow> world \<Rightarrow> lsm" where
  "quiet st w = \<lparr>lsm_st = st, lsm_world = w, flushing = None, compaction = Idle\<rparr>"

lemma quiet_inv:
  assumes "disk_inv w st tabs" and "saved w st"
  shows "lsm_inv rng (quiet st w) tabs"
  using assms manifest_read_saved [OF assms(2)] disk_invD(3) [OF assms(1)]
  by (auto simp: lsm_inv_def quiet_def manifest_inv_def flush_inv_def comp_inv_def)

text \<open>Where a compaction can begin, the steps of a run can be taken one after the other.\<close>

lemma lsm_run_trans:
  "lsm_run rng s1 m2 s2 \<Longrightarrow> lsm_run rng s0 m1 s1 \<Longrightarrow> lsm_run rng s0 (m1 ++ m2) s2"
proof (induction rule: lsm_run.induct)
  case start
  then show ?case by simp
next
  case (step m s kvs s')
  then show ?case
    using lsm_run.step [of rng s0 "m1 ++ m" s kvs s'] by simp
qed

text \<open>A start on the files of a reachable state.\<close>

lemma lsm_reopen:
  assumes inv: "lsm_inv rng s tabs" and "dataFilesDirectory (lsm_st s) \<noteq> ''''"
  obtains st' where "NewSsTable \<lparr>DataFilesDirectory = dataFilesDirectory (lsm_st s), BlockLength = bl\<rparr>
      (lsm_world s) = (Inr st', lsm_world s)"
    and "\<And>p. SsTable_PrefixScan st' p (lsm_world s) = Inr (sst_map tabs |` {k. HasPrefix k p})"
proof -
  note i = disk_invD [OF lsm_invD(1) [OF inv]]
  let ?dir = "dataFilesDirectory (lsm_st s)"
  obtain man where man: "manifest_read (lsm_world s) ?dir man" "FileNames man = firstLevelFiles (lsm_st s)"
    using lsm_invD(2) [OF inv] by (auto simp: manifest_inv_def)
  let ?st' = "reopened ?dir bl (firstLevelFiles (lsm_st s)) man tabs"
  have "NewSsTable \<lparr>DataFilesDirectory = ?dir, BlockLength = bl\<rparr> (lsm_world s) = (Inr ?st', lsm_world s)"
    by (rule NewSsTable_reopen [OF i(1,2) assms(2) man])
  moreover have "SsTable_PrefixScan ?st' p (lsm_world s) = Inr (sst_map tabs |` {k. HasPrefix k p})" for p
    using PrefixScan_loop_tables [OF i(1), of ?st' tabs "length tabs" p Map.empty] i(2)
      stored_length [OF i(2)]
    by (simp add: SsTable_PrefixScan_def indexed_def reopened_def)
  ultimately show ?thesis
    by (rule that)
qed

text \<open>C4: Whatever the interleaving of flushes with the phases of a compaction, a crash after
  any step loses nothing: restarting on the files as they are gives a table set whose prefix
  scans see exactly the old contents overridden by the finished flushes, in their order.\<close>

theorem lsm_crash_recovery:
  assumes "rng_ok rng" and "disk_inv w st tabs" and "saved w st"
    and "lsm_run rng (quiet st w) m s"
    and "dir = dataFilesDirectory (lsm_st s)" and "dir \<noteq> ''''"
  shows "\<exists>st'. NewSsTable \<lparr>DataFilesDirectory = dir, BlockLength = bl\<rparr> (lsm_world s) =
      (Inr st', lsm_world s)
    \<and> SsTable_PrefixScan st' p (lsm_world s) = Inr ((sst_map tabs ++ m) |` {k. HasPrefix k p})"
proof -
  obtain tabs' where inv: "lsm_inv rng s tabs'" and tabs': "sst_map tabs' = sst_map tabs ++ m"
    using lsm_run_inv [OF assms(4,1) quiet_inv [OF assms(2,3)]] by auto
  show ?thesis
    by (rule lsm_reopen [OF inv, of bl]) (use assms(5,6) tabs' in auto)
qed

text \<open>A run in which a flush comes between the snapshot and the swap.\<close>

lemma interleaved_run:
  assumes inv: "disk_inv w st tabs" and "saved w st" and should: "ShouldRunCompaction st"
    and ok: "table_ok (blockLength st) kvs" and rng: "rng_ok rng"
    and fits: "fits32 (length (file_bytes (blockLength st) (merged rng tabs)))"
  shows "\<exists>s. lsm_run rng (quiet st w) (map_of kvs) s \<and> compaction s = Idle
    \<and> dataFilesDirectory (lsm_st s) = dataFilesDirectory st
    \<and> length (firstLevelFiles (lsm_st s)) = 2"
proof -
  let ?fs = "firstLevelFiles st"
  define s1 where "s1 = (quiet st w)\<lparr>lsm_st := st\<lparr>compacting := True\<rparr>, compaction := Snapshot ?fs\<rparr>"
  have r1: "lsm_run rng (quiet st w) Map.empty s1"
    using lsm_run.step [OF lsm_run.start lsm_step.compact_begin [of "quiet st w"]] should
    by (simp add: quiet_def compaction_begin_def s1_def)
  have i1: "lsm_inv rng s1 tabs"
    using inv_compact_begin [OF quiet_inv [OF inv assms(2)]]
    by (simp add: compaction_begin_def quiet_def s1_def)
  note n = NewFile_calm [OF lsm_invD(1) [OF i1]]
  define s2 where "s2 = s1\<lparr>lsm_st := fst (snd (NewFile (lsm_st s1) (lsm_world s1))),
      lsm_world := snd (snd (NewFile (lsm_st s1) (lsm_world s1))),
      flushing := Some (tablePath (dataFilesDirectory (lsm_st s1)) (NextFileId (st_manifest (lsm_st s1))))\<rparr>"
  have fl: "flushing s1 = None"
    by (simp add: s1_def quiet_def)
  have r2: "lsm_run rng (quiet st w) Map.empty s2"
    using lsm_run.step [OF r1 lsm_step.flush_file [OF fl n(1)]] n(1) by (simp add: s2_def)
  have i2: "lsm_inv rng s2 tabs"
    using inv_flush_file [OF i1 fl n(1)] n(1) by (simp add: s2_def)
  obtain f where f: "flushing s2 = Some f" "unlisted (lsm_st s2) f" "files (lsm_world s2) f = Some []"
    using lsm_invD(3) [OF i2] by (simp add: flush_inv_def s2_def)
  have same: "blockLength (lsm_st s2) = blockLength st" "firstLevelFiles (lsm_st s2) = ?fs"
    "dataFilesDirectory (lsm_st s2) = dataFilesDirectory st" "compaction s2 = Snapshot ?fs"
    using n(1) by (simp_all add: s2_def s1_def quiet_def)
  have ok2: "table_ok (blockLength (lsm_st s2)) kvs"
    using ok same by simp
  note W = SsTable_Write_calm [OF lsm_invD(1) [OF i2] ok2 f(2,3)]
  define s3 where "s3 = s2\<lparr>lsm_st := written_state f kvs (lsm_st s2),
      lsm_world := written_world f kvs (lsm_st s2) (lsm_world s2), flushing := None\<rparr>"
  have r3: "lsm_run rng (quiet st w) (map_of kvs) s3"
    using lsm_run.step [OF r2 lsm_step.flush_write [OF f(1) ok2 W(1)]] by (simp add: s3_def)
  have i3: "lsm_inv rng s3 (tabs @ [(blockLength st, kvs)])"
    using inv_flush_write [OF i2 f(1) ok2 W(1)] same(1) by (simp add: s3_def)
  have s3: "blockLength (lsm_st s3) = blockLength st" "firstLevelFiles (lsm_st s3) = ?fs @ [f]"
    "dataFilesDirectory (lsm_st s3) = dataFilesDirectory st" "compaction s3 = Snapshot ?fs"
    using same by (simp_all add: s3_def written_state_def)
  note d3 = disk_invD [OF lsm_invD(1) [OF i3]]
  have len: "length ?fs = length tabs"
    by (rule stored_length [OF disk_invD(2) [OF inv]])
  have "stored (lsm_world s3) ?fs tabs"
    using stored_take [OF d3(2), of "length ?fs"] by (simp add: s3 len)
  then have build: "compaction_build rng ?fs (lsm_world s3) = Inr (merged rng tabs)"
    and okm: "table_ok (blockLength (lsm_st s3)) (merged rng tabs)"
    using compaction_build_stored [OF d3(1)] merged_facts [OF rng] fits
    by (simp_all add: table_ok_def s3)
  define s4 where "s4 = s3\<lparr>compaction := Built ?fs (merged rng tabs)\<rparr>"
  have r4: "lsm_run rng (quiet st w) (map_of kvs) s4"
    using lsm_run.step [OF r3 lsm_step.compact_build [OF s3(4) build]] by (simp add: s4_def)
  have i4: "disk_inv (lsm_world s4) (lsm_st s4) (tabs @ [(blockLength st, kvs)])"
    using lsm_invD(1) [OF i3] by (simp add: s4_def)
  have ok4: "table_ok (blockLength (lsm_st s4)) (merged rng tabs)"
    using okm by (simp add: s4_def)
  obtain c off ib st5 w5 where C: "compaction_write (merged rng tabs) (lsm_st s4) (lsm_world s4) =
      (Inr (c, off, ib), st5, w5)" and st5: "firstLevelFiles st5 = ?fs @ [f]"
      "dataFilesDirectory st5 = dataFilesDirectory st"
    using compaction_write_calm(1) [OF i4 ok4 refl refl refl] s3 by (simp add: s4_def)
  define s5 where "s5 = s4\<lparr>lsm_st := st5, lsm_world := w5, compaction := Written ?fs c off ib\<rparr>"
  have b4: "compaction s4 = Built ?fs (merged rng tabs)"
    "fits32 (length (file_bytes (blockLength (lsm_st s4)) (merged rng tabs)))"
    using ok4 by (simp_all add: s4_def table_ok_def)
  have r5: "lsm_run rng (quiet st w) (map_of kvs) s5"
    using lsm_run.step [OF r4 lsm_step.compact_write [OF b4 C]] by (simp add: s5_def)
  obtain st6 w6 where swap: "atomicSwap c ?fs ib off st5 w5 = (st6, w6)"
    by (meson surj_pair)
  have "f \<notin> set ?fs"
    using f(2) same(2) by (simp add: unlisted_def)
  then have st6: "firstLevelFiles st6 = [c, f]" "dataFilesDirectory st6 = dataFilesDirectory st"
    using swap nth_filter_upt [of "?fs @ [f]" "\<lambda>n. n \<notin> set ?fs"] st5
    by (auto simp: atomicSwap_def Let_def split: prod.splits)
  define s6 where "s6 = s5\<lparr>lsm_st := st6, lsm_world := w6, compaction := Swapped ?fs\<rparr>"
  have r6: "lsm_run rng (quiet st w) (map_of kvs) s6"
    using lsm_run.step [OF r5 lsm_step.compact_swap [of s5 ?fs c off ib st6 w6]] swap
    by (simp add: s5_def s6_def)
  have "lsm_run rng (quiet st w) (map_of kvs) (s6\<lparr>lsm_st := (lsm_st s6)\<lparr>compacting := False\<rparr>,
      lsm_world := remove_files ?fs (lsm_world s6), compaction := Idle\<rparr>)"
    using lsm_run.step [OF r6 lsm_step.compact_end [of s6 ?fs]] by (simp add: s6_def)
  then show ?thesis
    using st6 by (intro exI conjI) (auto simp: s6_def)
qed

theorem lsm_crash_recovery_witness:
  "\<exists>s st'. lsm_run ordered_range (quiet (tables_state ''d'' 10 four_tables) (tables_world ''d'' 10 four_tables))
        (map_of [(''b'', ''new'')]) s
    \<and> length (firstLevelFiles (lsm_st s)) = 2
    \<and> NewSsTable \<lparr>DataFilesDirectory = ''d'', BlockLength = 10\<rparr> (lsm_world s) = (Inr st', lsm_world s)
    \<and> SsTable_PrefixScan st' ''b'' (lsm_world s) =
      Inr ((sst_map four_tables ++ map_of [(''b'', ''new'')]) |` {k. HasPrefix k ''b''})"
proof -
  let ?st = "tables_state ''d'' 10 four_tables" and ?w = "tables_world ''d'' 10 four_tables"
  have inv: "disk_inv ?w ?st four_tables" and saved: "saved ?w ?st"
    using tables_state_inv [OF four_tables_ok] by (simp_all add: sst_inv_def)
  have "ShouldRunCompaction ?st"
    by (simp add: ShouldRunCompaction_def tables_state_def table_names_def four_tables_def)
  moreover have bl: "blockLength ?st = 10" "dataFilesDirectory ?st = ''d''"
    by (simp_all add: tables_state_def)
  moreover have "table_ok 10 [(''b'', ''new'')]"
    by (simp add: table_ok_def file_bytes_def file_index_def kv_bytes_def)
  moreover have "fits32 (length (file_bytes 10 (merged ordered_range four_tables)))"
    by (simp add: merged_four_tables file_bytes_def file_index_def kv_bytes_def)
  ultimately obtain s where s: "lsm_run ordered_range (quiet ?st ?w) (map_of [(''b'', ''new'')]) s"
    "dataFilesDirectory (lsm_st s) = ''d''" "length (firstLevelFiles (lsm_st s)) = 2"
    using interleaved_run [OF inv saved _ _ rng_ok_ordered_range, of "[(''b'', ''new'')]"]
    by auto
  from lsm_crash_recovery [OF rng_ok_ordered_range inv saved s(1) s(2) [symmetric], of 10 "''b''"] s
  show ?thesis
    by auto
qed

end
