(* ===== verification/Txn_Locks.thy ===== *)
theory Txn_Locks
  imports Go_Prelude
begin

text \<open>
  The lock table of \<^verbatim>\<open>db/transaction.go\<close>: read and write locks per key, held by transaction
  ids, and the write buffer of a transaction. \<open>LocksAcquired\<close> values are reached through
  pointers, but every one of them is in the table under exactly one key, so updating the table
  is what updating through the pointer does. The second half is the step relation of
  transactions that run one lock operation at a time (\<open>transactionManager.mu\<close>).
\<close>

record LocksAcquired =
  writerTxnId :: "64 word"
  readerTxnIds :: "64 word list"

record transactionManager =
  nextTransactionId :: "64 word"
  keyVsLocksAcquiredMap :: "string \<rightharpoonup> LocksAcquired"

record Transaction =
  txn_id :: "64 word"
  bufferedWriteMap :: "string \<rightharpoonup> string"
  lockAcquiredKeys :: "string list"

abbreviation no_locks :: LocksAcquired where
  "no_locks \<equiv> \<lparr>writerTxnId = 0, readerTxnIds = []\<rparr>"

abbreviation WriteLockNotAcquiredDueToReadLocksError :: goerr where
  "WriteLockNotAcquiredDueToReadLocksError \<equiv>
     Errorf ''cannot acquire write lock as read lock acquired by one or more transactions''"

subsection \<open>Operations\<close>

definition Begin :: "transactionManager \<Rightarrow> Transaction \<times> transactionManager" where
  "Begin tm =
     (\<lparr>txn_id = nextTransactionId tm, bufferedWriteMap = Map.empty, lockAcquiredKeys = []\<rparr>,
      tm\<lparr>nextTransactionId := nextTransactionId tm + 1\<rparr>)"

definition tryAcquireWriteLock ::
    "string \<Rightarrow> Transaction \<Rightarrow> transactionManager \<Rightarrow> goerr + Transaction \<times> transactionManager" where
  "tryAcquireWriteLock key txn tm =
     (let acquire = (\<lambda>locks readLockAlreadyAcquired.
            (txn\<lparr>lockAcquiredKeys :=
               (if readLockAlreadyAcquired then lockAcquiredKeys txn else lockAcquiredKeys txn @ [key])\<rparr>,
             tm\<lparr>keyVsLocksAcquiredMap := (keyVsLocksAcquiredMap tm)
               (key \<mapsto> locks\<lparr>writerTxnId := txn_id txn\<rparr>)\<rparr>))
      in case keyVsLocksAcquiredMap tm key of
           None \<Rightarrow> Inr (acquire no_locks False)
         | Some locks \<Rightarrow>
             if writerTxnId locks \<noteq> 0 \<and> writerTxnId locks \<noteq> txn_id txn
             then Inl (Errorf (''cannot acquire write lock as write lock acquired by transaction ''
                       @ [CHR 0x27] @ nat_dec (unat (writerTxnId locks)) @ [CHR 0x27]))
             else if writerTxnId locks = txn_id txn then Inr (txn, tm)
             else if length (readerTxnIds locks) > 1
             then Inl WriteLockNotAcquiredDueToReadLocksError
             else if length (readerTxnIds locks) = 1 then
               if readerTxnIds locks ! 0 = txn_id txn
               then Inr (acquire (locks\<lparr>readerTxnIds := []\<rparr>) True)
               else Inl WriteLockNotAcquiredDueToReadLocksError
             else Inr (acquire locks False))"

definition tryAcquireReadLock ::
    "string \<Rightarrow> Transaction \<Rightarrow> transactionManager \<Rightarrow> goerr + Transaction \<times> transactionManager" where
  "tryAcquireReadLock key txn tm =
     (let acquire = (\<lambda>locks writeLockAlreadyAcquired.
            if txn_id txn \<in> set (readerTxnIds locks) then Inr (txn, tm)
            else Inr (txn\<lparr>lockAcquiredKeys :=
                (if writeLockAlreadyAcquired then lockAcquiredKeys txn else lockAcquiredKeys txn @ [key])\<rparr>,
              tm\<lparr>keyVsLocksAcquiredMap := (keyVsLocksAcquiredMap tm)
                (key \<mapsto> locks\<lparr>readerTxnIds := readerTxnIds locks @ [txn_id txn]\<rparr>)\<rparr>))
      in case keyVsLocksAcquiredMap tm key of
           None \<Rightarrow> acquire no_locks False
         | Some locks \<Rightarrow>
             if writerTxnId locks \<noteq> 0 then
               if writerTxnId locks \<noteq> txn_id txn
               then Inl (Errorf (''cannot acquire read lock as write lock acquired by transaction ''
                         @ [CHR 0x27] @ nat_dec (unat (writerTxnId locks)) @ [CHR 0x27]))
               else acquire locks True
             else acquire locks False)"

text \<open>\<open>Transaction.Put\<close>: lock, then buffer.\<close>

definition Txn_Put ::
    "string \<Rightarrow> string \<Rightarrow> Transaction \<Rightarrow> transactionManager \<Rightarrow> goerr + Transaction \<times> transactionManager" where
  "Txn_Put key val txn tm =
     (case tryAcquireWriteLock key txn tm of
        Inl e \<Rightarrow> Inl e
      | Inr (txn', tm') \<Rightarrow>
          Inr (txn'\<lparr>bufferedWriteMap := (bufferedWriteMap txn')(key \<mapsto> val)\<rparr>, tm'))"

text \<open>
  The body of the loop of \<open>releaseAllLocks\<close>: a transaction that holds the write lock gives up
  that lock only, and its entry among the readers, if it has one, stays. A key without an
  entry would be a nil pointer.
\<close>

definition release_lock ::
    "64 word \<Rightarrow> string \<Rightarrow> transactionManager \<Rightarrow> goerr + transactionManager" where
  "release_lock tid key tm =
     (case keyVsLocksAcquiredMap tm key of
        None \<Rightarrow> Inl nil_panic
      | Some locks \<Rightarrow>
          Inr (tm\<lparr>keyVsLocksAcquiredMap := (keyVsLocksAcquiredMap tm)(key \<mapsto>
            (if writerTxnId locks = tid then locks\<lparr>writerTxnId := 0\<rparr>
             else locks\<lparr>readerTxnIds := filter (\<lambda>r. r \<noteq> tid) (readerTxnIds locks)\<rparr>))\<rparr>))"

fun release_keys ::
    "64 word \<Rightarrow> string list \<Rightarrow> transactionManager \<Rightarrow> goerr + transactionManager" where
  "release_keys tid [] tm = Inr tm"
| "release_keys tid (key # ks) tm =
     (case release_lock tid key tm of Inl e \<Rightarrow> Inl e | Inr tm' \<Rightarrow> release_keys tid ks tm')"

definition releaseAllLocks ::
    "Transaction \<Rightarrow> transactionManager \<Rightarrow> goerr + Transaction \<times> transactionManager" where
  "releaseAllLocks txn tm =
     (case release_keys (txn_id txn) (lockAcquiredKeys txn) tm of
        Inl e \<Rightarrow> Inl e | Inr tm' \<Rightarrow> Inr (txn\<lparr>lockAcquiredKeys := []\<rparr>, tm'))"

definition cleanupBufferedWriteMap :: "Transaction \<Rightarrow> Transaction" where
  "cleanupBufferedWriteMap txn = txn\<lparr>bufferedWriteMap := Map.empty\<rparr>"

definition Rollback ::
    "Transaction \<Rightarrow> transactionManager \<Rightarrow> goerr + Transaction \<times> transactionManager" where
  "Rollback txn tm =
     (case releaseAllLocks txn tm of
        Inl e \<Rightarrow> Inl e | Inr (txn', tm') \<Rightarrow> Inr (cleanupBufferedWriteMap txn', tm'))"

subsection \<open>What the operations do to one key\<close>

definition locks_of :: "transactionManager \<Rightarrow> string \<Rightarrow> LocksAcquired" where
  "locks_of tm key = (case keyVsLocksAcquiredMap tm key of None \<Rightarrow> no_locks | Some l \<Rightarrow> l)"

lemma locks_of_simps [simp]:
  "keyVsLocksAcquiredMap tm key = None \<Longrightarrow> locks_of tm key = no_locks"
  "keyVsLocksAcquiredMap tm key = Some l \<Longrightarrow> locks_of tm key = l"
  by (simp_all add: locks_of_def)

lemma locks_of_upd [simp]:
  "locks_of (tm\<lparr>keyVsLocksAcquiredMap := m(key \<mapsto> l)\<rparr>) k =
     (if k = key then l else locks_of (tm\<lparr>keyVsLocksAcquiredMap := m\<rparr>) k)"
  "locks_of (tm\<lparr>nextTransactionId := n\<rparr>) k = locks_of tm k"
  by (simp_all add: locks_of_def)

lemma locks_of_same_map [simp]:
  "locks_of (tm\<lparr>keyVsLocksAcquiredMap := keyVsLocksAcquiredMap tm\<rparr>) k = locks_of tm k"
  by (simp add: locks_of_def)

lemma length_le_1: "\<not> Suc 0 < length xs \<Longrightarrow> \<forall>y. xs \<noteq> [y] \<Longrightarrow> xs = []"
  by (cases xs; cases "tl xs") auto

lemma write_lock_Inr:
  assumes "tryAcquireWriteLock key txn tm = Inr (txn', tm')" and "txn_id txn \<noteq> 0"
  shows "writerTxnId (locks_of tm' key) = txn_id txn"
    and "writerTxnId (locks_of tm key) \<in> {0, txn_id txn}"
    and "writerTxnId (locks_of tm key) = txn_id txn \<Longrightarrow> tm' = tm \<and> txn' = txn"
    and "writerTxnId (locks_of tm key) = 0 \<Longrightarrow>
      readerTxnIds (locks_of tm key) \<in> {[], [txn_id txn]} \<and> readerTxnIds (locks_of tm' key) = []
      \<and> lockAcquiredKeys txn' = (if readerTxnIds (locks_of tm key) = [] then lockAcquiredKeys txn @ [key]
                                else lockAcquiredKeys txn)
      \<and> dom (keyVsLocksAcquiredMap tm') = insert key (dom (keyVsLocksAcquiredMap tm))"
    and "k \<noteq> key \<Longrightarrow> locks_of tm' k = locks_of tm k"
    and "txn_id txn' = txn_id txn \<and> bufferedWriteMap txn' = bufferedWriteMap txn"
    and "nextTransactionId tm' = nextTransactionId tm"
  using assms
  by (auto simp: tryAcquireWriteLock_def Let_def length_Suc_conv split: option.splits if_splits
      dest: length_le_1)

lemma read_lock_Inr:
  assumes "tryAcquireReadLock key txn tm = Inr (txn', tm')"
  shows "txn_id txn \<in> set (readerTxnIds (locks_of tm' key))"
    and "writerTxnId (locks_of tm key) \<in> {0, txn_id txn}"
    and "writerTxnId (locks_of tm' key) = writerTxnId (locks_of tm key)"
    and "set (readerTxnIds (locks_of tm' key)) = insert (txn_id txn) (set (readerTxnIds (locks_of tm key)))"
    and "txn_id txn \<in> set (readerTxnIds (locks_of tm key)) \<Longrightarrow> tm' = tm \<and> txn' = txn"
    and "txn_id txn \<notin> set (readerTxnIds (locks_of tm key)) \<Longrightarrow>
      lockAcquiredKeys txn' = (if writerTxnId (locks_of tm key) = 0 then lockAcquiredKeys txn @ [key]
                              else lockAcquiredKeys txn)
      \<and> dom (keyVsLocksAcquiredMap tm') = insert key (dom (keyVsLocksAcquiredMap tm))"
    and "k \<noteq> key \<Longrightarrow> locks_of tm' k = locks_of tm k"
    and "txn_id txn' = txn_id txn \<and> bufferedWriteMap txn' = bufferedWriteMap txn"
    and "nextTransactionId tm' = nextTransactionId tm"
  using assms
  by (auto simp: tryAcquireReadLock_def Let_def split: option.splits if_splits)

text \<open>Releasing changes one key at a time and never fails on keys of the table.\<close>

definition unlocked :: "64 word \<Rightarrow> LocksAcquired \<Rightarrow> LocksAcquired" where
  "unlocked tid l = (if writerTxnId l = tid then l\<lparr>writerTxnId := 0\<rparr>
     else l\<lparr>readerTxnIds := filter (\<lambda>r. r \<noteq> tid) (readerTxnIds l)\<rparr>)"

lemma release_lock_Some:
  "key \<in> dom (keyVsLocksAcquiredMap tm) \<Longrightarrow>
   release_lock tid key tm = Inr (tm\<lparr>keyVsLocksAcquiredMap :=
     (keyVsLocksAcquiredMap tm)(key \<mapsto> unlocked tid (locks_of tm key))\<rparr>)"
  by (auto simp: release_lock_def unlocked_def)

lemma release_keys_Inr:
  assumes "set ks \<subseteq> dom (keyVsLocksAcquiredMap tm)"
  shows "\<exists>tm'. release_keys tid ks tm = Inr tm'
    \<and> dom (keyVsLocksAcquiredMap tm') = dom (keyVsLocksAcquiredMap tm)
    \<and> nextTransactionId tm' = nextTransactionId tm
    \<and> (\<forall>k. locks_of tm' k = (unlocked tid ^^ count_list ks k) (locks_of tm k))"
  using assms
proof (induction ks arbitrary: tm)
  case Nil
  then show ?case by simp
next
  case (Cons key ks)
  let ?tm = "tm\<lparr>keyVsLocksAcquiredMap :=
     (keyVsLocksAcquiredMap tm)(key \<mapsto> unlocked tid (locks_of tm key))\<rparr>"
  have key: "key \<in> dom (keyVsLocksAcquiredMap tm)"
    using Cons.prems by simp
  then have dom: "dom (keyVsLocksAcquiredMap ?tm) = dom (keyVsLocksAcquiredMap tm)"
    by auto
  have "set ks \<subseteq> dom (keyVsLocksAcquiredMap ?tm)"
    unfolding dom using Cons.prems by simp
  from Cons.IH [OF this, unfolded dom] obtain tm' where tm': "release_keys tid ks ?tm = Inr tm'"
    "dom (keyVsLocksAcquiredMap tm') = dom (keyVsLocksAcquiredMap tm)"
    "nextTransactionId tm' = nextTransactionId ?tm"
    "\<forall>k. locks_of tm' k = (unlocked tid ^^ count_list ks k) (locks_of ?tm k)"
    by blast
  have "locks_of tm' k = (unlocked tid ^^ count_list (key # ks) k) (locks_of tm k)" for k
    using tm'(4) by (simp add: funpow_swap1)
  then show ?case
    using tm'(1-3) release_lock_Some [OF key] by simp
qed

lemma unlocked_writer:
  "writerTxnId ((unlocked tid ^^ n) l) = (if n > 0 \<and> writerTxnId l = tid then 0 else writerTxnId l)"
  by (induction n arbitrary: l) (auto simp: unlocked_def funpow_swap1)

lemma unlocked_readers:
  "set (readerTxnIds ((unlocked tid ^^ n) l)) \<subseteq> set (readerTxnIds l)
   \<and> set (readerTxnIds l) - {tid} \<subseteq> set (readerTxnIds ((unlocked tid ^^ n) l))"
  by (induction n) (auto simp: unlocked_def)

subsection \<open>Transactions side by side\<close>

record lock_sys =
  manager :: transactionManager
  txns :: "64 word \<rightharpoonup> Transaction"

text \<open>
  One operation of transaction \<open>t\<close>. An operation that fails changes nothing. \<open>finish\<close> is
  \<open>Rollback\<close>, and the release at the end of \<open>Commit\<close>, which makes the same two calls.
  Ids are handed out until the counter wraps around.
\<close>

inductive lock_step :: "lock_sys \<Rightarrow> 64 word \<Rightarrow> lock_sys \<Rightarrow> bool" where
  begin_txn: "nextTransactionId (manager s) \<noteq> 0 \<Longrightarrow> Begin (manager s) = (txn, tm) \<Longrightarrow>
    lock_step s (txn_id txn) (s\<lparr>manager := tm, txns := (txns s)(txn_id txn \<mapsto> txn)\<rparr>)"
| put: "txns s t = Some txn \<Longrightarrow> Txn_Put k v txn (manager s) = Inr (txn', tm) \<Longrightarrow>
    lock_step s t (s\<lparr>manager := tm, txns := (txns s)(t \<mapsto> txn')\<rparr>)"
| read: "txns s t = Some txn \<Longrightarrow> tryAcquireReadLock k txn (manager s) = Inr (txn', tm) \<Longrightarrow>
    lock_step s t (s\<lparr>manager := tm, txns := (txns s)(t \<mapsto> txn')\<rparr>)"
| finish: "txns s t = Some txn \<Longrightarrow> Rollback txn (manager s) = Inr (txn', tm) \<Longrightarrow>
    lock_step s t (s\<lparr>manager := tm, txns := (txns s)(t \<mapsto> txn')\<rparr>)"

inductive_cases lock_stepE: "lock_step s t s'"

definition lock_start :: lock_sys where
  "lock_start = \<lparr>manager = \<lparr>nextTransactionId = 1, keyVsLocksAcquiredMap = Map.empty\<rparr>,
     txns = Map.empty\<rparr>"

inductive lock_reachable :: "lock_sys \<Rightarrow> bool" where
  start: "lock_reachable lock_start"
| step: "lock_reachable s \<Longrightarrow> lock_step s t s' \<Longrightarrow> lock_reachable s'"

text \<open>
  A buffered write has the write lock, a key on a transaction's list is locked by it, and
  under a write lock there is no other reader.
\<close>

definition lock_inv :: "lock_sys \<Rightarrow> bool" where
  "lock_inv s \<longleftrightarrow>
     (\<forall>t txn. txns s t = Some txn \<longrightarrow> txn_id txn = t \<and> t \<noteq> 0
        \<and> (nextTransactionId (manager s) = 0 \<or> t < nextTransactionId (manager s)))
     \<and> (\<forall>k. writerTxnId (locks_of (manager s) k) \<noteq> 0 \<longrightarrow>
          set (readerTxnIds (locks_of (manager s) k)) \<subseteq> {writerTxnId (locks_of (manager s) k)})
     \<and> (\<forall>t txn k. txns s t = Some txn \<longrightarrow> bufferedWriteMap txn k \<noteq> None \<longrightarrow>
          writerTxnId (locks_of (manager s) k) = t)
     \<and> (\<forall>t txn k. txns s t = Some txn \<longrightarrow> k \<in> set (lockAcquiredKeys txn) \<longrightarrow>
          k \<in> dom (keyVsLocksAcquiredMap (manager s))
          \<and> (writerTxnId (locks_of (manager s) k) = t
             \<or> t \<in> set (readerTxnIds (locks_of (manager s) k))))"

lemma lock_invD:
  assumes "lock_inv s"
  shows "txns s t = Some txn \<Longrightarrow> txn_id txn = t \<and> t \<noteq> 0
      \<and> (nextTransactionId (manager s) = 0 \<or> t < nextTransactionId (manager s))"
    and "writerTxnId (locks_of (manager s) k) \<noteq> 0 \<Longrightarrow>
      set (readerTxnIds (locks_of (manager s) k)) \<subseteq> {writerTxnId (locks_of (manager s) k)}"
    and "txns s t = Some txn \<Longrightarrow> bufferedWriteMap txn k \<noteq> None \<Longrightarrow>
      writerTxnId (locks_of (manager s) k) = t"
    and "txns s t = Some txn \<Longrightarrow> k \<in> set (lockAcquiredKeys txn) \<Longrightarrow>
      k \<in> dom (keyVsLocksAcquiredMap (manager s))
      \<and> (writerTxnId (locks_of (manager s) k) = t
         \<or> t \<in> set (readerTxnIds (locks_of (manager s) k)))"
  using assms unfolding lock_inv_def by blast+

text \<open>
  A step that changes one transaction and keeps, for the others, the locks they hold.
\<close>

lemma lock_inv_update:
  assumes inv: "lock_inv s" and "t \<noteq> 0" and id: "txn_id txn' = t"
    and cnt: "nextTransactionId tm = 0 \<or> (t < nextTransactionId tm
      \<and> nextTransactionId (manager s) \<le> nextTransactionId tm \<and> nextTransactionId (manager s) \<noteq> 0)"
    and excl: "\<And>k. writerTxnId (locks_of tm k) \<noteq> 0 \<Longrightarrow>
      set (readerTxnIds (locks_of tm k)) \<subseteq> {writerTxnId (locks_of tm k)}"
    and own: "\<And>k. bufferedWriteMap txn' k \<noteq> None \<Longrightarrow> writerTxnId (locks_of tm k) = t"
      "\<And>k. k \<in> set (lockAcquiredKeys txn') \<Longrightarrow> k \<in> dom (keyVsLocksAcquiredMap tm)
        \<and> (writerTxnId (locks_of tm k) = t \<or> t \<in> set (readerTxnIds (locks_of tm k)))"
    and others: "\<And>k u. u \<noteq> t \<Longrightarrow> u \<noteq> 0 \<Longrightarrow> writerTxnId (locks_of (manager s) k) = u \<Longrightarrow>
        writerTxnId (locks_of tm k) = u"
      "\<And>k u. u \<noteq> t \<Longrightarrow> u \<noteq> 0 \<Longrightarrow> u \<in> set (readerTxnIds (locks_of (manager s) k)) \<Longrightarrow>
        u \<in> set (readerTxnIds (locks_of tm k))"
      "dom (keyVsLocksAcquiredMap (manager s)) \<subseteq> dom (keyVsLocksAcquiredMap tm)"
  shows "lock_inv (s\<lparr>manager := tm, txns := (txns s)(t \<mapsto> txn')\<rparr>)"
proof -
  have ids: "txn_id a = u \<and> u \<noteq> 0 \<and> (nextTransactionId tm = 0 \<or> u < nextTransactionId tm)"
    if "u \<noteq> t" "txns s u = Some a" for u a
    using lock_invD(1) [OF inv that(2)] cnt by (auto intro: less_le_trans)
  have buf: "writerTxnId (locks_of tm k) = u"
    if "u \<noteq> t" "txns s u = Some a" "bufferedWriteMap a k \<noteq> None" for u a k
    using lock_invD(1,3) [OF inv that(2)] that(1,3) others(1) by blast
  have keys: "k \<in> dom (keyVsLocksAcquiredMap tm)
      \<and> (writerTxnId (locks_of tm k) = u \<or> u \<in> set (readerTxnIds (locks_of tm k)))"
    if "u \<noteq> t" "txns s u = Some a" "k \<in> set (lockAcquiredKeys a)" for u a k
    using lock_invD(1) [OF inv that(2)] lock_invD(4) [OF inv that(2,3)] that(1) others by blast
  show ?thesis
    unfolding lock_inv_def
    using ids buf keys assms(2) id cnt excl own
    by (intro conjI allI impI) (auto split: if_splits)
qed

lemma lock_inv_begin:
  assumes inv: "lock_inv s" and "nextTransactionId (manager s) \<noteq> 0"
    and "Begin (manager s) = (txn, tm)"
  shows "lock_inv (s\<lparr>manager := tm, txns := (txns s)(txn_id txn \<mapsto> txn)\<rparr>)"
proof -
  define n where "n = nextTransactionId (manager s)"
  have "n + 1 = 0 \<or> (n < n + 1 \<and> n \<le> n + 1)"
    using unatSuc [of n] by (cases "n + 1 = 0") (auto simp: word_less_nat_alt word_le_nat_alt add.commute)
  then show ?thesis
    using assms(2,3)
    by (intro lock_inv_update [OF inv])
       (auto simp: Begin_def n_def [symmetric] dest: subsetD [OF lock_invD(2) [OF inv]])
qed

lemma lock_inv_put:
  assumes inv: "lock_inv s" and t: "txns s t = Some txn"
    and put: "Txn_Put k v txn (manager s) = Inr (txn', tm)"
  shows "lock_inv (s\<lparr>manager := tm, txns := (txns s)(t \<mapsto> txn')\<rparr>)"
proof -
  note i = lock_invD(1) [OF inv t]
  obtain txn1 where w: "tryAcquireWriteLock k txn (manager s) = Inr (txn1, tm)"
    and txn': "txn' = txn1\<lparr>bufferedWriteMap := (bufferedWriteMap txn1)(k \<mapsto> v)\<rparr>"
    using put by (auto simp: Txn_Put_def split: sum.splits)
  have ne: "txn_id txn \<noteq> 0"
    using i by simp
  note W = write_lock_Inr [OF w ne]
  show ?thesis
  proof (cases "writerTxnId (locks_of (manager s) k) = t")
    case True
    then have same: "tm = manager s" "txn1 = txn"
      using W(3) i by simp_all
    show ?thesis
      using lock_invD [OF inv] t i True
      by (intro lock_inv_update [OF inv]) (auto simp: txn' same split: if_splits)
  next
    case False
    then have free: "writerTxnId (locks_of (manager s) k) = 0"
      using W(2) i by simp
    note F = W(4) [OF free]
    have locks: "j \<noteq> k \<Longrightarrow> locks_of tm j = locks_of (manager s) j" for j
      by (rule W(5))
    show ?thesis
      using i
    proof (intro lock_inv_update [OF inv])
      fix j assume "writerTxnId (locks_of tm j) \<noteq> 0"
      then show "set (readerTxnIds (locks_of tm j)) \<subseteq> {writerTxnId (locks_of tm j)}"
        using lock_invD(2) [OF inv, of j] F locks [of j] by (cases "j = k") auto
    next
      fix j assume "bufferedWriteMap txn' j \<noteq> None"
      then show "writerTxnId (locks_of tm j) = t"
        using lock_invD(3) [OF inv t, of j] W(1,6) i locks [of j]
        by (cases "j = k") (auto simp: txn')
    next
      fix j assume "j \<in> set (lockAcquiredKeys txn')"
      then show "j \<in> dom (keyVsLocksAcquiredMap tm)
          \<and> (writerTxnId (locks_of tm j) = t \<or> t \<in> set (readerTxnIds (locks_of tm j)))"
        using lock_invD(4) [OF inv t, of j] W(1) F i locks [of j]
        by (cases "j = k") (auto simp: txn' split: if_splits)
    next
      fix j u assume "u \<noteq> t" "u \<noteq> 0" "writerTxnId (locks_of (manager s) j) = u"
      then show "writerTxnId (locks_of tm j) = u"
        using free locks [of j] by (cases "j = k") auto
    next
      fix j u assume "u \<noteq> t" "u \<in> set (readerTxnIds (locks_of (manager s) j))"
      then show "u \<in> set (readerTxnIds (locks_of tm j))"
        using F i locks [of j] by (cases "j = k") auto
    qed (use W(6,7) F in \<open>auto simp: txn'\<close>)
  qed
qed

lemma lock_inv_read:
  assumes inv: "lock_inv s" and t: "txns s t = Some txn"
    and rd: "tryAcquireReadLock k txn (manager s) = Inr (txn', tm)"
  shows "lock_inv (s\<lparr>manager := tm, txns := (txns s)(t \<mapsto> txn')\<rparr>)"
proof -
  note i = lock_invD(1) [OF inv t]
  note R = read_lock_Inr [OF rd]
  show ?thesis
  proof (cases "t \<in> set (readerTxnIds (locks_of (manager s) k))")
    case True
    then have same: "tm = manager s" "txn' = txn"
      using R(5) i by simp_all
    show ?thesis
      using lock_invD [OF inv] t i
      by (intro lock_inv_update [OF inv]) (auto simp: same)
  next
    case False
    then have F: "lockAcquiredKeys txn' = (if writerTxnId (locks_of (manager s) k) = 0
          then lockAcquiredKeys txn @ [k] else lockAcquiredKeys txn)"
      "dom (keyVsLocksAcquiredMap tm) = insert k (dom (keyVsLocksAcquiredMap (manager s)))"
      using R(6) i by simp_all
    have locks: "j \<noteq> k \<Longrightarrow> locks_of tm j = locks_of (manager s) j" for j
      by (rule R(7))
    show ?thesis
      using i
    proof (intro lock_inv_update [OF inv])
      fix j assume "writerTxnId (locks_of tm j) \<noteq> 0"
      then show "set (readerTxnIds (locks_of tm j)) \<subseteq> {writerTxnId (locks_of tm j)}"
        using lock_invD(2) [OF inv, of j] R(2-4) locks [of j] i by (cases "j = k") auto
    next
      fix j assume "bufferedWriteMap txn' j \<noteq> None"
      then show "writerTxnId (locks_of tm j) = t"
        using lock_invD(3) [OF inv t, of j] R(3,8) locks [of j] by (cases "j = k") auto
    next
      fix j assume "j \<in> set (lockAcquiredKeys txn')"
      then show "j \<in> dom (keyVsLocksAcquiredMap tm)
          \<and> (writerTxnId (locks_of tm j) = t \<or> t \<in> set (readerTxnIds (locks_of tm j)))"
        using lock_invD(4) [OF inv t, of j] R(1,3,4) F i locks [of j]
        by (cases "j = k") (auto split: if_splits)
    next
      fix j u assume "writerTxnId (locks_of (manager s) j) = u"
      then show "writerTxnId (locks_of tm j) = u"
        using R(3) locks [of j] by (cases "j = k") auto
    next
      fix j u assume "u \<in> set (readerTxnIds (locks_of (manager s) j))"
      then show "u \<in> set (readerTxnIds (locks_of tm j))"
        using R(4) locks [of j] by (cases "j = k") auto
    qed (use R(8,9) F in auto)
  qed
qed

text \<open>Releasing all locks of a transaction of the system succeeds, and changes only its own.\<close>

lemma Rollback_Inr:
  assumes inv: "lock_inv s" and t: "txns s t = Some txn"
  shows "\<exists>txn' tm. Rollback txn (manager s) = Inr (txn', tm)
    \<and> txn_id txn' = t \<and> bufferedWriteMap txn' = Map.empty \<and> lockAcquiredKeys txn' = []
    \<and> dom (keyVsLocksAcquiredMap tm) = dom (keyVsLocksAcquiredMap (manager s))
    \<and> nextTransactionId tm = nextTransactionId (manager s)
    \<and> (\<forall>k. locks_of tm k = (unlocked t ^^ count_list (lockAcquiredKeys txn) k) (locks_of (manager s) k))"
proof -
  have id: "txn_id txn = t"
    using lock_invD(1) [OF inv t] by simp
  have "set (lockAcquiredKeys txn) \<subseteq> dom (keyVsLocksAcquiredMap (manager s))"
    using lock_invD(4) [OF inv t] by blast
  from release_keys_Inr [OF this, of t] obtain tm where "release_keys t (lockAcquiredKeys txn) (manager s) = Inr tm"
    "dom (keyVsLocksAcquiredMap tm) = dom (keyVsLocksAcquiredMap (manager s))"
    "nextTransactionId tm = nextTransactionId (manager s)"
    "\<forall>k. locks_of tm k = (unlocked t ^^ count_list (lockAcquiredKeys txn) k) (locks_of (manager s) k)"
    by blast
  then show ?thesis
    by (simp add: Rollback_def releaseAllLocks_def cleanupBufferedWriteMap_def id)
qed

lemma lock_inv_finish:
  assumes inv: "lock_inv s" and t: "txns s t = Some txn"
    and fin: "Rollback txn (manager s) = Inr (txn', tm)"
  shows "lock_inv (s\<lparr>manager := tm, txns := (txns s)(t \<mapsto> txn')\<rparr>)"
proof -
  note i = lock_invD(1) [OF inv t]
  have r: "txn_id txn' = t" "bufferedWriteMap txn' = Map.empty" "lockAcquiredKeys txn' = []"
    "dom (keyVsLocksAcquiredMap tm) = dom (keyVsLocksAcquiredMap (manager s))"
    "nextTransactionId tm = nextTransactionId (manager s)"
    and locks: "\<And>k. locks_of tm k =
      (unlocked t ^^ count_list (lockAcquiredKeys txn) k) (locks_of (manager s) k)"
    using Rollback_Inr [OF inv t] fin by auto
  show ?thesis
  proof (rule lock_inv_update [OF inv])
    fix k assume "writerTxnId (locks_of tm k) \<noteq> 0"
    then have w: "writerTxnId (locks_of (manager s) k) \<noteq> 0"
      "writerTxnId (locks_of tm k) = writerTxnId (locks_of (manager s) k)"
      by (auto simp: locks unlocked_writer split: if_splits)
    show "set (readerTxnIds (locks_of tm k)) \<subseteq> {writerTxnId (locks_of tm k)}"
      using lock_invD(2) [OF inv w(1)]
        unlocked_readers [of "count_list (lockAcquiredKeys txn) k" t "locks_of (manager s) k"]
      unfolding w(2) by (auto simp: locks)
  next
    fix k u assume "u \<noteq> t" "writerTxnId (locks_of (manager s) k) = u"
    then show "writerTxnId (locks_of tm k) = u"
      by (simp add: locks unlocked_writer)
  next
    fix k u assume "u \<noteq> t" "u \<in> set (readerTxnIds (locks_of (manager s) k))"
    then show "u \<in> set (readerTxnIds (locks_of tm k))"
      using unlocked_readers [of "count_list (lockAcquiredKeys txn) k" t "locks_of (manager s) k"]
      by (auto simp: locks)
  qed (use i r in auto)
qed

lemma lock_step_inv: "lock_step s t s' \<Longrightarrow> lock_inv s \<Longrightarrow> lock_inv s'"
  by (induction rule: lock_step.induct)
     (simp_all add: lock_inv_begin lock_inv_put lock_inv_read lock_inv_finish)

lemma lock_reachable_inv: "lock_reachable s \<Longrightarrow> lock_inv s"
proof (induction rule: lock_reachable.induct)
  case start
  then show ?case
    by (simp add: lock_inv_def lock_start_def locks_of_def)
qed (rule lock_step_inv)

subsection \<open>Properties\<close>

text \<open>C5: Mutual exclusion: in every reachable state, while a transaction has a buffered write
  for a key, no other transaction has a buffered write for it or holds any lock on it.\<close>

theorem write_lock_exclusive:
  assumes "lock_reachable s" and "txns s t = Some a" and "txns s u = Some b" and "t \<noteq> u"
    and "bufferedWriteMap a k \<noteq> None"
  shows "bufferedWriteMap b k = None \<and> k \<notin> set (lockAcquiredKeys b)
    \<and> writerTxnId (locks_of (manager s) k) = t \<and> u \<notin> set (readerTxnIds (locks_of (manager s) k))"
proof -
  note inv = lock_reachable_inv [OF assms(1)]
  have w: "writerTxnId (locks_of (manager s) k) = t" and t: "t \<noteq> 0"
    using lock_invD(1,3) [OF inv assms(2)] assms(5) by simp_all
  then have "u \<notin> set (readerTxnIds (locks_of (manager s) k))"
    using lock_invD(2) [OF inv, of k] assms(4) by auto
  moreover have "bufferedWriteMap b k = None"
    using lock_invD(3) [OF inv assms(3), of k] w assms(4) by blast
  moreover have "k \<notin> set (lockAcquiredKeys b)"
    using lock_invD(4) [OF inv assms(3), of k] calculation(1) w assms(4) by auto
  ultimately show ?thesis
    using w by simp
qed

text \<open>C37: In every reachable state, a rollback (and the release at the end of a commit) never
  meets a missing lock entry, empties the write buffer, gives up every write lock on the
  transaction's list and leaves the locks of other transactions alone.\<close>

theorem rollback_releases:
  assumes "lock_reachable s" and "txns s t = Some txn"
  shows "\<exists>txn' tm. Rollback txn (manager s) = Inr (txn', tm)
    \<and> bufferedWriteMap txn' = Map.empty \<and> lockAcquiredKeys txn' = []
    \<and> (\<forall>k \<in> set (lockAcquiredKeys txn). writerTxnId (locks_of tm k) \<noteq> t)
    \<and> (\<forall>k u. u \<noteq> t \<longrightarrow> (writerTxnId (locks_of (manager s) k) = u \<longrightarrow> writerTxnId (locks_of tm k) = u)
        \<and> (u \<in> set (readerTxnIds (locks_of (manager s) k)) \<longleftrightarrow> u \<in> set (readerTxnIds (locks_of tm k))))"
proof -
  note inv = lock_reachable_inv [OF assms(1)]
  have "t \<noteq> 0"
    using lock_invD(1) [OF inv assms(2)] by simp
  obtain txn' tm where r: "Rollback txn (manager s) = Inr (txn', tm)"
    "bufferedWriteMap txn' = Map.empty" "lockAcquiredKeys txn' = []"
    and locks: "\<And>k. locks_of tm k =
      (unlocked t ^^ count_list (lockAcquiredKeys txn) k) (locks_of (manager s) k)"
    using Rollback_Inr [OF inv assms(2)] by auto
  have "writerTxnId (locks_of tm k) \<noteq> t" if "k \<in> set (lockAcquiredKeys txn)" for k
    using that \<open>t \<noteq> 0\<close> by (auto simp: locks unlocked_writer count_list_0_iff)
  moreover have "u \<in> set (readerTxnIds (locks_of (manager s) k)) \<longleftrightarrow> u \<in> set (readerTxnIds (locks_of tm k))"
    if "u \<noteq> t" for k u
    using unlocked_readers [of "count_list (lockAcquiredKeys txn) k" t "locks_of (manager s) k"] that
    by (auto simp: locks)
  moreover have "writerTxnId (locks_of tm k) = u"
    if "u \<noteq> t" "writerTxnId (locks_of (manager s) k) = u" for k u
    using that by (simp add: locks unlocked_writer)
  ultimately show ?thesis
    using r by blast
qed

text \<open>Two transactions, the first of which has written the key \<open>k\<close>.\<close>

definition two_txns :: lock_sys where
  "two_txns = \<lparr>manager = \<lparr>nextTransactionId = 3,
       keyVsLocksAcquiredMap = [''k'' \<mapsto> \<lparr>writerTxnId = 1, readerTxnIds = []\<rparr>]\<rparr>,
     txns = [1 \<mapsto> \<lparr>txn_id = 1, bufferedWriteMap = [''k'' \<mapsto> ''v''], lockAcquiredKeys = [''k'']\<rparr>,
             2 \<mapsto> \<lparr>txn_id = 2, bufferedWriteMap = Map.empty, lockAcquiredKeys = []\<rparr>]\<rparr>"

lemma two_txns_reachable: "lock_reachable two_txns"
proof -
  let ?t1 = "\<lparr>txn_id = 1, bufferedWriteMap = Map.empty, lockAcquiredKeys = []\<rparr> :: Transaction"
  let ?t2 = "\<lparr>txn_id = 2, bufferedWriteMap = Map.empty, lockAcquiredKeys = []\<rparr> :: Transaction"
  let ?s1 = "\<lparr>manager = \<lparr>nextTransactionId = 2, keyVsLocksAcquiredMap = Map.empty\<rparr>,
    txns = [1 \<mapsto> ?t1]\<rparr>"
  let ?s2 = "\<lparr>manager = \<lparr>nextTransactionId = 3, keyVsLocksAcquiredMap = Map.empty\<rparr>,
    txns = [1 \<mapsto> ?t1, 2 \<mapsto> ?t2]\<rparr>"
  have "lock_reachable ?s1"
    using lock_reachable.step [OF lock_reachable.start lock_step.begin_txn [of lock_start]]
    by (simp add: lock_start_def Begin_def)
  then have "lock_reachable ?s2"
    using lock_reachable.step [OF _ lock_step.begin_txn [of ?s1]] by (simp add: Begin_def)
  moreover have "lock_step ?s2 1 two_txns"
    using lock_step.put [of ?s2 1 ?t1 "''k''" "''v''"]
    by (simp add: Txn_Put_def tryAcquireWriteLock_def two_txns_def fun_upd_twist)
  ultimately show ?thesis
    by (rule lock_reachable.step)
qed

theorem write_lock_exclusive_witness:
  "bufferedWriteMap \<lparr>txn_id = 2, bufferedWriteMap = Map.empty, lockAcquiredKeys = []\<rparr> ''k'' = None
    \<and> ''k'' \<notin> set (lockAcquiredKeys \<lparr>txn_id = 2, bufferedWriteMap = Map.empty, lockAcquiredKeys = []\<rparr>)
    \<and> writerTxnId (locks_of (manager two_txns) ''k'') = 1
    \<and> 2 \<notin> set (readerTxnIds (locks_of (manager two_txns) ''k''))"
  by (rule write_lock_exclusive [OF two_txns_reachable, of 1
        "\<lparr>txn_id = 1, bufferedWriteMap = [''k'' \<mapsto> ''v''], lockAcquiredKeys = [''k'']\<rparr>"])
     (simp_all add: two_txns_def)

theorem rollback_releases_witness:
  "\<exists>txn' tm. Rollback \<lparr>txn_id = 1, bufferedWriteMap = [''k'' \<mapsto> ''v''], lockAcquiredKeys = [''k'']\<rparr>
        (manager two_txns) = Inr (txn', tm)
    \<and> bufferedWriteMap txn' = Map.empty \<and> lockAcquiredKeys txn' = []
    \<and> (\<forall>k \<in> set (lockAcquiredKeys \<lparr>txn_id = 1, bufferedWriteMap = [''k'' \<mapsto> ''v''],
          lockAcquiredKeys = [''k'']\<rparr>). writerTxnId (locks_of tm k) \<noteq> 1)
    \<and> (\<forall>k u. u \<noteq> 1 \<longrightarrow>
        (writerTxnId (locks_of (manager two_txns) k) = u \<longrightarrow> writerTxnId (locks_of tm k) = u)
        \<and> (u \<in> set (readerTxnIds (locks_of (manager two_txns) k)) \<longleftrightarrow>
           u \<in> set (readerTxnIds (locks_of tm k))))"
  by (rule rollback_releases [OF two_txns_reachable]) (simp add: two_txns_def)

subsection \<open>A lock that is never given up\<close>

text \<open>Steps of transactions other than \<open>t\<close>.\<close>

inductive others_run :: "64 word \<Rightarrow> lock_sys \<Rightarrow> lock_sys \<Rightarrow> bool" for t :: "64 word" where
  stay: "others_run t s s"
| other: "others_run t s s' \<Longrightarrow> lock_step s' u s'' \<Longrightarrow> u \<noteq> t \<Longrightarrow> others_run t s s''"

text \<open>A reader that no longer runs blocks the write lock.\<close>

lemma write_lock_blocked:
  assumes "t \<in> set (readerTxnIds (locks_of tm k))" and "writerTxnId (locks_of tm k) = 0"
    and "txn_id txn \<noteq> t" and "txn_id txn \<noteq> 0"
  shows "tryAcquireWriteLock k txn tm = Inl WriteLockNotAcquiredDueToReadLocksError"
proof -
  obtain l where l: "keyVsLocksAcquiredMap tm k = Some l"
    using assms(1) by (cases "keyVsLocksAcquiredMap tm k") simp_all
  have "length (readerTxnIds l) = 1 \<Longrightarrow> readerTxnIds l ! 0 = t"
    using assms(1) l by (auto simp: length_Suc_conv)
  moreover have "readerTxnIds l \<noteq> []"
    using assms(1) l by auto
  ultimately show ?thesis
    using assms(2-4) l by (cases "readerTxnIds l") (auto simp: tryAcquireWriteLock_def Let_def)
qed

lemma other_step_keeps_reader:
  assumes inv: "lock_inv s" and "lock_step s u s'" and "u \<noteq> t" and "t \<noteq> 0"
    and "t \<in> set (readerTxnIds (locks_of (manager s) k))" and "writerTxnId (locks_of (manager s) k) = 0"
  shows "t \<in> set (readerTxnIds (locks_of (manager s') k)) \<and> writerTxnId (locks_of (manager s') k) = 0"
  using assms(2)
proof (cases rule: lock_step.cases)
  case (begin_txn txn tm)
  then show ?thesis
    using assms(5,6) by (auto simp: Begin_def)
next
  case (put txn k' v txn' tm)
  then have id: "txn_id txn = u" "u \<noteq> 0"
    using lock_invD(1) [OF inv put(2)] by simp_all
  obtain txn1 where w: "tryAcquireWriteLock k' txn (manager s) = Inr (txn1, tm)"
    using put(3) by (auto simp: Txn_Put_def split: sum.splits)
  have "k' \<noteq> k"
    using write_lock_blocked [OF assms(5,6), of txn] w id assms(3) by auto
  then show ?thesis
    using write_lock_Inr(5) [OF w, of k] id assms(5,6) put(1) by simp
next
  case (read txn k' txn' tm)
  then show ?thesis
    using read_lock_Inr(3,4,7) [OF read(3)] assms(5,6) by (cases "k' = k") auto
next
  case (finish txn txn' tm)
  then have "\<forall>k. locks_of tm k = (unlocked u ^^ count_list (lockAcquiredKeys txn) k) (locks_of (manager s) k)"
    using Rollback_Inr [OF inv finish(2)] by auto
  then show ?thesis
    using unlocked_readers [of "count_list (lockAcquiredKeys txn) k" u "locks_of (manager s) k"]
      assms(3,5,6) finish(1) by (auto simp: unlocked_writer)
qed

lemma others_keep_reader:
  assumes "others_run t s s'" and "lock_inv s" and "t \<noteq> 0"
    and "t \<in> set (readerTxnIds (locks_of (manager s) k))" and "writerTxnId (locks_of (manager s) k) = 0"
  shows "lock_inv s' \<and> t \<in> set (readerTxnIds (locks_of (manager s') k))
    \<and> writerTxnId (locks_of (manager s') k) = 0"
  using assms
proof (induction rule: others_run.induct)
  case (stay s)
  then show ?case by simp
next
  case (other s s' u s'')
  then have "lock_inv s'" "t \<in> set (readerTxnIds (locks_of (manager s') k))"
    "writerTxnId (locks_of (manager s') k) = 0"
    by simp_all
  with other_step_keeps_reader [OF this(1) other.hyps(2,3) \<open>t \<noteq> 0\<close> this(2,3)]
    lock_step_inv [OF other.hyps(2)] show ?case
    by simp
qed

text \<open>C38: When a transaction writes a key that nobody has locked, reads it back and then ends,
  its entry among the readers stays for ever: whatever other transactions do afterwards, none of
  them can ever write that key again.\<close>

theorem read_back_leaks_lock:
  assumes "lock_reachable s" and "txns s t = Some txn" and "lockAcquiredKeys txn = []"
    and "locks_of (manager s) k = no_locks"
    and "Txn_Put k v txn (manager s) = Inr (txn1, tm1)"
    and "tryAcquireReadLock k txn1 tm1 = Inr (txn2, tm2)"
    and "Rollback txn2 tm2 = Inr (txn3, tm3)"
    and "others_run t (s\<lparr>manager := tm3, txns := (txns s)(t \<mapsto> txn3)\<rparr>) s'"
    and "txns s' u = Some other" and "u \<noteq> t"
  shows "Txn_Put k v' other (manager s') = Inl WriteLockNotAcquiredDueToReadLocksError"
proof -
  note inv = lock_reachable_inv [OF assms(1)]
  note id = lock_invD(1) [OF inv assms(2)]
  have inv1: "lock_inv (s\<lparr>manager := tm1, txns := (txns s)(t \<mapsto> txn1)\<rparr>)"
    by (rule lock_inv_put [OF inv assms(2,5)])
  have inv2: "lock_inv (s\<lparr>manager := tm2, txns := (txns s)(t \<mapsto> txn2)\<rparr>)"
    using lock_inv_read [OF inv1, of t txn1 k txn2 tm2] assms(6) by simp
  have inv3: "lock_inv (s\<lparr>manager := tm3, txns := (txns s)(t \<mapsto> txn3)\<rparr>)"
    using lock_inv_finish [OF inv2, of t txn2 txn3 tm3] assms(7) by simp
  obtain txn0 where w: "tryAcquireWriteLock k txn (manager s) = Inr (txn0, tm1)"
    and txn1: "txn1 = txn0\<lparr>bufferedWriteMap := (bufferedWriteMap txn0)(k \<mapsto> v)\<rparr>"
    using assms(5) by (auto simp: Txn_Put_def split: sum.splits)
  have ne: "txn_id txn \<noteq> 0"
    using id by simp
  note W = write_lock_Inr [OF w ne]
  have l1: "writerTxnId (locks_of tm1 k) = t" "readerTxnIds (locks_of tm1 k) = []"
    "lockAcquiredKeys txn1 = [k]" "txn_id txn1 = t"
    using W(1,4,6) assms(3,4) id by (simp_all add: txn1)
  note R = read_lock_Inr [OF assms(6)]
  have l2: "writerTxnId (locks_of tm2 k) = t" "t \<in> set (readerTxnIds (locks_of tm2 k))"
    "lockAcquiredKeys txn2 = [k]"
    using R(1,3,6) l1 id by auto
  have "locks_of tm3 k = unlocked t (locks_of tm2 k)"
    using Rollback_Inr [OF inv2, of t txn2] assms(7) l2(3) by auto
  then have l3: "t \<in> set (readerTxnIds (locks_of tm3 k))" "writerTxnId (locks_of tm3 k) = 0"
    using l2 by (simp_all add: unlocked_def)
  have "lock_inv s' \<and> t \<in> set (readerTxnIds (locks_of (manager s') k))
      \<and> writerTxnId (locks_of (manager s') k) = 0"
    using others_keep_reader [OF assms(8) inv3, of k] l3 id by simp
  then show ?thesis
    using write_lock_blocked [of t "manager s'" k other] lock_invD(1) [OF _ assms(9)] assms(10)
    by (simp add: Txn_Put_def)
qed

theorem read_back_leaks_lock_witness:
  "Txn_Put ''x'' ''z'' \<lparr>txn_id = 1, bufferedWriteMap = [''k'' \<mapsto> ''v''], lockAcquiredKeys = [''k'']\<rparr>
     \<lparr>nextTransactionId = 3, keyVsLocksAcquiredMap = [''k'' \<mapsto> \<lparr>writerTxnId = 1, readerTxnIds = []\<rparr>,
        ''x'' \<mapsto> \<lparr>writerTxnId = 0, readerTxnIds = [2]\<rparr>]\<rparr> =
   Inl WriteLockNotAcquiredDueToReadLocksError"
proof -
  let ?t = "\<lparr>txn_id = 2, bufferedWriteMap = Map.empty, lockAcquiredKeys = []\<rparr>"
  let ?tm = "\<lambda>w r. \<lparr>nextTransactionId = 3, keyVsLocksAcquiredMap =
     [''k'' \<mapsto> \<lparr>writerTxnId = 1, readerTxnIds = []\<rparr>, ''x'' \<mapsto> \<lparr>writerTxnId = w, readerTxnIds = r\<rparr>]\<rparr>"
  let ?t1 = "\<lparr>txn_id = 2, bufferedWriteMap = [''x'' \<mapsto> ''y''], lockAcquiredKeys = [''x'']\<rparr>"
  have p: "Txn_Put ''x'' ''y'' ?t (manager two_txns) = Inr (?t1, ?tm 2 [])"
    by (simp add: Txn_Put_def tryAcquireWriteLock_def two_txns_def)
  have g: "tryAcquireReadLock ''x'' ?t1 (?tm 2 []) = Inr (?t1, ?tm 2 [2])"
    by (simp add: tryAcquireReadLock_def)
  have r: "Rollback ?t1 (?tm 2 [2]) = Inr (?t, ?tm 0 [2])"
    by (simp add: Rollback_def releaseAllLocks_def release_lock_def cleanupBufferedWriteMap_def)
  let ?o = "\<lparr>txn_id = 1, bufferedWriteMap = [''k'' \<mapsto> ''v''], lockAcquiredKeys = [''k'']\<rparr>"
  have "Txn_Put ''x'' ''z'' ?o
      (manager (two_txns\<lparr>manager := ?tm 0 [2], txns := (txns two_txns)(2 \<mapsto> ?t)\<rparr>)) =
      Inl WriteLockNotAcquiredDueToReadLocksError"
    by (rule read_back_leaks_lock [OF two_txns_reachable _ _ _ p g r others_run.stay, of _ 1])
       (simp_all add: two_txns_def locks_of_def)
  then show ?thesis
    by simp
qed

end
