(* ===== verification/Catalog.thy ===== *)
theory Catalog
  imports Codec
begin

text \<open>
  The table descriptions of \<^verbatim>\<open>sql_parser/ast.go\<close> and their encodings in the catalog
  (\<^verbatim>\<open>db/create.go\<close>): a schema as the position of the primary key and the columns, and the
  secondary indexes of a table as names and column positions. Both decoders take back what the
  encoders write.
\<close>

subsection \<open>Table descriptions\<close>

record Column =
  ColumnName :: string
  DataType :: "8 word"

abbreviation Int_type :: "8 word" where "Int_type \<equiv> 0"
abbreviation String_type :: "8 word" where "String_type \<equiv> 1"
abbreviation Bool_type :: "8 word" where "Bool_type \<equiv> 2"

record SecondaryIndex =
  Columns :: "string list"
  IndexName :: string

record CreateTable =
  TableName :: string
  ColumnDetails :: "Column list"
  PrimaryKeyColumnPosition :: int
  SecondaryIndexes :: "SecondaryIndex list"

text \<open>A lookup of a table that is not there gives the zero value of the struct.\<close>

definition schema_of :: "(string \<rightharpoonup> CreateTable) \<Rightarrow> string \<Rightarrow> CreateTable" where
  "schema_of schemas tableName = (case schemas tableName of
     None \<Rightarrow> \<lparr>TableName = '''', ColumnDetails = [], PrimaryKeyColumnPosition = 0, SecondaryIndexes = []\<rparr>
   | Some t \<Rightarrow> t)"

subsection \<open>The schema of a table\<close>

text \<open>\<open>byte(dataType)\<close> and back.\<close>

definition byte_of :: "8 word \<Rightarrow> char" where
  "byte_of x = char_of (unat x)"

definition of_byte :: "char \<Rightarrow> 8 word" where
  "of_byte c = word_of_nat (of_char c)"

definition column_bytes :: "Column \<Rightarrow> bytes" where
  "column_bytes col = byte_of (DataType col) # lp (ColumnName col)"

definition serialiseCreateTableInput :: "CreateTable \<Rightarrow> bytes" where
  "serialiseCreateTableInput createTableInput =
     foldl (\<lambda>serialisedSchema col.
         ((serialisedSchema @ [byte_of (DataType col)]) @ len32 (ColumnName col)) @ ColumnName col)
       (be32 (word_of_int (PrimaryKeyColumnPosition createTableInput)))
       (ColumnDetails createTableInput)"

text \<open>One turn of the loop: the column at \<open>i\<close> and the next \<open>i\<close>.\<close>

definition read_column :: "bytes \<Rightarrow> nat \<Rightarrow> goerr + Column \<times> nat" where
  "read_column buf i =
     (if i \<ge> length buf then Inl index_panic
      else let dataType = buf ! i in
        if i + 1 > length buf then Inl (Errorf ''unexpected error while reading column data type'')
        else let i = i + 1 in
          if i + 4 > length buf then Inl (Errorf ''unexpected error while reading column length'')
          else let columnNameLength = unat (Uint32 (slice buf i (i + 4))); i = i + 4 in
            if i + columnNameLength > length buf
            then Inl (Errorf ''unexpected error while reading column name'')
            else Inr (\<lparr>ColumnName = slice buf i (i + columnNameLength), DataType = of_byte dataType\<rparr>,
                      i + columnNameLength))"

lemma read_column_progress: "read_column buf i = Inr (col, j) \<Longrightarrow> i < j"
  by (auto simp: read_column_def Let_def split: if_splits)

function read_all_columns :: "bytes \<Rightarrow> nat \<Rightarrow> Column list \<Rightarrow> goerr + Column list" where
  "read_all_columns buf i columnDetails =
     (if i < length buf then
        (case read_column buf i of
           Inl e \<Rightarrow> Inl e
         | Inr (columnMeta, j) \<Rightarrow> read_all_columns buf j (columnDetails @ [columnMeta]))
      else Inr columnDetails)"
  by pat_completeness auto
termination
  by (relation "measure (\<lambda>(buf, i, cols). length buf - i)") (auto dest: read_column_progress)

declare read_all_columns.simps [simp del]

text \<open>The decoder leaves the table name and the secondary indexes empty.\<close>

definition deserialiseCreateTableInput :: "bytes \<Rightarrow> goerr + CreateTable" where
  "deserialiseCreateTableInput buf =
     (if length buf < 4
      then Inl (Errorf ''unexpected error while reading primary key column position'')
      else let primaryKeyColumnPosition = Uint32 (slice buf 0 4) in
        (case read_all_columns buf 4 [] of
           Inl e \<Rightarrow> Inl e
         | Inr columnDetails \<Rightarrow>
             Inr \<lparr>TableName = '''', ColumnDetails = columnDetails,
                  PrimaryKeyColumnPosition = uint primaryKeyColumnPosition, SecondaryIndexes = []\<rparr>))"

subsection \<open>The secondary indexes of a table\<close>

text \<open>The last column with the name; \<open>-1\<close> when there is none.\<close>

definition column_position :: "Column list \<Rightarrow> string \<Rightarrow> int" where
  "column_position tableColumns col =
     foldl (\<lambda>colIdx (i, tableCol). if ColumnName tableCol = col then int i else colIdx) (- 1)
       (enumerate 0 tableColumns)"

fun serialise_positions :: "Column list \<Rightarrow> string list \<Rightarrow> bytes \<Rightarrow> goerr + bytes" where
  "serialise_positions tableColumns [] serialisedSchema = Inr serialisedSchema"
| "serialise_positions tableColumns (col # cols) serialisedSchema =
     (let colIdx = column_position tableColumns col in
      if colIdx = - 1
      then Inl (Errorf (''column: '' @ [CHR 0x27] @ col @ [CHR 0x27] @ '' not found''))
      else serialise_positions tableColumns cols (serialisedSchema @ be32 (word_of_int colIdx)))"

fun serialise_indexes :: "Column list \<Rightarrow> SecondaryIndex list \<Rightarrow> bytes \<Rightarrow> goerr + bytes" where
  "serialise_indexes tableColumns [] serialisedSchema = Inr serialisedSchema"
| "serialise_indexes tableColumns (secondaryIndex # idxs) serialisedSchema =
     (let serialisedSchema = (serialisedSchema @ len32 (IndexName secondaryIndex)) @ IndexName secondaryIndex;
          serialisedSchema = serialisedSchema @ be32 (word_of_nat (length (Columns secondaryIndex))) in
      case serialise_positions tableColumns (Columns secondaryIndex) serialisedSchema of
        Inl e \<Rightarrow> Inl e
      | Inr serialisedSchema \<Rightarrow> serialise_indexes tableColumns idxs serialisedSchema)"

definition serialiseSecondaryIndexCatalog ::
    "(string \<rightharpoonup> CreateTable) \<Rightarrow> string \<Rightarrow> SecondaryIndex list \<Rightarrow> goerr + bytes" where
  "serialiseSecondaryIndexCatalog schemas tableName secondaryIndexes =
     serialise_indexes (ColumnDetails (schema_of schemas tableName)) secondaryIndexes
       (be32 (word_of_nat (length secondaryIndexes)))"

fun read_positions ::
    "nat \<Rightarrow> Column list \<Rightarrow> bytes \<Rightarrow> nat \<Rightarrow> string list \<Rightarrow> goerr + string list \<times> nat" where
  "read_positions 0 tableColumns buf i columns = Inr (columns, i)"
| "read_positions (Suc k) tableColumns buf i columns =
     (if i + 4 > length buf
      then Inl (Errorf ''unexpected error while reading column index position'')
      else let colPosition = unat (Uint32 (slice buf i (i + 4))) in
        if colPosition \<ge> length tableColumns
        then Inl (Errorf (''col position must be within 0 and ''
               @ int_dec (int (length tableColumns) - 1) @ ''. Got '' @ nat_dec colPosition))
        else read_positions k tableColumns buf (i + 4)
               (columns @ [ColumnName (tableColumns ! colPosition)]))"

fun read_indexes ::
    "nat \<Rightarrow> Column list \<Rightarrow> bytes \<Rightarrow> nat \<Rightarrow> SecondaryIndex list \<Rightarrow> goerr + SecondaryIndex list" where
  "read_indexes 0 tableColumns buf i secondaryIndexes = Inr secondaryIndexes"
| "read_indexes (Suc j) tableColumns buf i secondaryIndexes =
     (if i + 4 > length buf then Inl (Errorf ''unexpected error while reading index name length'')
      else let indexNameLen = unat (Uint32 (slice buf i (i + 4))); i = i + 4 in
        if i + indexNameLen > length buf then Inl (Errorf ''unexpected error while reading index name'')
        else let indexName = slice buf i (i + indexNameLen); i = i + indexNameLen in
          if i + 4 > length buf
          then Inl (Errorf ''unexpected error while reading number of columns in index'')
          else let numColumns = unat (Uint32 (slice buf i (i + 4))); i = i + 4 in
            (case read_positions numColumns tableColumns buf i [] of
               Inl e \<Rightarrow> Inl e
             | Inr (columns, i) \<Rightarrow>
                 read_indexes j tableColumns buf i
                   (secondaryIndexes @ [\<lparr>Columns = columns, IndexName = indexName\<rparr>])))"

definition deserialiseSecondaryIndexCatalog ::
    "bytes \<Rightarrow> Column list \<Rightarrow> goerr + SecondaryIndex list" where
  "deserialiseSecondaryIndexCatalog buf tableColumns =
     (if 4 > length buf then Inl (Errorf ''unexpected error while reading number of indexes'')
      else read_indexes (unat (Uint32 (slice buf 0 4))) tableColumns buf 4 [])"

subsection \<open>Schemas are read back\<close>

lemma of_byte_byte_of [simp]: "of_byte (byte_of x) = x"
proof -
  have "unat x < 256"
    using unsigned_less [of x, where ?'a = nat] by simp
  then show ?thesis
    by (simp add: of_byte_def byte_of_def)
qed

lemma byte_of_of_byte [simp]: "byte_of (of_byte c) = c"
proof -
  have "(of_char c :: nat) < 256"
    by simp
  then show ?thesis
    by (simp add: of_byte_def byte_of_def unat_of_nat take_bit_nat_eq_self)
qed

interpretation column: offset_reader column_bytes read_column
proof
  fix pre post :: bytes and x :: Column
  assume fits: "fits32 (length (pre @ column_bytes x @ post))"
  define n :: nat where "n = length (ColumnName x)"
  have n: "unat (word_of_nat n :: 32 word) = n"
    using fits by (simp add: column_bytes_def n_def)
  have "slice (pre @ column_bytes x @ post) (Suc (length pre)) (Suc (length pre) + 4) = len32 (ColumnName x)"
    using slice_at [of "Suc (length pre)" "pre @ [byte_of (DataType x)]" _ "len32 (ColumnName x)"
        "ColumnName x @ post"] by (simp add: column_bytes_def)
  moreover have "slice (pre @ column_bytes x @ post) (Suc (length pre) + 4) (Suc (length pre) + 4 + n) = ColumnName x"
    using slice_at [of "Suc (length pre) + 4" "pre @ byte_of (DataType x) # len32 (ColumnName x)" _
        "ColumnName x" post] by (simp add: column_bytes_def n_def ac_simps)
  moreover have "(pre @ column_bytes x @ post) ! length pre = byte_of (DataType x)"
    "length (pre @ column_bytes x @ post) = Suc (length pre) + 4 + n + length post"
    "length (column_bytes x) = Suc (4 + n)"
    by (simp_all add: column_bytes_def n_def nth_append)
  ultimately show "read_column (pre @ column_bytes x @ post) (length pre) =
      Inr (x, length pre + length (column_bytes x))"
    by (simp add: read_column_def Let_def n_def [symmetric] n)
next
  fix buf :: bytes and off off' :: nat and x :: Column
  assume fits: "fits32 (length buf)" and read: "read_column buf off = Inr (x, off')"
  define n where "n = Uint32 (slice buf (Suc off) (5 + off))"
  have "off + 1 + 4 = 5 + off" "off + 1 + 4 + unat n = 5 + off + unat n"
    by simp_all
  with read have space: "5 + off + unat n \<le> length buf"
    and x: "ColumnName x = slice buf (5 + off) (5 + off + unat n)" "DataType x = of_byte (buf ! off)"
    and off': "off' = 5 + off + unat n"
    by (auto simp: read_column_def n_def Let_def split: if_splits)
  have len: "length (ColumnName x) = unat n"
    using x(1) space by simp
  have be: "be32 n = slice buf (Suc off) (5 + off)"
    unfolding n_def using space by (intro be32_Uint32) simp
  have "slice buf off (Suc off) = [buf ! off]"
    using space by (simp add: slice_def take_Suc_conv_app_nth hd_drop_conv_nth take_Suc)
  moreover have "slice buf off off' = slice buf off (Suc off) @ slice buf (Suc off) off'"
    by (rule slice_split) (use off' in simp_all)
  moreover have "slice buf (Suc off) off' = slice buf (Suc off) (5 + off) @ slice buf (5 + off) off'"
    by (rule slice_split) (use off' in simp_all)
  ultimately have "slice buf off off' = buf ! off # be32 n @ ColumnName x"
    using off' be x(1) by simp
  then show "off' = off + length (column_bytes x) \<and> off' \<le> length buf
      \<and> slice buf off off' = column_bytes x"
    using space off' x(2) len by (simp add: column_bytes_def)
qed

lemma column_bytes_not_Nil: "0 < length (column_bytes c)"
  by (simp add: column_bytes_def)

lemma read_all_columns_bytes:
  assumes "fits32 (length (pre @ concat (map column_bytes cols)))"
  shows "read_all_columns (pre @ concat (map column_bytes cols)) (length pre) acc = Inr (acc @ cols)"
  using assms
proof (induction cols arbitrary: pre acc)
  case Nil
  then show ?case by (simp add: read_all_columns.simps)
next
  case (Cons c cols)
  let ?buf = "pre @ concat (map column_bytes (c # cols))"
  have "read_column ?buf (length pre) = Inr (c, length pre + length (column_bytes c))"
    by (rule column.read_at [OF Cons.prems, of _ _ "concat (map column_bytes cols)"]) simp_all
  moreover have "length pre < length ?buf"
    using column_bytes_not_Nil [of c] by simp
  ultimately show ?case
    using Cons.IH [of "pre @ column_bytes c" "acc @ [c]"] Cons.prems
    by (subst read_all_columns.simps) simp
qed

lemma serialiseCreateTableInput_bytes:
  "serialiseCreateTableInput t =
     be32 (word_of_int (PrimaryKeyColumnPosition t)) @ concat (map column_bytes (ColumnDetails t))"
proof -
  have "foldl (\<lambda>s col. ((s @ [byte_of (DataType col)]) @ len32 (ColumnName col)) @ ColumnName col) pre cols =
      pre @ concat (map column_bytes cols)" for pre cols
    by (induction cols arbitrary: pre) (simp_all add: column_bytes_def)
  then show ?thesis
    by (simp add: serialiseCreateTableInput_def)
qed

subsection \<open>Secondary indexes are read back\<close>

lemma column_position_Nil [simp]: "column_position [] col = - 1"
  by (simp add: column_position_def)

lemma column_position_snoc:
  "column_position (tc @ [x]) col =
     (if ColumnName x = col then int (length tc) else column_position tc col)"
  by (simp add: column_position_def enumerate_append_eq)

lemma column_position_found:
  "col \<in> ColumnName ` set tc \<Longrightarrow>
   \<exists>i < length tc. column_position tc col = int i \<and> ColumnName (tc ! i) = col"
proof (induction tc rule: rev_induct)
  case Nil
  then show ?case by simp
next
  case (snoc x tc)
  show ?case
  proof (cases "ColumnName x = col")
    case True
    then show ?thesis
      by (intro exI [of _ "length tc"]) (simp add: column_position_snoc)
  next
    case False
    with snoc obtain i where "i < length tc" "column_position tc col = int i" "ColumnName (tc ! i) = col"
      by auto
    with False show ?thesis
      by (intro exI [of _ i]) (simp add: column_position_snoc nth_append)
  qed
qed

lemma column_position_missing:
  "col \<notin> ColumnName ` set tc \<Longrightarrow> column_position tc col = - 1"
  by (induction tc rule: rev_induct) (auto simp: column_position_snoc)

definition position_bytes :: "Column list \<Rightarrow> string \<Rightarrow> bytes" where
  "position_bytes tc col = be32 (word_of_int (column_position tc col))"

definition one_index_bytes :: "Column list \<Rightarrow> SecondaryIndex \<Rightarrow> bytes" where
  "one_index_bytes tc idx = lp (IndexName idx) @ be32 (word_of_nat (length (Columns idx)))
     @ concat (map (position_bytes tc) (Columns idx))"

definition columns_known :: "Column list \<Rightarrow> SecondaryIndex list \<Rightarrow> bool" where
  "columns_known tc idxs \<longleftrightarrow> (\<forall>idx \<in> set idxs. set (Columns idx) \<subseteq> ColumnName ` set tc)"

lemma serialise_positions_known:
  "set cols \<subseteq> ColumnName ` set tc \<Longrightarrow>
   serialise_positions tc cols acc = Inr (acc @ concat (map (position_bytes tc) cols))"
proof (induction cols arbitrary: acc)
  case Nil
  then show ?case by simp
next
  case (Cons col cols)
  then have "column_position tc col \<noteq> - 1"
    using column_position_found [of col tc] by auto
  with Cons show ?case
    by (simp add: position_bytes_def)
qed

lemma serialise_indexes_known:
  "columns_known tc idxs \<Longrightarrow>
   serialise_indexes tc idxs acc = Inr (acc @ concat (map (one_index_bytes tc) idxs))"
  by (induction idxs arbitrary: acc)
     (simp_all add: columns_known_def serialise_positions_known one_index_bytes_def Let_def)

lemma length_position_bytes [simp]: "length (position_bytes tc col) = 4"
  by (simp add: position_bytes_def)

lemma length_concat_positions [simp]: "length (concat (map (position_bytes tc) cols)) = 4 * length cols"
  by (induction cols) simp_all

lemma read_positions_bytes:
  assumes "set cols \<subseteq> ColumnName ` set tc" and "fits32 (length tc)"
  shows "read_positions (length cols) tc (pre @ concat (map (position_bytes tc) cols) @ post) (length pre) acc =
    Inr (acc @ cols, length pre + 4 * length cols)"
  using assms(1)
proof (induction cols arbitrary: pre acc)
  case Nil
  then show ?case by simp
next
  case (Cons col cols)
  let ?buf = "pre @ concat (map (position_bytes tc) (col # cols)) @ post"
  obtain i where i: "i < length tc" "column_position tc col = int i" "ColumnName (tc ! i) = col"
    using column_position_found [of col tc] Cons.prems by auto
  have "slice ?buf (length pre) (length pre + 4) = position_bytes tc col"
    using slice_at [of "length pre" pre _ "position_bytes tc col"] by simp
  moreover have "unat (word_of_int (int i) :: 32 word) = i"
    using i(1) assms(2) by simp
  ultimately show ?case
    using Cons.IH [of "pre @ position_bytes tc col" "acc @ [col]"] Cons.prems i
    by (simp add: position_bytes_def [of tc col] Let_def)
qed

lemma read_indexes_bytes:
  assumes "columns_known tc idxs" and "fits32 (length tc)"
    and "fits32 (length (pre @ concat (map (one_index_bytes tc) idxs)))"
  shows "read_indexes (length idxs) tc (pre @ concat (map (one_index_bytes tc) idxs)) (length pre) acc =
    Inr (acc @ idxs)"
  using assms(1,3)
proof (induction idxs arbitrary: pre acc)
  case Nil
  then show ?case by simp
next
  case (Cons idx idxs)
  let ?name = "IndexName idx" and ?cols = "Columns idx"
  let ?post = "concat (map (one_index_bytes tc) idxs)"
  let ?buf = "pre @ concat (map (one_index_bytes tc) (idx # idxs))"
  define l m k where "l = length pre" and "m = length ?name" and "k = length ?cols"
  have buf: "?buf = pre @ len32 ?name @ ?name @ be32 (word_of_nat k)
      @ concat (map (position_bytes tc) ?cols) @ ?post"
    by (simp add: one_index_bytes_def k_def)
  have len: "length ?buf = l + 4 + m + 4 + 4 * k + length ?post"
    by (simp add: one_index_bytes_def l_def m_def k_def)
  have small: "unat (word_of_nat m :: 32 word) = m" "unat (word_of_nat k :: 32 word) = k"
    using Cons.prems(2) len by simp_all
  have "slice ?buf l (l + 4) = len32 ?name"
    unfolding buf by (rule slice_at) (simp_all add: l_def)
  moreover have "slice ?buf (l + 4) (l + 4 + m) = ?name"
    using slice_at [of "l + 4" "pre @ len32 ?name" "l + 4 + m" ?name] unfolding buf
    by (simp add: l_def m_def)
  moreover have "slice ?buf (l + 4 + m) (l + 4 + m + 4) = be32 (word_of_nat k)"
    using slice_at [of "l + 4 + m" "pre @ lp ?name" "l + 4 + m + 4" "be32 (word_of_nat k)"]
    unfolding buf by (simp add: l_def m_def)
  moreover have "read_positions k tc ?buf (l + 4 + m + 4) [] = Inr (?cols, l + 4 + m + 4 + 4 * k)"
    using read_positions_bytes [of ?cols tc "pre @ lp ?name @ be32 (word_of_nat k)" ?post "[]"]
      Cons.prems(1) assms(2) unfolding buf
    by (simp add: l_def m_def k_def columns_known_def add.assoc)
  moreover have "read_indexes (length idxs) tc ?buf (l + 4 + m + 4 + 4 * k)
      (acc @ [\<lparr>Columns = ?cols, IndexName = ?name\<rparr>]) = Inr (acc @ idx # idxs)"
  proof -
    have "length (pre @ one_index_bytes tc idx) = l + 4 + m + 4 + 4 * k"
      by (simp add: one_index_bytes_def l_def m_def k_def)
    then show ?thesis
      using Cons.IH [of "pre @ one_index_bytes tc idx" "acc @ [idx]"] Cons.prems
      by (cases idx) (simp add: columns_known_def)
  qed
  ultimately show ?case
    using len small by (simp add: l_def [symmetric] m_def [symmetric] Let_def)
qed

subsection \<open>Properties\<close>

text \<open>A schema is read back from the catalog as it was written: the columns with their
  types in order and the position of the primary key. The name of the table and its secondary
  indexes are not part of it.\<close>

theorem schema_roundtrip:
  assumes "0 \<le> PrimaryKeyColumnPosition t" and "PrimaryKeyColumnPosition t < 4294967296"
    and "fits32 (length (serialiseCreateTableInput t))"
  shows "deserialiseCreateTableInput (serialiseCreateTableInput t) =
    Inr (t\<lparr>TableName := '''', SecondaryIndexes := []\<rparr>)"
proof -
  let ?pk = "be32 (word_of_int (PrimaryKeyColumnPosition t))"
  have "uint (word_of_int (PrimaryKeyColumnPosition t) :: 32 word) = PrimaryKeyColumnPosition t"
    using assms(1,2) by (simp add: uint_word_of_int)
  moreover have "read_all_columns (?pk @ concat (map column_bytes (ColumnDetails t))) (length ?pk) [] =
      Inr ([] @ ColumnDetails t)"
    by (rule read_all_columns_bytes) (use assms(3) in \<open>simp add: serialiseCreateTableInput_bytes\<close>)
  ultimately show ?thesis
    by (simp add: deserialiseCreateTableInput_def serialiseCreateTableInput_bytes slice_def)
qed

theorem schema_roundtrip_witness:
  "deserialiseCreateTableInput (serialiseCreateTableInput
     \<lparr>TableName = ''users'', ColumnDetails = [\<lparr>ColumnName = ''name'', DataType = 1\<rparr>,
        \<lparr>ColumnName = ''id'', DataType = 0\<rparr>], PrimaryKeyColumnPosition = 1, SecondaryIndexes = []\<rparr>) =
   Inr \<lparr>TableName = '''', ColumnDetails = [\<lparr>ColumnName = ''name'', DataType = 1\<rparr>,
        \<lparr>ColumnName = ''id'', DataType = 0\<rparr>], PrimaryKeyColumnPosition = 1, SecondaryIndexes = []\<rparr>"
  using schema_roundtrip [of "\<lparr>TableName = ''users'', ColumnDetails = [\<lparr>ColumnName = ''name'', DataType = 1\<rparr>,
        \<lparr>ColumnName = ''id'', DataType = 0\<rparr>], PrimaryKeyColumnPosition = 1, SecondaryIndexes = []\<rparr>"]
  by (simp add: serialiseCreateTableInput_bytes column_bytes_def)

text \<open>The secondary indexes of a table are read back as they were written, with the columns
  in index order, when every index column is a column of the table.\<close>

theorem secondary_index_roundtrip:
  assumes "schemas tableName = Some t" and "fits32 (length (ColumnDetails t))"
    and "\<forall>idx \<in> set idxs. set (Columns idx) \<subseteq> ColumnName ` set (ColumnDetails t)"
  shows "\<exists>buf. serialiseSecondaryIndexCatalog schemas tableName idxs = Inr buf
    \<and> (fits32 (length buf + length idxs) \<longrightarrow>
        deserialiseSecondaryIndexCatalog buf (ColumnDetails t) = Inr idxs)"
proof -
  let ?tc = "ColumnDetails t" and ?n = "be32 (word_of_nat (length idxs))"
  let ?buf = "?n @ concat (map (one_index_bytes ?tc) idxs)"
  have known: "columns_known ?tc idxs"
    using assms(3) by (simp add: columns_known_def)
  have "serialiseSecondaryIndexCatalog schemas tableName idxs = Inr ?buf"
    by (simp add: serialiseSecondaryIndexCatalog_def schema_of_def assms(1) serialise_indexes_known [OF known])
  moreover have "deserialiseSecondaryIndexCatalog ?buf ?tc = Inr idxs"
    if fits: "fits32 (length ?buf + length idxs)"
  proof -
    have "unat (word_of_nat (length idxs) :: 32 word) = length idxs"
      using fits by simp
    moreover have "slice ?buf 0 4 = ?n"
      by (simp add: slice_def)
    ultimately show ?thesis
      using read_indexes_bytes [OF known assms(2), of ?n "[]"] fits
      by (simp add: deserialiseSecondaryIndexCatalog_def)
  qed
  ultimately show ?thesis
    by blast
qed

theorem secondary_index_roundtrip_witness:
  "\<exists>buf. serialiseSecondaryIndexCatalog [''u'' \<mapsto> \<lparr>TableName = ''u'',
       ColumnDetails = [\<lparr>ColumnName = ''a'', DataType = 0\<rparr>, \<lparr>ColumnName = ''b'', DataType = 1\<rparr>],
       PrimaryKeyColumnPosition = 1, SecondaryIndexes = []\<rparr>] ''u''
       [\<lparr>Columns = [''b'', ''a''], IndexName = ''i''\<rparr>] = Inr buf
    \<and> (fits32 (length buf + length [\<lparr>Columns = [''b'', ''a''], IndexName = ''i''\<rparr>]) \<longrightarrow>
        deserialiseSecondaryIndexCatalog buf (ColumnDetails \<lparr>TableName = ''u'',
          ColumnDetails = [\<lparr>ColumnName = ''a'', DataType = 0\<rparr>, \<lparr>ColumnName = ''b'', DataType = 1\<rparr>],
          PrimaryKeyColumnPosition = 1, SecondaryIndexes = []\<rparr>) =
        Inr [\<lparr>Columns = [''b'', ''a''], IndexName = ''i''\<rparr>])"
  by (rule secondary_index_roundtrip) simp_all

end
