(* ===== verification/Wal.thy ===== *)
theory Wal
  imports Go_IO
begin

unbundle bit_operations_syntax

text \<open>
  \<^verbatim>\<open>wal/wal.go\<close>: the write-ahead log, a file of records
  \<open>[length][payload][checksum]\<close>. The handle keeps a read offset; since the file is opened
  with \<open>O_APPEND\<close>, every write goes to the end of the file and leaves the offset there.

  The lemmas: what \<open>WriteEntry\<close> writes \<open>ReadEntry\<close> reads back; what \<open>ReadEntry\<close> answers
  on every torn record, on an oversized one and on a corrupted one.
\<close>

record Wal =
  wal_path :: string
  rpos :: nat

definition defaultWalPath :: string where
  "defaultWalPath = ''wal.log''"

subsection \<open>The checksum: \<open>crc32.ChecksumIEEE\<close>\<close>

text \<open>One shift of the reflected CRC-32 register, polynomial \<open>0xEDB88320\<close>.\<close>

definition crc_shift :: "32 word \<Rightarrow> 32 word" where
  "crc_shift c = (if bit c 0 then drop_bit 1 c XOR 0xEDB88320 else drop_bit 1 c)"

definition crc_byte :: "32 word \<Rightarrow> char \<Rightarrow> 32 word" where
  "crc_byte c b = (crc_shift ^^ 8) (c XOR word_of_nat (of_char b))"

definition ChecksumIEEE :: "bytes \<Rightarrow> 32 word" where
  "ChecksumIEEE bs = NOT (foldl crc_byte (NOT 0) bs)"

subsection \<open>Operations\<close>

text \<open>\<open>NewWal\<close>: an empty path means the default one; the offset of a fresh handle is 0.\<close>

definition NewWal :: "string \<Rightarrow> world \<Rightarrow> (goerr + Wal) \<times> world" where
  "NewWal filePath w =
     (let path = (if filePath = '''' then defaultWalPath else filePath) in
      case OpenFile_create path w of
        (Inl e, w') \<Rightarrow> (Inl e, w')
      | (Inr f, w') \<Rightarrow> (Inr \<lparr>wal_path = f, rpos = 0\<rparr>, w'))"

definition wal_record :: "bytes \<Rightarrow> bytes" where
  "wal_record payload = len32 payload @ payload @ be32 (ChecksumIEEE payload)"

text \<open>The offset of an \<open>O_APPEND\<close> handle after a write.\<close>

definition wal_at_end :: "world \<Rightarrow> Wal \<Rightarrow> Wal" where
  "wal_at_end w wal = (case files w (wal_path wal) of
     None \<Rightarrow> wal | Some c \<Rightarrow> wal\<lparr>rpos := length c\<rparr>)"

definition WriteEntry :: "Wal \<Rightarrow> bytes \<Rightarrow> world \<Rightarrow> (goerr + unit) \<times> Wal \<times> world" where
  "WriteEntry wal payload w =
     (case file_Write (wal_path wal) (wal_record payload) w of
        (Inl e, w') \<Rightarrow> (Inl e, wal_at_end w' wal, w')
      | (Inr _, w') \<Rightarrow> (case file_Sync w' of (r, w'') \<Rightarrow> (r, wal_at_end w' wal, w'')))"

abbreviation ErrUnexpectedEOF :: goerr where
  "ErrUnexpectedEOF \<equiv> Errorf ''unexpected EOF''"

text \<open>\<open>io.ReadFull\<close> from the handle's offset, for a buffer of \<open>n\<close> bytes.\<close>

definition ReadFull :: "Wal \<Rightarrow> nat \<Rightarrow> world \<Rightarrow> (goerr + bytes) \<times> Wal" where
  "ReadFull wal n w =
     (if n = 0 then (Inr [], wal)
      else case files w (wal_path wal) of
        None \<Rightarrow> (Inl SysErr, wal)
      | Some c \<Rightarrow>
          if unreadable w (wal_path wal) then (Inl SysErr, wal)
          else let got = take n (drop (rpos wal) c);
                   wal' = wal\<lparr>rpos := rpos wal + length got\<rparr>
               in if length got = n then (Inr got, wal')
                  else if got = [] then (Inl EOF, wal')
                  else (Inl ErrUnexpectedEOF, wal'))"

definition ReadEntry :: "Wal \<Rightarrow> world \<Rightarrow> (goerr + bytes) \<times> Wal" where
  "ReadEntry wal w =
     (case ReadFull wal 4 w of
        (Inl e, wal1) \<Rightarrow>
          (Inl (if e = ErrUnexpectedEOF then Errorf ''partial write: incomplete length'' else e), wal1)
      | (Inr lengthBuf, wal1) \<Rightarrow>
          let payloadLength = Uint32 lengthBuf in
          if payloadLength > 1000000 then (Inl (Errorf ''corrupt: length too large''), wal1)
          else case ReadFull wal1 (unat payloadLength) w of
            (Inl e, wal2) \<Rightarrow>
              (Inl (if e = ErrUnexpectedEOF then Errorf ''partial write: incomplete payload'' else e), wal2)
          | (Inr payload, wal2) \<Rightarrow>
              (case ReadFull wal2 4 w of
                 (Inl e, wal3) \<Rightarrow>
                   (Inl (if e = ErrUnexpectedEOF then Errorf ''partial write: incomplete checksum'' else e), wal3)
               | (Inr checksumBuf, wal3) \<Rightarrow>
                   if Uint32 checksumBuf \<noteq> ChecksumIEEE payload
                   then (Inl (Errorf ''corrupt: checksum mismatch''), wal3)
                   else (Inr payload, wal3)))"

text \<open>\<open>Clear\<close>: \<open>Truncate(0)\<close>, then \<open>Seek(0, 0)\<close>; both errors are ignored.\<close>

definition Wal_Clear :: "Wal \<Rightarrow> world \<Rightarrow> Wal \<times> world" where
  "Wal_Clear wal w = (wal\<lparr>rpos := 0\<rparr>, file_Truncate0 (wal_path wal) w)"

subsection \<open>The checksum tells payloads apart that differ in one byte\<close>

lemma xor_right_cancel:
  fixes a b p :: "32 word"
  shows "a XOR p = b XOR p \<Longrightarrow> a = b"
  by (metis xor.assoc xor_self_eq xor.right_neutral)

lemma drop_bit_1_eqI:
  fixes c d :: "32 word"
  assumes "drop_bit 1 c = drop_bit 1 d" and "bit c 0 = bit d 0"
  shows "c = d"
proof (rule bit_eqI)
  fix n
  show "bit c n = bit d n"
    using assms(2) arg_cong [OF assms(1), of "\<lambda>x. bit x (n - 1)"]
    by (cases n) (simp_all add: bit_drop_bit_eq comp_def)
qed

lemma inj_crc_shift: "inj crc_shift"
proof (rule injI)
  fix c d :: "32 word"
  assume eq: "crc_shift c = crc_shift d"
  have top: "\<not> bit (drop_bit 1 x) 31" for x :: "32 word"
    using bit_imp_le_length [of x 32] by (auto simp: bit_drop_bit_eq)
  have "bit (0xEDB88320 :: 32 word) 31"
    by simp
  with top have "bit (crc_shift x) 31 = bit x 0" for x
    by (simp add: crc_shift_def bit_xor_iff)
  with eq have low: "bit c 0 = bit d 0"
    by metis
  have "drop_bit 1 c = drop_bit 1 d"
  proof (cases "bit c 0")
    case True
    with eq low have "drop_bit 1 c XOR 0xEDB88320 = drop_bit 1 d XOR 0xEDB88320"
      by (simp add: crc_shift_def)
    then show ?thesis
      by (rule xor_right_cancel)
  next
    case False
    with eq low show ?thesis by (simp add: crc_shift_def)
  qed
  then show "c = d"
    using low by (rule drop_bit_1_eqI)
qed

lemma crc_byte_inj_state: "crc_byte c b = crc_byte d b \<Longrightarrow> c = d"
  using inj_fn [OF inj_crc_shift, of 8]
  by (auto simp: crc_byte_def inj_eq intro: xor_right_cancel)

lemma crc_byte_inj_byte: "crc_byte c a = crc_byte c b \<Longrightarrow> a = b"
proof -
  assume "crc_byte c a = crc_byte c b"
  then have "word_of_nat (of_char a) XOR c = word_of_nat (of_char b) XOR c"
    using inj_fn [OF inj_crc_shift, of 8] by (simp add: crc_byte_def inj_eq xor.commute)
  then have "(word_of_nat (of_char a) :: 32 word) = word_of_nat (of_char b)"
    by (rule xor_right_cancel)
  then have "unat (word_of_nat (of_char a) :: 32 word) = unat (word_of_nat (of_char b) :: 32 word)"
    by (rule arg_cong)
  moreover have "fits32 (of_char x)" for x
    using nat_of_char_less_256 [of x] by linarith
  ultimately have "(of_char a :: nat) = of_char b"
    by (simp only: unat_word_of_nat32)
  then show "a = b" by simp
qed

lemma foldl_crc_byte_inj: "foldl crc_byte c bs = foldl crc_byte d bs \<Longrightarrow> c = d"
  by (induction bs arbitrary: c d) (auto dest: crc_byte_inj_state)

lemma ChecksumIEEE_one_byte:
  assumes "a \<noteq> b"
  shows "ChecksumIEEE (pre @ a # post) \<noteq> ChecksumIEEE (pre @ b # post)"
  using assms crc_byte_inj_byte foldl_crc_byte_inj
  by (auto simp: ChecksumIEEE_def dest!: foldl_crc_byte_inj crc_byte_inj_byte)

subsection \<open>Reading records\<close>

text \<open>What the handle still has to read.\<close>

definition unread :: "Wal \<Rightarrow> world \<Rightarrow> bytes" where
  "unread wal w = (case files w (wal_path wal) of None \<Rightarrow> [] | Some c \<Rightarrow> drop (rpos wal) c)"

definition readable :: "Wal \<Rightarrow> world \<Rightarrow> bool" where
  "readable wal w \<longleftrightarrow> wal_path wal \<in> dom (files w) \<and> \<not> unreadable w (wal_path wal)"

lemma readable_rpos [simp]: "readable (wal\<lparr>rpos := n\<rparr>) w = readable wal w"
  by (simp add: readable_def)

lemma unread_advance:
  "unread wal w = a @ b \<Longrightarrow> unread (wal\<lparr>rpos := rpos wal + length a\<rparr>) w = b"
  by (auto simp: unread_def split: option.splits)
     (metis add.commute append_eq_conv_conj drop_drop)

lemma ReadFull_unread:
  "readable wal w \<Longrightarrow> ReadFull wal n w =
     (if n \<le> length (unread wal w)
      then (Inr (take n (unread wal w)), wal\<lparr>rpos := rpos wal + n\<rparr>)
      else (Inl (if unread wal w = [] then EOF else ErrUnexpectedEOF),
            wal\<lparr>rpos := rpos wal + length (unread wal w)\<rparr>))"
  by (auto simp: ReadFull_def readable_def unread_def Let_def min_def)

lemma ReadFull_Inr:
  "ReadFull wal n w = (Inr x, wal') \<Longrightarrow>
     wal' = wal\<lparr>rpos := rpos wal + n\<rparr> \<and> n \<le> length (unread wal w)"
  by (auto simp: ReadFull_def unread_def Let_def split: if_splits option.splits)

lemma ReadFull_exact:
  assumes "readable wal w" and "unread wal w = x @ rest" and "n = length x"
  shows "ReadFull wal n w = (Inr x, wal\<lparr>rpos := rpos wal + n\<rparr>)"
  using assms by (simp add: ReadFull_unread)

lemma ReadFull_short:
  assumes "readable wal w" and "unread wal w = x" and "length x < n"
  shows "ReadFull wal n w =
    (Inl (if x = [] then EOF else ErrUnexpectedEOF), wal\<lparr>rpos := rpos wal + length x\<rparr>)"
  using assms by (simp add: ReadFull_unread)


lemma length_wal_record [simp]: "length (wal_record p) = length p + 8"
  by (simp add: wal_record_def)

text \<open>A header for \<open>n\<close> bytes, then a body, then four checksum bytes.\<close>

lemma ReadEntry_steps:
  assumes "unat n = k" and "\<not> n > 1000000" and "ReadFull wal 4 w = (Inr (be32 n), wal1)"
    and "ReadFull wal1 k w = (Inr p, wal2)" and "ReadFull wal2 4 w = (Inr (be32 cs), wal3)"
  shows "ReadEntry wal w =
    ((if cs = ChecksumIEEE p then Inr p else Inl (Errorf ''corrupt: checksum mismatch'')), wal3)"
  using assms by (simp add: ReadEntry_def)

lemma ReadEntry_framed:
  assumes "readable wal w" and "length p \<le> 1000000"
    and "unread wal w = len32 p @ p @ be32 cs @ rest"
  shows "ReadEntry wal w =
    ((if cs = ChecksumIEEE p then Inr p else Inl (Errorf ''corrupt: checksum mismatch'')),
     wal\<lparr>rpos := rpos wal + (length p + 8)\<rparr>)"
proof -
  let ?wal1 = "wal\<lparr>rpos := rpos wal + 4\<rparr>"
  let ?wal2 = "wal\<lparr>rpos := rpos wal + 4 + length p\<rparr>"
  define n :: "32 word" where "n = word_of_nat (length p)"
  have "fits32 (length p)"
    using assms(2) by simp
  then have n: "unat n = length p" "\<not> n > 1000000"
    using assms(2) by (simp_all add: n_def word_less_nat_alt)
  have u1: "unread ?wal1 w = p @ be32 cs @ rest"
    using unread_advance [OF assms(3)] by simp
  then have u2: "unread ?wal2 w = be32 cs @ rest"
    using unread_advance [of ?wal1 w p] by simp
  have "ReadFull wal 4 w = (Inr (be32 n), ?wal1)"
    using ReadFull_exact [OF assms(1,3), of 4] by (simp add: n_def)
  moreover have "ReadFull ?wal1 (length p) w = (Inr p, ?wal2)"
    using ReadFull_exact [of ?wal1 w p _ "length p"] assms(1) u1 by simp
  moreover have "ReadFull ?wal2 4 w = (Inr (be32 cs), ?wal2\<lparr>rpos := rpos ?wal2 + 4\<rparr>)"
    by (rule ReadFull_exact [OF _ u2]) (use assms(1) in simp_all)
  moreover have "?wal2\<lparr>rpos := rpos ?wal2 + 4\<rparr> = wal\<lparr>rpos := rpos wal + (length p + 8)\<rparr>"
    by simp
  ultimately show ?thesis
    using ReadEntry_steps [OF n] by metis
qed

lemma ReadEntry_record:
  assumes "readable wal w" and "length p \<le> 1000000" and "unread wal w = wal_record p @ rest"
  shows "ReadEntry wal w = (Inr p, wal\<lparr>rpos := rpos wal + length (wal_record p)\<rparr>)"
  using ReadEntry_framed [OF assms(1,2), of "ChecksumIEEE p" rest] assms(3)
  by (simp add: wal_record_def)

lemma ReadEntry_end: "readable wal w \<Longrightarrow> unread wal w = [] \<Longrightarrow> ReadEntry wal w = (Inl EOF, wal)"
  using ReadFull_short [of wal w "[]" 4] by (simp add: ReadEntry_def)

lemma ReadEntry_progress:
  "ReadEntry wal w = (Inr p, wal') \<Longrightarrow> length (unread wal' w) < length (unread wal w)"
  by (auto simp: ReadEntry_def Let_def unread_def split: prod.splits sum.splits if_splits option.splits
      dest!: ReadFull_Inr)

subsection \<open>Torn records\<close>

text \<open>The answer to a record of which only the first \<open>k\<close> bytes reached the file.\<close>

definition torn_error :: "nat \<Rightarrow> nat \<Rightarrow> goerr" where
  "torn_error len k =
     (if k \<in> {0, 4, 4 + len} then EOF
      else if k < 4 then Errorf ''partial write: incomplete length''
      else if k < 4 + len then Errorf ''partial write: incomplete payload''
      else Errorf ''partial write: incomplete checksum'')"

lemma ReadEntry_short_header:
  assumes "readable wal w" and "length (unread wal w) < 4"
  shows "fst (ReadEntry wal w) =
    Inl (if unread wal w = [] then EOF else Errorf ''partial write: incomplete length'')"
  using ReadFull_short [OF assms(1) refl assms(2)] by (simp add: ReadEntry_def)

lemma ReadEntry_short_payload:
  assumes "readable wal w" and "unat n \<le> 1000000"
    and "unread wal w = be32 n @ body" and "length body < unat n"
  shows "fst (ReadEntry wal w) =
    Inl (if body = [] then EOF else Errorf ''partial write: incomplete payload'')"
proof -
  let ?wal1 = "wal\<lparr>rpos := rpos wal + 4\<rparr>"
  have "unread ?wal1 w = body"
    using unread_advance [OF assms(3)] by simp
  then have "ReadFull ?wal1 (unat n) w =
      (Inl (if body = [] then EOF else ErrUnexpectedEOF), ?wal1\<lparr>rpos := rpos ?wal1 + length body\<rparr>)"
    by (intro ReadFull_short) (use assms in simp_all)
  moreover have "ReadFull wal 4 w = (Inr (be32 n), ?wal1)"
    using ReadFull_exact [OF assms(1,3), of 4] by simp
  moreover have "\<not> n > 1000000"
    using assms(2) by (simp add: word_less_nat_alt)
  ultimately show ?thesis
    by (simp add: ReadEntry_def)
qed

lemma ReadEntry_short_checksum:
  assumes "readable wal w" and "length p \<le> 1000000"
    and "unread wal w = len32 p @ p @ tail" and "length tail < 4"
  shows "fst (ReadEntry wal w) =
    Inl (if tail = [] then EOF else Errorf ''partial write: incomplete checksum'')"
proof -
  define n :: "32 word" where "n = word_of_nat (length p)"
  have "fits32 (length p)"
    using assms(2) by simp
  then have n: "unat n = length p" "\<not> n > 1000000"
    using assms(2) by (simp_all add: n_def word_less_nat_alt)
  let ?wal1 = "wal\<lparr>rpos := rpos wal + 4\<rparr>"
  let ?wal2 = "?wal1\<lparr>rpos := rpos ?wal1 + length p\<rparr>"
  have u1: "unread ?wal1 w = p @ tail"
    using unread_advance [OF assms(3)] by simp
  have "ReadFull wal 4 w = (Inr (be32 n), ?wal1)"
    using ReadFull_exact [OF assms(1,3), of 4] by (simp add: n_def)
  moreover have "ReadFull ?wal1 (length p) w = (Inr p, ?wal2)"
    by (rule ReadFull_exact [OF _ u1]) (use assms(1) in simp_all)
  moreover have "ReadFull ?wal2 4 w =
      (Inl (if tail = [] then EOF else ErrUnexpectedEOF), ?wal2\<lparr>rpos := rpos ?wal2 + length tail\<rparr>)"
    by (rule ReadFull_short [OF _ unread_advance [OF u1] assms(4)]) (use assms(1) in simp)
  ultimately show ?thesis
    using n by (simp add: ReadEntry_def)
qed

lemma ReadEntry_torn:
  assumes "readable wal w" and "length p \<le> 1000000"
    and "k < length (wal_record p)" and "unread wal w = take k (wal_record p)"
  shows "fst (ReadEntry wal w) = Inl (torn_error (length p) k)"
proof -
  have "fits32 (length p)"
    using assms(2) by simp
  then have n: "unat (word_of_nat (length p) :: 32 word) = length p"
    by (rule unat_word_of_nat32)
  consider (header) "k < 4" | (payload) "4 \<le> k" "k < 4 + length p" | (checksum) "4 + length p \<le> k"
    by linarith
  then show ?thesis
  proof cases
    case header
    have "length (unread wal w) = k"
      using assms(3,4) by simp
    with header show ?thesis
      using ReadEntry_short_header [OF assms(1)] by (auto simp: torn_error_def)
  next
    case payload
    then have "unread wal w = len32 p @ take (k - 4) p"
      using assms(4) by (simp add: wal_record_def)
    moreover have "length (take (k - 4) p) < length p"
      using payload by simp
    ultimately show ?thesis
      using ReadEntry_short_payload [OF assms(1), of "word_of_nat (length p)" "take (k - 4) p"]
        payload assms(2) n by (auto simp: torn_error_def)
  next
    case checksum
    then have "unread wal w = len32 p @ p @ take (k - 4 - length p) (be32 (ChecksumIEEE p))"
      using assms(4) by (simp add: wal_record_def)
    then show ?thesis
      using ReadEntry_short_checksum [OF assms(1,2)] checksum assms(3)
      by (auto simp: torn_error_def)
  qed
qed

subsection \<open>Writing records\<close>

lemma WriteEntry_calm:
  assumes "calm w" and "files w (wal_path wal) = Some c"
  shows "WriteEntry wal p w =
    (Inr (), wal\<lparr>rpos := length c + length (wal_record p)\<rparr>,
     w\<lparr>files := (files w)(wal_path wal \<mapsto> c @ wal_record p)\<rparr>)"
  using assms by (simp add: WriteEntry_def file_Write_calm file_Sync_calm wal_at_end_def)

lemma Wal_Clear_calm:
  "calm w \<Longrightarrow> Wal_Clear wal w =
     (wal\<lparr>rpos := 0\<rparr>, w\<lparr>files := (files w)(wal_path wal \<mapsto> [])\<rparr>)"
  by (simp add: Wal_Clear_def file_Truncate0_calm)

subsection \<open>Properties\<close>

text \<open>A record that \<open>WriteEntry\<close> acknowledged is read back. The handle that stands
  where the record was appended reads exactly the payload, ends where the writing handle
  ends, and there finds the end of the log. Payloads are bounded by the 1,000,000 bytes that
  \<open>ReadEntry\<close> accepts.\<close>

theorem wal_write_then_read:
  assumes "calm w" and "files w (wal_path wal) = Some c" and "length p \<le> 1000000"
  shows "\<exists>wal' w'. WriteEntry wal p w = (Inr (), wal', w')
    \<and> files w' (wal_path wal) = Some (c @ wal_record p)
    \<and> ReadEntry (wal\<lparr>rpos := length c\<rparr>) w' = (Inr p, wal')
    \<and> ReadEntry wal' w' = (Inl EOF, wal')"
proof -
  let ?w' = "w\<lparr>files := (files w)(wal_path wal \<mapsto> c @ wal_record p)\<rparr>"
  let ?start = "wal\<lparr>rpos := length c\<rparr>"
  let ?finish = "wal\<lparr>rpos := length c + length (wal_record p)\<rparr>"
  have ok: "readable ?start ?w'" "readable ?finish ?w'"
    using assms(1) by (simp_all add: readable_def)
  have "ReadEntry ?start ?w' = (Inr p, ?start\<lparr>rpos := rpos ?start + length (wal_record p)\<rparr>)"
    by (rule ReadEntry_record [OF ok(1) assms(3), of "[]"]) (simp add: unread_def)
  moreover have "ReadEntry ?finish ?w' = (Inl EOF, ?finish)"
    by (rule ReadEntry_end [OF ok(2)]) (simp add: unread_def)
  ultimately show ?thesis
    using WriteEntry_calm [OF assms(1,2), of p] by simp
qed

theorem wal_write_then_read_witness:
  "\<exists>wal' w'. WriteEntry \<lparr>wal_path = ''l'', rpos = 0\<rparr> ''PUT'' (one_file ''l'' [])
       = (Inr (), wal', w')
    \<and> ReadEntry \<lparr>wal_path = ''l'', rpos = 0\<rparr> w' = (Inr ''PUT'', wal')"
  using wal_write_then_read [of "one_file ''l'' []" "\<lparr>wal_path = ''l'', rpos = 0\<rparr>" "[]" "''PUT''"]
  by simp blast

text \<open>Every torn tail of the log, classified. When only the first \<open>k\<close> bytes of a
  record are in the file, \<open>ReadEntry\<close> names the field that is incomplete, except that at
  the field boundaries (nothing, only the length, or length and payload without checksum)
  it answers \<open>io.EOF\<close>, the same answer as at the end of a complete log.\<close>

theorem wal_torn_record:
  assumes "readable wal w" and "length p \<le> 1000000"
    and "k < length (wal_record p)" and "unread wal w = take k (wal_record p)"
  shows "fst (ReadEntry wal w) = Inl
    (if k \<in> {0, 4, 4 + length p} then EOF
     else if k < 4 then Errorf ''partial write: incomplete length''
     else if k < 4 + length p then Errorf ''partial write: incomplete payload''
     else Errorf ''partial write: incomplete checksum'')"
  using ReadEntry_torn [OF assms] by (simp only: torn_error_def)

theorem wal_torn_record_witness:
  "fst (ReadEntry \<lparr>wal_path = ''l'', rpos = 0\<rparr> (one_file ''l'' (take 13 (wal_record ''PUT key value''))))
     = Inl (Errorf ''partial write: incomplete payload'')
   \<and> fst (ReadEntry \<lparr>wal_path = ''l'', rpos = 0\<rparr> (one_file ''l'' (take 17 (wal_record ''PUT key value''))))
     = Inl EOF"
  using wal_torn_record [of "\<lparr>wal_path = ''l'', rpos = 0\<rparr>"
      "one_file ''l'' (take 13 (wal_record ''PUT key value''))" "''PUT key value''" 13]
    wal_torn_record [of "\<lparr>wal_path = ''l'', rpos = 0\<rparr>"
      "one_file ''l'' (take 17 (wal_record ''PUT key value''))" "''PUT key value''" 17]
  by (simp add: readable_def unread_def one_file_def)

text \<open>C39: a record whose payload changed in any single byte on disk is rejected: the
  stored checksum differs from the computed one, so \<open>ReadEntry\<close> reports the mismatch and
  returns no payload.\<close>

theorem wal_detects_corrupt_byte:
  assumes "readable wal w" and "length (pre @ a # post) \<le> 1000000" and "a \<noteq> b"
    and "unread wal w = len32 (pre @ a # post) @ (pre @ b # post)
           @ be32 (ChecksumIEEE (pre @ a # post)) @ rest"
  shows "fst (ReadEntry wal w) = Inl (Errorf ''corrupt: checksum mismatch'')"
proof -
  have "len32 (pre @ a # post) = len32 (pre @ b # post)"
    by simp
  with assms(4) have u: "unread wal w =
      len32 (pre @ b # post) @ (pre @ b # post) @ be32 (ChecksumIEEE (pre @ a # post)) @ rest"
    by (simp only:)
  have "length (pre @ b # post) \<le> 1000000"
    using assms(2) by simp
  from ReadEntry_framed [OF assms(1) this u] ChecksumIEEE_one_byte [OF assms(3)]
  show ?thesis by simp
qed

theorem wal_detects_corrupt_byte_witness:
  "fst (ReadEntry \<lparr>wal_path = ''l'', rpos = 0\<rparr>
     (one_file ''l'' (len32 ''PUT a 1'' @ ''PUT a 2'' @ be32 (ChecksumIEEE ''PUT a 1''))))
   = Inl (Errorf ''corrupt: checksum mismatch'')"
  using wal_detects_corrupt_byte [of "\<lparr>wal_path = ''l'', rpos = 0\<rparr>"
      "one_file ''l'' (len32 ''PUT a 1'' @ ''PUT a 2'' @ be32 (ChecksumIEEE ''PUT a 1''))"
      "''PUT a ''" "CHR ''1''" "[]" "CHR ''2''" "[]"]
  by (simp add: readable_def unread_def one_file_def)

text \<open>A log torn right behind a length field is taken for a complete one, and the next
  acknowledged record is then lost: the first read reports the end of the log, the write of
  \<open>q\<close> succeeds, and reading the log again fails with a partial write instead of
  returning \<open>q\<close>.\<close>

theorem wal_append_after_torn_header:
  assumes "calm w" and "files w (wal_path wal) = Some (c @ take 4 (wal_record p))"
    and "length q + 8 < length p" and "length p \<le> 1000000"
  shows "fst (ReadEntry (wal\<lparr>rpos := length c\<rparr>) w) = Inl EOF
    \<and> (\<exists>wal' w'. WriteEntry wal q w = (Inr (), wal', w')
        \<and> fst (ReadEntry (wal\<lparr>rpos := length c\<rparr>) w')
            = Inl (Errorf ''partial write: incomplete payload''))"
proof -
  let ?start = "wal\<lparr>rpos := length c\<rparr>"
  let ?w' = "w\<lparr>files := (files w)(wal_path wal \<mapsto> (c @ take 4 (wal_record p)) @ wal_record q)\<rparr>"
  have "fits32 (length p)"
    using assms(4) by simp
  then have n: "unat (word_of_nat (length p) :: 32 word) = length p"
    by (rule unat_word_of_nat32)
  have "fst (ReadEntry ?start w) = Inl (torn_error (length p) 4)"
    using assms by (intro ReadEntry_torn) (simp_all add: readable_def unread_def domI)
  moreover have "fst (ReadEntry ?start ?w') =
      Inl (if wal_record q = [] then EOF else Errorf ''partial write: incomplete payload'')"
    by (rule ReadEntry_short_payload [where n = "word_of_nat (length p)"])
       (use assms n in \<open>simp_all add: readable_def unread_def wal_record_def\<close>)
  ultimately show ?thesis
    using WriteEntry_calm [OF assms(1,2), of q] by (simp add: torn_error_def wal_record_def)
qed

theorem wal_append_after_torn_header_witness:
  "fst (ReadEntry \<lparr>wal_path = ''l'', rpos = 0\<rparr> (one_file ''l'' (take 4 (wal_record (replicate 20 CHR ''x'')))))
     = Inl EOF
   \<and> (\<exists>wal' w'. WriteEntry \<lparr>wal_path = ''l'', rpos = 0\<rparr> ''PUT''
          (one_file ''l'' (take 4 (wal_record (replicate 20 CHR ''x'')))) = (Inr (), wal', w')
       \<and> fst (ReadEntry \<lparr>wal_path = ''l'', rpos = 0\<rparr> w')
           = Inl (Errorf ''partial write: incomplete payload''))"
  using wal_append_after_torn_header [of "one_file ''l'' (take 4 (wal_record (replicate 20 CHR ''x'')))"
      "\<lparr>wal_path = ''l'', rpos = 0\<rparr>" "[]" "replicate 20 CHR ''x''" "''PUT''"]
  by simp

end
