(* ===== verification/Wal_Command.thy ===== *)
theory Wal_Command
  imports Codec Memtable Wal
begin

text \<open>
  The commands inside WAL payloads (\<^verbatim>\<open>db/db.go\<close>, \<^verbatim>\<open>db/transaction.go\<close>): length-prefixed
  strings, the \<open>PUT\<close> and \<open>TRANSACTION\<close> payloads, and \<open>buildMemtableFromWal\<close>, which
  replays a log into a fresh memtable.

  Readers take the buffer and the current offset and return the value with the new offset,
  as the Go code does through its \<open>*offset\<close> pointer. The locale \<open>offset_reader\<close> of
  \<open>Codec\<close> is interpreted for strings and for key-value pairs.
\<close>

definition CmdPut :: string where "CmdPut = ''PUT''"

definition CmdTransaction :: string where "CmdTransaction = ''TRANSACTION''"

record walPutCommand =
  wkey :: string
  wvalue :: string

subsection \<open>Encoding and decoding\<close>

definition appendLengthPrefixedString :: "bytes \<Rightarrow> string \<Rightarrow> bytes" where
  "appendLengthPrefixedString buf val = (buf @ len32 val) @ val"

definition readUint32 :: "bytes \<Rightarrow> nat \<Rightarrow> goerr + 32 word \<times> nat" where
  "readUint32 buf offset =
     (if int (length buf) - int offset < 4 then Inl (Errorf ''malformed WAL command: missing uint32'')
      else Inr (Uint32 (slice buf offset (offset + 4)), offset + 4))"

definition readLengthPrefixedString :: "bytes \<Rightarrow> nat \<Rightarrow> goerr + string \<times> nat" where
  "readLengthPrefixedString buf offset =
     (case readUint32 buf offset of
        Inl e \<Rightarrow> Inl e
      | Inr (valueLen, offset) \<Rightarrow>
          if valueLen > word_of_nat (length buf - offset)
          then Inl (Errorf ''malformed WAL command: string length exceeds payload'')
          else Inr (slice buf offset (offset + unat valueLen), offset + unat valueLen))"

definition serialisePutCommand :: "string \<Rightarrow> string \<Rightarrow> bytes" where
  "serialisePutCommand key val =
     (let buf = [];
          buf = appendLengthPrefixedString buf CmdPut;
          buf = appendLengthPrefixedString buf key;
          buf = appendLengthPrefixedString buf val
      in buf)"

definition deserialisePutCommand :: "bytes \<Rightarrow> nat \<Rightarrow> goerr + (string \<times> string) \<times> nat" where
  "deserialisePutCommand buf offset =
     (case readLengthPrefixedString buf offset of
        Inl e \<Rightarrow> Inl e
      | Inr (key, offset) \<Rightarrow> (case readLengthPrefixedString buf offset of
          Inl e \<Rightarrow> Inl e
        | Inr (val, offset) \<Rightarrow>
            if offset \<noteq> length buf
            then Inl (Errorf ''malformed WAL command: unexpected trailing bytes'')
            else Inr ((key, val), offset)))"

text \<open>\<open>ord\<close> is the order in which \<open>range\<close> visits the map.\<close>

definition serialiseTransactionCommitPayload :: "string list \<Rightarrow> (string \<rightharpoonup> string) \<Rightarrow> bytes" where
  "serialiseTransactionCommitPayload ord writeMap =
     foldl (\<lambda>buf (key, val).
         appendLengthPrefixedString (appendLengthPrefixedString buf key) val)
       (appendLengthPrefixedString [] CmdTransaction @ be32 (word_of_nat (length ord)))
       (range_pairs ord writeMap)"

text \<open>The loop of \<open>deserialiseTransactionCommand\<close>, over the number of writes to go.\<close>

fun read_put_commands ::
    "nat \<Rightarrow> bytes \<Rightarrow> nat \<Rightarrow> walPutCommand list \<Rightarrow> goerr + walPutCommand list \<times> nat" where
  "read_put_commands 0 buf offset putCmds = Inr (putCmds, offset)"
| "read_put_commands (Suc n) buf offset putCmds =
     (case readLengthPrefixedString buf offset of
        Inl e \<Rightarrow> Inl e
      | Inr (key, offset) \<Rightarrow> (case readLengthPrefixedString buf offset of
          Inl e \<Rightarrow> Inl e
        | Inr (val, offset) \<Rightarrow>
            read_put_commands n buf offset (putCmds @ [\<lparr>wkey = key, wvalue = val\<rparr>])))"

definition deserialiseTransactionCommand :: "bytes \<Rightarrow> goerr + walPutCommand list" where
  "deserialiseTransactionCommand buf =
     (case readUint32 buf 0 of
        Inl e \<Rightarrow> Inl e
      | Inr (numWrites, offset) \<Rightarrow> (case read_put_commands (unat numWrites) buf offset [] of
          Inl e \<Rightarrow> Inl e
        | Inr (putCmds, offset) \<Rightarrow>
            if offset \<noteq> length buf
            then Inl (Errorf ''malformed WAL command: unexpected trailing bytes'')
            else Inr putCmds))"

subsection \<open>Replaying the log\<close>

text \<open>One payload applied to the memtable: the \<open>switch cmd\<close> of \<open>buildMemtableFromWal\<close>.\<close>

definition replay_payload ::
    "'t btree \<Rightarrow> bytes \<Rightarrow> 't Memtable \<Rightarrow> goerr + 't Memtable" where
  "replay_payload B payload m =
     (case readLengthPrefixedString payload 0 of
        Inl e \<Rightarrow> Inl e
      | Inr (cmd, offset) \<Rightarrow>
          if cmd = CmdPut then
            (case deserialisePutCommand payload offset of
               Inl e \<Rightarrow> Inl e
             | Inr ((key, val), _) \<Rightarrow> Inr (Memtable_Put B key val m))
          else if cmd = CmdTransaction then
            (case deserialiseTransactionCommand (drop offset payload) of
               Inl e \<Rightarrow> Inl e
             | Inr putCmds \<Rightarrow> Inr (foldl (\<lambda>m c. Memtable_Put B (wkey c) (wvalue c) m) m putCmds))
          else Inl (Errorf (''unknown WAL command: '' @ cmd)))"

text \<open>The loop ends: every entry it reads shortens the unread part of the log.\<close>

function replay_wal ::
    "'t btree \<Rightarrow> Wal \<Rightarrow> world \<Rightarrow> 't Memtable \<Rightarrow> (goerr + 't Memtable) \<times> Wal" where
  "replay_wal B wal w m =
     (case ReadEntry wal w of
        (Inl e, wal') \<Rightarrow> (if e = EOF then Inr m else Inl e, wal')
      | (Inr payload, wal') \<Rightarrow> (case replay_payload B payload m of
          Inl e \<Rightarrow> (Inl e, wal')
        | Inr m' \<Rightarrow> replay_wal B wal' w m'))"
  by pat_completeness auto
termination
  by (relation "measure (\<lambda>(B, wal, w, m). length (unread wal w))")
     (auto dest: ReadEntry_progress [OF sym])

declare replay_wal.simps [simp del]

definition buildMemtableFromWal ::
    "'t btree \<Rightarrow> Wal \<Rightarrow> world \<Rightarrow> (goerr + 't Memtable) \<times> Wal" where
  "buildMemtableFromWal B wal w = replay_wal B wal w (NewMemtable B)"

subsection \<open>The readers keep the reader contract\<close>

interpretation lpstring: offset_reader lp readLengthPrefixedString
proof
  fix pre post :: bytes and x :: string
  assume fits: "fits32 (length (pre @ lp x @ post))"
  define n :: "32 word" where "n = word_of_nat (length x)"
  have "unat n = length x" "\<not> n > word_of_nat (length x + length post)"
    unfolding n_def using fits by (simp, intro word32_not_less) simp_all
  then show "readLengthPrefixedString (pre @ lp x @ post) (length pre) =
      Inr (x, length pre + length (lp x))"
    by (simp add: readLengthPrefixedString_def readUint32_def slice_def n_def [symmetric]
        del: of_nat_add)
next
  fix buf :: bytes and off off' :: nat and x :: string
  assume fits: "fits32 (length buf)" and off: "off \<le> length buf"
    and read: "readLengthPrefixedString buf off = Inr (x, off')"
  define n where "n = Uint32 (slice buf off (off + 4))"
  from read have space: "off + 4 \<le> length buf"
    and n: "\<not> n > word_of_nat (length buf - (off + 4))"
    and x: "x = slice buf (off + 4) (off + 4 + unat n)" and off': "off' = off + 4 + unat n"
    by (auto simp: readLengthPrefixedString_def readUint32_def n_def split: if_splits)
  from n fits have le: "unat n \<le> length buf - (off + 4)"
    by (simp add: word_less_nat_alt)
  with space x have "length x = unat n"
    by simp
  moreover have "be32 n = slice buf off (off + 4)"
    unfolding n_def using space by (intro be32_Uint32) simp
  ultimately show "off' = off + length (lp x) \<and> off' \<le> length buf \<and> slice buf off off' = lp x"
    using x off' space le by (simp add: slice_split [of off "off + 4" "off + 4 + unat n"])
qed

subsection \<open>Put commands\<close>

definition put_bytes :: "walPutCommand \<Rightarrow> bytes" where
  "put_bytes c = lp (wkey c) @ lp (wvalue c)"

definition read_put_command :: "bytes \<Rightarrow> nat \<Rightarrow> goerr + walPutCommand \<times> nat" where
  "read_put_command buf offset =
     (case readLengthPrefixedString buf offset of
        Inl e \<Rightarrow> Inl e
      | Inr (key, offset) \<Rightarrow> (case readLengthPrefixedString buf offset of
          Inl e \<Rightarrow> Inl e
        | Inr (val, offset) \<Rightarrow> Inr (\<lparr>wkey = key, wvalue = val\<rparr>, offset)))"

lemma read_put_commands_read_n:
  "read_put_commands n buf off acc = read_n read_put_command n buf off acc"
  by (induction n arbitrary: off acc) (auto simp: read_put_command_def split: sum.splits)

interpretation putcmd: offset_reader put_bytes read_put_command
proof
  fix pre post :: bytes and c :: walPutCommand
  let ?buf = "pre @ put_bytes c @ post"
  assume fits: "fits32 (length ?buf)"
  have "readLengthPrefixedString ?buf (length pre) = Inr (wkey c, length pre + length (lp (wkey c)))"
    by (rule lpstring.read_at [OF fits]) (simp_all add: put_bytes_def)
  moreover have "readLengthPrefixedString ?buf (length pre + length (lp (wkey c))) =
      Inr (wvalue c, length pre + length (lp (wkey c)) + length (lp (wvalue c)))"
    by (rule lpstring.read_at [OF fits, of "pre @ lp (wkey c)" _ post])
       (simp_all add: put_bytes_def)
  ultimately show "read_put_command ?buf (length pre) = Inr (c, length pre + length (put_bytes c))"
    by (simp add: read_put_command_def put_bytes_def)
next
  fix buf :: bytes and off off' :: nat and c :: walPutCommand
  assume fits: "fits32 (length buf)" and off: "off \<le> length buf"
    and read: "read_put_command buf off = Inr (c, off')"
  from read obtain off1 where k: "readLengthPrefixedString buf off = Inr (wkey c, off1)"
    and v: "readLengthPrefixedString buf off1 = Inr (wvalue c, off')"
    by (auto simp: read_put_command_def split: sum.splits)
  note ks = lpstring.read_sound [OF fits off k]
  note vs = lpstring.read_sound [OF fits _ v]
  show "off' = off + length (put_bytes c) \<and> off' \<le> length buf \<and> slice buf off off' = put_bytes c"
  proof -
    have "slice buf off off' = slice buf off off1 @ slice buf off1 off'"
      by (rule slice_split) (use ks vs in auto)
    with ks vs show ?thesis
      by (auto simp: put_bytes_def)
  qed
qed

text \<open>A payload is accepted exactly when it is what the writer produces.\<close>

lemma deserialisePutCommand_eq:
  assumes "fits32 (length buf)" and "off \<le> length buf"
  shows "deserialisePutCommand buf off = Inr ((k, v), off') \<longleftrightarrow>
    drop off buf = lp k @ lp v \<and> off' = length buf"
proof -
  let ?c = "\<lparr>wkey = k, wvalue = v\<rparr>"
  have "deserialisePutCommand buf off = Inr ((k, v), off') \<longleftrightarrow>
      read_put_command buf off = Inr (?c, length buf) \<and> off' = length buf"
    by (auto simp: deserialisePutCommand_def read_put_command_def split: sum.splits)
  moreover have "drop off buf = put_bytes ?c" if "read_put_command buf off = Inr (?c, length buf)"
    using putcmd.read_sound [OF assms that] assms(2) by (simp add: slice_to_end)
  moreover have "read_put_command buf off = Inr (?c, length buf)" if "drop off buf = put_bytes ?c"
    using putcmd.read_at [of buf "take off buf" ?c "[]" off] assms that
    by (metis add_diff_inverse_nat append_Nil2 append_take_drop_id length_drop length_take
        min.absorb2 not_less)
  ultimately show ?thesis
    by (auto simp: put_bytes_def)
qed

lemma length_put_bytes_ge: "length cs \<le> length (concat (map put_bytes cs))"
  by (induction cs) (auto simp: put_bytes_def)

lemma deserialiseTransactionCommand_eq:
  assumes "fits32 (length buf)"
  shows "deserialiseTransactionCommand buf = Inr cs \<longleftrightarrow>
    buf = be32 (word_of_nat (length cs)) @ concat (map put_bytes cs)"
proof
  assume "deserialiseTransactionCommand buf = Inr cs"
  then have len: "4 \<le> length buf"
    and "read_n read_put_command (unat (Uint32 (slice buf 0 4))) buf 4 [] = Inr (cs, length buf)"
    by (auto simp: deserialiseTransactionCommand_def readUint32_def read_put_commands_read_n
        split: sum.splits if_splits prod.splits)
  from putcmd.read_n_sound [OF assms len this(2)]
  have n: "length cs = unat (Uint32 (slice buf 0 4))"
    and tail: "slice buf 4 (length buf) = concat (map put_bytes cs)"
    by auto
  have "be32 (word_of_nat (length cs)) = slice buf 0 4"
    using len by (simp add: n be32_Uint32)
  with tail len show "buf = be32 (word_of_nat (length cs)) @ concat (map put_bytes cs)"
    using slice_split [of 0 4 "length buf" buf] by simp
next
  let ?pre = "be32 (word_of_nat (length cs))"
  assume buf: "buf = ?pre @ concat (map put_bytes cs)"
  have "fits32 (length cs)"
    using assms length_put_bytes_ge [of cs] by (simp add: buf)
  then have "unat (Uint32 (slice buf 0 4)) = length cs"
    by (simp add: buf slice_def)
  moreover have "read_n read_put_command (length cs) buf 4 [] = Inr (cs, length buf)"
    using putcmd.read_n_enc [of ?pre cs "[]" "[]"] assms by (simp add: buf)
  ultimately show "deserialiseTransactionCommand buf = Inr cs"
    using buf by (simp add: deserialiseTransactionCommand_def readUint32_def read_put_commands_read_n)
qed

subsection \<open>Commands and their payloads\<close>

text \<open>What a log records, seen abstractly: single puts and committed transactions.\<close>

datatype wal_cmd = Put_Cmd string string | Transaction_Cmd "walPutCommand list"

fun cmd_payload :: "wal_cmd \<Rightarrow> bytes" where
  "cmd_payload (Put_Cmd k v) = lp CmdPut @ lp k @ lp v"
| "cmd_payload (Transaction_Cmd cs) =
     lp CmdTransaction @ be32 (word_of_nat (length cs)) @ concat (map put_bytes cs)"

fun cmd_writes :: "wal_cmd \<Rightarrow> (string \<times> string) list" where
  "cmd_writes (Put_Cmd k v) = [(k, v)]"
| "cmd_writes (Transaction_Cmd cs) = map (\<lambda>c. (wkey c, wvalue c)) cs"

text \<open>\<open>ReadEntry\<close> accepts the payload.\<close>

definition cmd_fits :: "wal_cmd \<Rightarrow> bool" where
  "cmd_fits c \<longleftrightarrow> length (cmd_payload c) \<le> 1000000"

definition log_bytes :: "wal_cmd list \<Rightarrow> bytes" where
  "log_bytes cs = concat (map (\<lambda>c. wal_record (cmd_payload c)) cs)"

definition log_writes :: "wal_cmd list \<Rightarrow> (string \<times> string) list" where
  "log_writes cs = concat (map cmd_writes cs)"

lemma log_simps [simp]:
  "log_bytes [] = []" "log_writes [] = []"
  "log_bytes (c # cs) = wal_record (cmd_payload c) @ log_bytes cs"
  "log_writes (c # cs) = cmd_writes c @ log_writes cs"
  "log_bytes (cs @ ds) = log_bytes cs @ log_bytes ds"
  "log_writes (cs @ ds) = log_writes cs @ log_writes ds"
  by (simp_all add: log_bytes_def log_writes_def)

lemma serialisePutCommand_payload: "serialisePutCommand k v = cmd_payload (Put_Cmd k v)"
  by (simp add: serialisePutCommand_def appendLengthPrefixedString_def)

definition txn_commands :: "string list \<Rightarrow> (string \<rightharpoonup> string) \<Rightarrow> walPutCommand list" where
  "txn_commands ord m = map (\<lambda>(k, v). \<lparr>wkey = k, wvalue = v\<rparr>) (range_pairs ord m)"

lemma serialise_txn_fold:
  "foldl (\<lambda>buf (key, val). appendLengthPrefixedString (appendLengthPrefixedString buf key) val) buf kvs
     = buf @ concat (map put_bytes (map (\<lambda>(k, v). \<lparr>wkey = k, wvalue = v\<rparr>) kvs))"
  by (induction kvs arbitrary: buf) (auto simp: appendLengthPrefixedString_def put_bytes_def)

lemma serialiseTransactionCommitPayload_payload:
  "serialiseTransactionCommitPayload ord m = cmd_payload (Transaction_Cmd (txn_commands ord m))"
  unfolding serialiseTransactionCommitPayload_def serialise_txn_fold
  by (simp add: txn_commands_def appendLengthPrefixedString_def range_pairs_def)

lemma cmd_writes_txn_commands [simp]:
  "cmd_writes (Transaction_Cmd (txn_commands ord m)) = range_pairs ord m"
  by (simp add: txn_commands_def comp_def split_def)

subsection \<open>Replay of a log\<close>

abbreviation puts :: "'t btree \<Rightarrow> (string \<times> string) list \<Rightarrow> 't Memtable \<Rightarrow> 't Memtable" where
  "puts B kvs m \<equiv> foldl (\<lambda>m kv. Memtable_Put B (fst kv) (snd kv) m) m kvs"

lemma cmd_names [simp]: "length CmdPut = 3" "length CmdTransaction = 11" "CmdTransaction \<noteq> CmdPut"
  by (simp_all add: CmdPut_def CmdTransaction_def)

lemma replay_payload_cmd:
  assumes "cmd_fits c"
  shows "replay_payload B (cmd_payload c) m = Inr (puts B (cmd_writes c) m)"
proof -
  have fits: "fits32 (length (cmd_payload c))"
    using assms by (simp add: cmd_fits_def)
  show ?thesis
  proof (cases c)
    case (Put_Cmd k v)
    have name: "readLengthPrefixedString (cmd_payload c) 0 = Inr (CmdPut, 7)"
      using lpstring.read_at [OF fits, of "[]" CmdPut "lp k @ lp v" 0] Put_Cmd by simp
    have args: "deserialisePutCommand (cmd_payload c) 7 = Inr ((k, v), length (cmd_payload c))"
      using deserialisePutCommand_eq [OF fits, of 7] Put_Cmd by simp
    show ?thesis
      using name args Put_Cmd by (simp add: replay_payload_def del: cmd_payload.simps)
  next
    case (Transaction_Cmd cs)
    let ?tail = "be32 (word_of_nat (length cs)) @ concat (map put_bytes cs)"
    have name: "readLengthPrefixedString (cmd_payload c) 0 = Inr (CmdTransaction, 15)"
      using lpstring.read_at [OF fits, of "[]" CmdTransaction ?tail 0] Transaction_Cmd by simp
    have "drop 15 (cmd_payload c) = ?tail" "fits32 (length ?tail)"
      using fits Transaction_Cmd by simp_all
    then have args: "deserialiseTransactionCommand (drop 15 (cmd_payload c)) = Inr cs"
      by (simp add: deserialiseTransactionCommand_eq)
    show ?thesis
      using name args Transaction_Cmd
      by (simp add: replay_payload_def foldl_map del: cmd_payload.simps)
  qed
qed

text \<open>Complete records are replayed one by one; what follows them decides the end.\<close>

lemma replay_wal_prefix:
  assumes "readable wal w" and "\<forall>c \<in> set cs. cmd_fits c" and "unread wal w = log_bytes cs @ rest"
  shows "replay_wal B wal w m =
      replay_wal B (wal\<lparr>rpos := rpos wal + length (log_bytes cs)\<rparr>) w (puts B (log_writes cs) m)
    \<and> unread (wal\<lparr>rpos := rpos wal + length (log_bytes cs)\<rparr>) w = rest"
  using assms
proof (induction cs arbitrary: wal m)
  case Nil
  then show ?case by simp
next
  case (Cons c cs)
  let ?rec = "wal_record (cmd_payload c)"
  let ?wal1 = "wal\<lparr>rpos := rpos wal + length ?rec\<rparr>"
  have u: "unread wal w = ?rec @ log_bytes cs @ rest"
    using Cons.prems(3) by simp
  have c: "cmd_fits c" "length (cmd_payload c) \<le> 1000000"
    using Cons.prems(2) by (simp_all add: cmd_fits_def)
  have "replay_wal B wal w m = replay_wal B ?wal1 w (puts B (cmd_writes c) m)"
    using ReadEntry_record [OF Cons.prems(1) c(2) u] replay_payload_cmd [OF c(1), of B m]
    by (simp add: replay_wal.simps [of B wal])
  moreover note Cons.IH [of ?wal1 "puts B (cmd_writes c) m"]
  moreover have "readable ?wal1 w" "\<forall>c \<in> set cs. cmd_fits c" "unread ?wal1 w = log_bytes cs @ rest"
    using Cons.prems(1,2) unread_advance [OF u] by simp_all
  ultimately show ?case
    by (simp add: add.assoc)
qed

lemma replay_wal_stops:
  "fst (ReadEntry wal w) = Inl e \<Longrightarrow>
     fst (replay_wal B wal w m) = (if e = EOF then Inr m else Inl e)"
  by (cases "ReadEntry wal w") (simp add: replay_wal.simps [of B wal])

lemma replay_log:
  assumes "readable wal w" and "\<forall>c \<in> set cs. cmd_fits c" and "unread wal w = log_bytes cs"
  shows "replay_wal B wal w m =
    (Inr (puts B (log_writes cs) m), wal\<lparr>rpos := rpos wal + length (log_bytes cs)\<rparr>)"
  using replay_wal_prefix [of wal w cs "[]" B m] assms
    ReadEntry_end [of "wal\<lparr>rpos := rpos wal + length (log_bytes cs)\<rparr>" w]
  by (simp add: replay_wal.simps [of B "wal\<lparr>rpos := rpos wal + length (log_bytes cs)\<rparr>"])

lemma cmd_fits_Put: "cmd_fits (Put_Cmd k v) \<longleftrightarrow> length k + length v \<le> 999985"
  by (auto simp: cmd_fits_def)

subsection \<open>Properties\<close>

text \<open>The \<open>PUT\<close> payload, in both directions. \<open>deserialisePutCommand\<close> behind the
  command name accepts a payload exactly when \<open>serialisePutCommand\<close> produces it, and then
  returns the key and the value it was produced from; any other payload (truncated,
  with trailing bytes, with a wrong length) is an error.\<close>

theorem put_payload_exact:
  assumes "fits32 (length payload)" and "take 7 payload = lp CmdPut"
  shows "readLengthPrefixedString payload 0 = Inr (CmdPut, 7)
    \<and> ((\<exists>off. deserialisePutCommand payload 7 = Inr ((k, v), off)) \<longleftrightarrow>
         payload = serialisePutCommand k v)"
proof -
  have split: "payload = lp CmdPut @ drop 7 payload"
    using assms(2) append_take_drop_id [of 7 payload] by simp
  have "length (take 7 payload) = 7"
    unfolding assms(2) by simp
  then have "7 \<le> length payload"
    by simp
  then have "(\<exists>off. deserialisePutCommand payload 7 = Inr ((k, v), off)) \<longleftrightarrow>
      drop 7 payload = lp k @ lp v"
    by (simp add: deserialisePutCommand_eq [OF assms(1)])
  moreover have "\<dots> \<longleftrightarrow> payload = serialisePutCommand k v"
    by (subst split) (simp add: serialisePutCommand_payload)
  moreover have "readLengthPrefixedString payload 0 = Inr (CmdPut, 7)"
    using lpstring.read_at [OF assms(1), of "[]" CmdPut "drop 7 payload" 0] split by simp
  ultimately show ?thesis by simp
qed

theorem put_payload_exact_witness:
  "readLengthPrefixedString (serialisePutCommand ''key with spaces'' ''v'') 0 = Inr (CmdPut, 7)
   \<and> (\<exists>off. deserialisePutCommand (serialisePutCommand ''key with spaces'' ''v'') 7
        = Inr ((''key with spaces'', ''v''), off))"
  using put_payload_exact [of "serialisePutCommand ''key with spaces'' ''v''" "''key with spaces''" "''v''"]
  by (simp add: serialisePutCommand_payload)

text \<open>The \<open>TRANSACTION\<close> payload round trip. In whatever order Go ranges over the
  buffered writes when it serialises them, the payload names the command and
  \<open>deserialiseTransactionCommand\<close> returns commands that amount to the same writes.\<close>

theorem transaction_payload_roundtrip:
  assumes "range_order ord writeMap"
    and "fits32 (length (serialiseTransactionCommitPayload ord writeMap))"
  shows "\<exists>putCmds.
    readLengthPrefixedString (serialiseTransactionCommitPayload ord writeMap) 0
      = Inr (CmdTransaction, 15)
    \<and> deserialiseTransactionCommand (drop 15 (serialiseTransactionCommitPayload ord writeMap))
      = Inr putCmds
    \<and> map_of (map (\<lambda>c. (wkey c, wvalue c)) putCmds) = writeMap"
proof -
  let ?cs = "txn_commands ord writeMap"
  let ?tail = "be32 (word_of_nat (length ?cs)) @ concat (map put_bytes ?cs)"
  have payload: "serialiseTransactionCommitPayload ord writeMap = lp CmdTransaction @ ?tail"
    by (simp add: serialiseTransactionCommitPayload_payload)
  have "readLengthPrefixedString (lp CmdTransaction @ ?tail) 0 = Inr (CmdTransaction, 15)"
    using lpstring.read_at [of "lp CmdTransaction @ ?tail" "[]" CmdTransaction ?tail 0]
      assms(2) payload by simp
  moreover have "deserialiseTransactionCommand ?tail = Inr ?cs"
    using assms(2) payload by (subst deserialiseTransactionCommand_eq) simp_all
  moreover have "map (\<lambda>c. (wkey c, wvalue c)) ?cs = range_pairs ord writeMap"
    using cmd_writes_txn_commands [of ord writeMap] by simp
  ultimately show ?thesis
    using map_of_range_pairs [OF assms(1)] payload by simp
qed

theorem transaction_payload_roundtrip_witness:
  "\<exists>putCmds.
    deserialiseTransactionCommand
      (drop 15 (serialiseTransactionCommitPayload [''b'', ''a''] [''a'' \<mapsto> ''1'', ''b'' \<mapsto> ''2'']))
      = Inr putCmds
    \<and> map_of (map (\<lambda>c. (wkey c, wvalue c)) putCmds) = [''a'' \<mapsto> ''1'', ''b'' \<mapsto> ''2'']"
  using transaction_payload_roundtrip [of "[''b'', ''a'']" "[''a'' \<mapsto> ''1'', ''b'' \<mapsto> ''2'']"]
  by (auto simp: range_order_def serialiseTransactionCommitPayload_payload txn_commands_def
      range_pairs_def put_bytes_def)

text \<open>Crash recovery from the log. Replaying a log of complete records of puts and
  committed transactions gives a memtable whose content is that of all the writes in log
  order, the later write to a key winning, and leaves nothing unread.\<close>

theorem wal_recovery_replays:
  assumes "btree_contract B" and "readable wal w"
    and "\<forall>c \<in> set cs. cmd_fits c" and "unread wal w = log_bytes cs"
  shows "\<exists>m wal'. buildMemtableFromWal B wal w = (Inr m, wal')
    \<and> mt_inv B m \<and> mt_abs B m = map_of (rev (log_writes cs)) \<and> unread wal' w = []"
proof -
  have "unread (wal\<lparr>rpos := rpos wal + length (log_bytes cs)\<rparr>) w = []"
    using replay_wal_prefix [OF assms(2,3), of "[]" B "NewMemtable B"] assms(4) by simp
  moreover note replay_log [OF assms(2,3,4), of B "NewMemtable B"]
  moreover note btree_contract.puts_NewMemtable [OF assms(1), of "log_writes cs"]
  ultimately show ?thesis
    by (simp add: buildMemtableFromWal_def)
qed

theorem wal_recovery_replays_witness:
  "\<exists>m wal'. buildMemtableFromWal list_btree \<lparr>wal_path = ''l'', rpos = 0\<rparr>
       (one_file ''l'' (log_bytes [Put_Cmd ''a'' ''1'',
          Transaction_Cmd [\<lparr>wkey = ''b'', wvalue = ''2''\<rparr>, \<lparr>wkey = ''a'', wvalue = ''3''\<rparr>]]))
     = (Inr m, wal')
   \<and> mt_abs list_btree m = [''a'' \<mapsto> ''3'', ''b'' \<mapsto> ''2'']"
  using wal_recovery_replays [OF list_tree.btree_contract_axioms,
      of "\<lparr>wal_path = ''l'', rpos = 0\<rparr>"
        "one_file ''l'' (log_bytes [Put_Cmd ''a'' ''1'',
          Transaction_Cmd [\<lparr>wkey = ''b'', wvalue = ''2''\<rparr>, \<lparr>wkey = ''a'', wvalue = ''3''\<rparr>]])"
        "[Put_Cmd ''a'' ''1'',
          Transaction_Cmd [\<lparr>wkey = ''b'', wvalue = ''2''\<rparr>, \<lparr>wkey = ''a'', wvalue = ''3''\<rparr>]]"]
  by (auto simp: readable_def unread_def cmd_fits_def put_bytes_def one_file_def fun_eq_iff)

text \<open>C40: recovery from a torn log. When a crash left only the first \<open>k\<close> bytes of the last
  record, recovery fails with the reader's error, so the database does not open; only when
  the tear is at a field boundary are the complete records before it recovered.\<close>

theorem wal_recovery_torn_tail:
  assumes "readable wal w" and "\<forall>c \<in> set cs. cmd_fits c"
    and "length p \<le> 1000000" and "k < length (wal_record p)"
    and "unread wal w = log_bytes cs @ take k (wal_record p)"
  shows "fst (buildMemtableFromWal B wal w) =
    (if k \<in> {0, 4, 4 + length p} then Inr (puts B (log_writes cs) (NewMemtable B))
     else Inl (torn_error (length p) k))"
proof -
  let ?wal' = "wal\<lparr>rpos := rpos wal + length (log_bytes cs)\<rparr>"
  note prefix = replay_wal_prefix [OF assms(1,2,5), of B "NewMemtable B"]
  have "fst (ReadEntry ?wal' w) = Inl (torn_error (length p) k)"
    by (rule ReadEntry_torn [OF _ assms(3,4)]) (use assms(1) prefix in simp_all)
  from replay_wal_stops [OF this, of B "puts B (log_writes cs) (NewMemtable B)"] prefix
  show ?thesis
    by (auto simp: buildMemtableFromWal_def torn_error_def)
qed

theorem wal_recovery_torn_tail_witness:
  "fst (buildMemtableFromWal list_btree \<lparr>wal_path = ''l'', rpos = 0\<rparr>
     (one_file ''l'' (log_bytes [Put_Cmd ''a'' ''1''] @ take 5 (wal_record ''xyz''))))
   = Inl (Errorf ''partial write: incomplete payload'')"
  using wal_recovery_torn_tail [of "\<lparr>wal_path = ''l'', rpos = 0\<rparr>"
      "one_file ''l'' (log_bytes [Put_Cmd ''a'' ''1''] @ take 5 (wal_record ''xyz''))"
      "[Put_Cmd ''a'' ''1'']" "''xyz''" 5 list_btree]
  by (simp add: readable_def unread_def cmd_fits_def one_file_def torn_error_def)

end
