(* ===== verification/Db.thy ===== *)
theory Db
  imports Wal_Command Lsm_Steps Catalog Txn_Locks
begin

text \<open>
  \<^verbatim>\<open>db/db.go\<close>: the database on top of the log, the memtable, the tables and the
  catalog. \<open>goroutines\<close> counts the compactions that were started with \<open>go\<close> and that
  have not run yet; \<open>Lsm_Steps\<close> says what they do beside the writes. The contents of the
  database are the tables overridden by the memtable; the invariant says that the log holds
  exactly what the memtable holds.
\<close>

record 't DB =
  wal :: Wal
  memTable :: "'t Memtable"
  ssTable :: SsTable
  tableNameVsSchemaMap :: "string \<rightharpoonup> CreateTable"
  txnManager :: transactionManager
  goroutines :: nat

record db_Config =
  SsTableConfig :: sstable_Config
  WalFilePath :: string

subsection \<open>Reading and writing\<close>

definition DB_Get :: "'t btree \<Rightarrow> string \<Rightarrow> 't DB \<Rightarrow> world \<Rightarrow> goerr + string" where
  "DB_Get B key db w =
     (case Memtable_Get B (memTable db) key of
        (val, True) \<Rightarrow> Inr val
      | (_, False) \<Rightarrow> SsTable_Get (ssTable db) key w)"

definition flushMemtableToSsTable ::
    "'t btree \<Rightarrow> 't DB \<Rightarrow> world \<Rightarrow> (goerr + unit) \<times> 't DB \<times> world" where
  "flushMemtableToSsTable B db w =
     (case NewFile (ssTable db) w of
        (Inl e, st, w') \<Rightarrow> (Inl e, db\<lparr>ssTable := st\<rparr>, w')
      | (Inr ssTableFile, st, w') \<Rightarrow>
          (case SsTable_Write ssTableFile (Iterate B (memTable db)) st w' of
             (r, st', w'') \<Rightarrow>
               (r, db\<lparr>ssTable := st',
                     goroutines := (if ShouldRunCompaction st' then goroutines db + 1
                                    else goroutines db)\<rparr>, w'')))"

definition createSsTableAndClearWalAndMemTable ::
    "'t btree \<Rightarrow> 't DB \<Rightarrow> world \<Rightarrow> (goerr + unit) \<times> 't DB \<times> world" where
  "createSsTableAndClearWalAndMemTable B db w =
     (case flushMemtableToSsTable B db w of
        (Inl e, db', w') \<Rightarrow> (Inl e, db', w')
      | (Inr _, db', w') \<Rightarrow>
          let db' = db'\<lparr>memTable := Memtable_Clear B (memTable db')\<rparr>;
              (wal', w'') = Wal_Clear (wal db') w'
          in (Inr (), db'\<lparr>wal := wal'\<rparr>, w''))"

definition writeToWal :: "string \<Rightarrow> string \<Rightarrow> 't DB \<Rightarrow> world \<Rightarrow> (goerr + unit) \<times> 't DB \<times> world" where
  "writeToWal key val db w =
     (case WriteEntry (wal db) (serialisePutCommand key val) w of
        (r, wal', w') \<Rightarrow> (r, db\<lparr>wal := wal'\<rparr>, w'))"

definition DB_Put ::
    "'t btree \<Rightarrow> string \<Rightarrow> string \<Rightarrow> 't DB \<Rightarrow> world \<Rightarrow> (goerr + unit) \<times> 't DB \<times> world" where
  "DB_Put B key val db w =
     (case writeToWal key val db w of
        (Inl _, db', w') \<Rightarrow> (Inl (Errorf ''Something went wrong''), db', w')
      | (Inr _, db', w') \<Rightarrow>
          let db' = db'\<lparr>memTable := Memtable_Put B key val (memTable db')\<rparr> in
          if ShouldFlush (memTable db')
          then (case createSsTableAndClearWalAndMemTable B db' w' of
                  (Inl e, db'', w'') \<Rightarrow> (Inl e, db'', w'')
                | (Inr _, db'', w'') \<Rightarrow> (Inr (), db'', w''))
          else (Inr (), db', w'))"

subsection \<open>Start\<close>

definition CatalogKey :: string where "CatalogKey = ''_calatog''"

text \<open>The loop over the table names of the catalog.\<close>

fun load_schemas ::
    "(string \<Rightarrow> goerr + string) \<Rightarrow> string list \<Rightarrow> (string \<rightharpoonup> CreateTable) \<Rightarrow> goerr + (string \<rightharpoonup> CreateTable)"
  where
  "load_schemas get [] schemas = Inr schemas"
| "load_schemas get (tableName # names) schemas =
     (case get (''_schema:'' @ tableName) of
        Inl e \<Rightarrow> Inl e
      | Inr schemaStr \<Rightarrow>
          (case deserialiseCreateTableInput schemaStr of
             Inl e \<Rightarrow> Inl e
           | Inr createTableInput \<Rightarrow>
               let createTableInput = createTableInput\<lparr>TableName := tableName\<rparr> in
               (case get (''_secondary_indexes:'' @ tableName) of
                  Inl e \<Rightarrow> Inl e
                | Inr secondaryIndexesStr \<Rightarrow>
                    (case deserialiseSecondaryIndexCatalog secondaryIndexesStr
                            (ColumnDetails createTableInput) of
                       Inl e \<Rightarrow> Inl e
                     | Inr secondaryIndexes \<Rightarrow>
                         load_schemas get names
                           (schemas(tableName \<mapsto>
                              createTableInput\<lparr>SecondaryIndexes := secondaryIndexes\<rparr>))))))"

definition getTableNameVsSchemaMap ::
    "'t btree \<Rightarrow> 't DB \<Rightarrow> world \<Rightarrow> goerr + (string \<rightharpoonup> CreateTable)" where
  "getTableNameVsSchemaMap B db w =
     (case DB_Get B CatalogKey db w of
        Inl e \<Rightarrow> Inl e
      | Inr tablesString \<Rightarrow>
          if tablesString = '''' then Inr Map.empty
          else load_schemas (\<lambda>key. DB_Get B key db w) (Split tablesString (CHR '','')) Map.empty)"

definition NewDB :: "'t btree \<Rightarrow> db_Config \<Rightarrow> world \<Rightarrow> (goerr + 't DB) \<times> world" where
  "NewDB B config w =
     (case NewWal (WalFilePath config) w of
        (Inl e, w') \<Rightarrow> (Inl e, w')
      | (Inr wl, w') \<Rightarrow>
          (case buildMemtableFromWal B wl w' of
             (Inl e, _) \<Rightarrow> (Inl e, w')
           | (Inr mt, wl') \<Rightarrow>
               (case NewSsTable (SsTableConfig config) w' of
                  (Inl e, w'') \<Rightarrow> (Inl e, w'')
                | (Inr st, w'') \<Rightarrow>
                    let db = \<lparr>wal = wl', memTable = mt, ssTable = st,
                              tableNameVsSchemaMap = Map.empty,
                              txnManager = \<lparr>nextTransactionId = 1, keyVsLocksAcquiredMap = Map.empty\<rparr>,
                              goroutines = 0\<rparr>
                    in (case getTableNameVsSchemaMap B db w'' of
                          Inl e \<Rightarrow> (Inl e, w'')
                        | Inr schemas \<Rightarrow> (Inr (db\<lparr>tableNameVsSchemaMap := schemas\<rparr>), w'')))))"

subsection \<open>Contents and invariant\<close>

definition db_map :: "'t btree \<Rightarrow> 't DB \<Rightarrow> sorted_table list \<Rightarrow> (string \<rightharpoonup> string)" where
  "db_map B db tabs = sst_map tabs ++ mt_abs B (memTable db)"

text \<open>The log file is none of the files of the table set.\<close>

definition separate :: "string \<Rightarrow> string \<Rightarrow> bool" where
  "separate path dir \<longleftrightarrow> path \<noteq> manifestPath dir \<and> (\<forall>i. path \<noteq> tablePath dir i)"

text \<open>What the log tells is what the memtable holds.\<close>

definition logged :: "'t btree \<Rightarrow> world \<Rightarrow> Wal \<Rightarrow> 't Memtable \<Rightarrow> bool" where
  "logged B w wl m \<longleftrightarrow> (\<exists>cs. files w (wal_path wl) = Some (log_bytes cs)
     \<and> (\<forall>c \<in> set cs. cmd_fits c) \<and> mt_abs B m = map_of (rev (log_writes cs)))"

definition db_inv :: "'t btree \<Rightarrow> world \<Rightarrow> 't DB \<Rightarrow> sorted_table list \<Rightarrow> bool" where
  "db_inv B w db tabs \<longleftrightarrow>
     disk_inv w (ssTable db) tabs
     \<and> manifest_read w (dataFilesDirectory (ssTable db)) (st_manifest (ssTable db))
     \<and> mt_inv B (memTable db) \<and> nonempty_keys (Iterate B (memTable db))
     \<and> msize (memTable db) < memtableSizeLimit
     \<and> logged B w (wal db) (memTable db)
     \<and> separate (wal_path (wal db)) (dataFilesDirectory (ssTable db))"

lemma db_invD:
  assumes "db_inv B w db tabs"
  shows "disk_inv w (ssTable db) tabs"
    "manifest_read w (dataFilesDirectory (ssTable db)) (st_manifest (ssTable db))"
    "mt_inv B (memTable db)" "nonempty_keys (Iterate B (memTable db))"
    "msize (memTable db) < memtableSizeLimit" "logged B w (wal db) (memTable db)"
    "separate (wal_path (wal db)) (dataFilesDirectory (ssTable db))"
  using assms by (simp_all add: db_inv_def)

subsection \<open>A flushed memtable fits a table file\<close>

lemma length_data_bytes: "length (data_bytes kvs) = 8 * length kvs + entry_bytes kvs"
  by (induction kvs) (simp_all add: kv_bytes_def)

lemma length_index_bytes_chunks:
  "(\<And>b. b \<in> set bs \<Longrightarrow> b \<noteq> []) \<Longrightarrow>
   length (index_bytes (index_of_chunks off bs)) \<le> 8 * length (concat bs) + entry_bytes (concat bs)"
proof (induction bs arbitrary: off)
  case Nil
  then show ?case by simp
next
  case (Cons b bs)
  obtain kv b' where "b = kv # b'"
    using Cons.prems [of b] by (cases b) auto
  moreover have "length (index_bytes (index_of_chunks (off + length (data_bytes b)) bs)) \<le>
      8 * length (concat bs) + entry_bytes (concat bs)"
    by (rule Cons.IH) (rule Cons.prems, simp)
  ultimately show ?case
    by simp
qed

lemma length_file_bytes:
  "length (file_bytes bl kvs) \<le> 16 * length kvs + 2 * entry_bytes kvs + 4"
  using length_index_bytes_chunks [of "chunks bl [] kvs" 0] chunks_nonempty [of _ bl "[]" kvs]
  by (simp add: file_bytes_def file_index_def length_data_bytes concat_chunks)

lemma length_le_entry_bytes: "nonempty_keys kvs \<Longrightarrow> length kvs \<le> entry_bytes kvs"
proof (induction kvs)
  case (Cons kv kvs)
  then have "0 < length (fst kv)"
    by simp
  with Cons show ?case
    by (simp del: length_greater_0_conv)
qed simp

lemma table_ok_flush:
  assumes "mt_inv B m" and "nonempty_keys (Iterate B m)" and "msize m < 2000000"
  shows "table_ok bl (Iterate B m)"
proof -
  have "entry_bytes (Iterate B m) < 2000000"
    using assms(1,3) by (simp add: mt_inv_def)
  then have "fits32 (length (file_bytes bl (Iterate B m)))"
    using length_file_bytes [of bl "Iterate B m"] length_le_entry_bytes [OF assms(2)] by linarith
  then show ?thesis
    using assms by (simp add: table_ok_def mt_inv_def sorted_keys_Iterate)
qed

context btree_contract
begin

lemma nonempty_keys_Put:
  "mt_inv B m \<Longrightarrow> nonempty_keys (Iterate B m) \<Longrightarrow> k \<noteq> '''' \<Longrightarrow>
   nonempty_keys (Iterate B (Memtable_Put B k v m))"
  by (auto simp: mt_inv_def Iterate_Put insert_entry_def nonempty_keys_def)

lemma msize_Put_le:
  assumes "mt_inv B m"
  shows "msize (Memtable_Put B k v m) \<le> msize m + int (length k + length v)"
  using msize_Put [of m k v] assms by (simp add: mt_inv_def split: option.splits)

end

subsection \<open>A batch of writes\<close>

text \<open>What \<open>Put\<close> and \<open>Commit\<close> do once the memtable holds the new pairs.\<close>

definition flush_if_full :: "'t btree \<Rightarrow> 't DB \<Rightarrow> world \<Rightarrow> (goerr + unit) \<times> 't DB \<times> world" where
  "flush_if_full B db w =
     (if ShouldFlush (memTable db) then createSsTableAndClearWalAndMemTable B db w
      else (Inr (), db, w))"

lemma separate_files:
  assumes "separate path dir" and "fresh_ids w dir next names"
  shows "path \<notin> set names" "path \<noteq> manifestPath dir" "path \<noteq> tablePath dir i"
  using assms by (auto simp: separate_def fresh_ids_def)

lemma disk_inv_other:
  assumes "disk_inv w st tabs" and "separate path (dataFilesDirectory st)"
  shows "disk_inv (w\<lparr>files := (files w)(path := c)\<rparr>) st tabs"
  using disk_invD [OF assms(1)] separate_files [OF assms(2) disk_invD(4) [OF assms(1)]]
  by (auto simp: disk_inv_def fresh_ids_def intro: stored_upd)

lemma cmd_writes_bytes: "entry_bytes (cmd_writes c) \<le> length (cmd_payload c)"
proof (cases c)
  case (Transaction_Cmd cs)
  have "entry_bytes (map (\<lambda>c. (wkey c, wvalue c)) cs) \<le> length (concat (map put_bytes cs))"
    by (induction cs) (simp_all add: put_bytes_def)
  with Transaction_Cmd show ?thesis
    by simp
qed simp

text \<open>A memtable is determined by its contents.\<close>

lemma sorted_keys_map_of_inject:
  assumes "sorted_keys xs" and "sorted_keys ys" and "map_of xs = map_of ys"
  shows "xs = ys"
proof -
  have canonical: "kvs = map (\<lambda>k. (k, the (map_of kvs k))) (map fst kvs)"
    if "sorted_keys kvs" for kvs :: "(string \<times> string) list"
    unfolding map_map comp_def using sorted_keys_distinct [OF that] by (intro map_idI [symmetric]) auto
  have "set (map fst xs) = set (map fst ys)"
    using assms(3) by (metis dom_map_of_conv_image_fst set_map)
  then have "map fst xs = map fst ys"
    using assms(1,2) by (intro sorted_distinct_set_unique) (simp_all add: sorted_keys_def strict_sorted_iff)
  then show ?thesis
    using canonical [OF assms(1)] canonical [OF assms(2)] assms(3) by simp
qed

lemma mt_unique:
  assumes "mt_inv B m1" and "mt_inv B m2" and "mt_abs B m1 = mt_abs B m2"
  shows "Iterate B m1 = Iterate B m2" "msize m1 = msize m2"
  using sorted_keys_map_of_inject [of "Iterate B m1" "Iterate B m2"] assms
  by (simp_all add: mt_inv_def sorted_keys_Iterate mt_abs_def)

context btree_contract
begin

lemma puts_bounds:
  assumes "mt_inv B m" and "nonempty_keys (Iterate B m)" and "nonempty_keys kvs"
  shows "nonempty_keys (Iterate B (puts B kvs m))"
    and "msize (puts B kvs m) \<le> msize m + int (entry_bytes kvs)"
proof -
  have "nonempty_keys (Iterate B (puts B kvs m)) \<and> msize (puts B kvs m) \<le> msize m + int (entry_bytes kvs)"
    using assms
  proof (induction kvs arbitrary: m)
    case Nil
    then show ?case by simp
  next
    case (Cons kv kvs)
    let ?m1 = "Memtable_Put B (fst kv) (snd kv) m"
    have "nonempty_keys (Iterate B (puts B kvs ?m1)) \<and>
        msize (puts B kvs ?m1) \<le> msize ?m1 + int (entry_bytes kvs)"
      using Cons by (simp add: mt_inv_Put nonempty_keys_Put)
    then show ?case
      using msize_Put_le [of m "fst kv" "snd kv"] Cons.prems(1) by simp
  qed
  then show "nonempty_keys (Iterate B (puts B kvs m))"
    and "msize (puts B kvs m) \<le> msize m + int (entry_bytes kvs)"
    by simp_all
qed

text \<open>A flush keeps the contents: the pairs move from the memtable to a new table.\<close>

lemma flush_calm:
  assumes disk: "disk_inv w (ssTable db) tabs" and mt: "mt_inv B (memTable db)"
    and ok: "table_ok (blockLength (ssTable db)) (Iterate B (memTable db))"
    and sep: "separate (wal_path (wal db)) (dataFilesDirectory (ssTable db))"
  obtains db' w' t where "createSsTableAndClearWalAndMemTable B db w = (Inr (), db', w')"
    and "db_inv B w' db' (tabs @ [t])" and "db_map B db' (tabs @ [t]) = db_map B db tabs"
    and "map_of (snd t) = mt_abs B (memTable db)" and "mt_abs B (memTable db') = Map.empty"
    and "indexed (ssTable db) tabs \<Longrightarrow> indexed (ssTable db') (tabs @ [t])"
    and "wal_path (wal db') = wal_path (wal db)"
    and "dataFilesDirectory (ssTable db') = dataFilesDirectory (ssTable db)"
    and "tableNameVsSchemaMap db' = tableNameVsSchemaMap db" and "txnManager db' = txnManager db"
proof -
  let ?st = "ssTable db" and ?kvs = "Iterate B (memTable db)" and ?path = "wal_path (wal db)"
  note n = NewFile_calm [OF disk]
  define name where "name = tablePath (dataFilesDirectory ?st) (NextFileId (st_manifest ?st))"
  define st1 where "st1 = ?st\<lparr>st_manifest :=
    (st_manifest ?st)\<lparr>NextFileId := NextFileId (st_manifest ?st) + 1\<rparr>\<rparr>"
  define w1 where "w1 = w\<lparr>files := (files w)(name \<mapsto> [])\<rparr>"
  have new: "NewFile ?st w = (Inr name, st1, w1)" "disk_inv w1 st1 tabs" "unlisted st1 name"
    using n by (simp_all add: name_def st1_def w1_def)
  have ok1: "table_ok (blockLength st1) ?kvs" and f1: "files w1 name = Some []"
    using ok by (simp_all add: st1_def w1_def)
  note W = SsTable_Write_calm [OF new(2) ok1 new(3) f1]
  let ?st2 = "written_state name ?kvs st1" and ?w2 = "written_world name ?kvs st1 w1"
  let ?t = "(blockLength st1, ?kvs)"
  let ?w3 = "?w2\<lparr>files := (files ?w2)(?path \<mapsto> [])\<rparr>"
  let ?db' = "db\<lparr>ssTable := ?st2,
      goroutines := (if ShouldRunCompaction ?st2 then goroutines db + 1 else goroutines db),
      memTable := Memtable_Clear B (memTable db), wal := (wal db)\<lparr>rpos := 0\<rparr>\<rparr>"
  have dir: "dataFilesDirectory ?st2 = dataFilesDirectory ?st"
    by (simp add: written_state_def st1_def)
  have run: "createSsTableAndClearWalAndMemTable B db w = (Inr (), ?db', ?w3)"
    using disk_invD(1) [OF W(2)]
    by (simp add: createSsTableAndClearWalAndMemTable_def flushMemtableToSsTable_def new(1) W(1)
        Wal_Clear_calm)
  have sep2: "separate ?path (dataFilesDirectory ?st2)"
    using sep by (simp add: dir)
  have "db_inv B ?w3 ?db' (tabs @ [?t])"
    using disk_inv_other [OF W(2) sep2] manifest_read_saved [OF W(3)] sep2 Clear_empties
    by (simp add: db_inv_def manifest_read_upd separate_def logged_def Iterate_def Memtable_Clear_def
        Clear_empty memtableSizeLimit_def exI [of _ "[]"])
  moreover have "db_map B ?db' (tabs @ [?t]) = db_map B db tabs"
    by (simp add: db_map_def mt_abs_def [of B "memTable db"])
  ultimately show ?thesis
  proof (rule that [OF run])
    show "indexed (ssTable ?db') (tabs @ [?t])" if "indexed (ssTable db) tabs"
      using that W(4) by (simp add: st1_def indexed_def)
  qed (simp_all add: dir mt_abs_def [of B "memTable db"])
qed

lemma batch_calm:
  assumes inv: "db_inv B w db tabs" and fits: "cmd_fits c" and ne: "nonempty_keys (cmd_writes c)"
    and same: "map_of (rev kvs) = map_of (rev (cmd_writes c))"
  obtains wl w1 db' w' tabs' where
    "WriteEntry (wal db) (cmd_payload c) w = (Inr (), wl, w1)"
    and "flush_if_full B (db\<lparr>wal := wl, memTable := puts B kvs (memTable db)\<rparr>) w1
      = (Inr (), db', w')"
    and "db_inv B w' db' tabs'"
    and "db_map B db' tabs' = db_map B db tabs ++ map_of (rev (cmd_writes c))"
    and "indexed (ssTable db) tabs \<Longrightarrow> indexed (ssTable db') tabs'"
    and "mt_abs B (memTable db') = mt_abs B (memTable db) ++ map_of (rev (cmd_writes c)) \<and> tabs' = tabs
      \<or> mt_abs B (memTable db') = Map.empty \<and> (\<exists>t. tabs' = tabs @ [t]
          \<and> map_of (snd t) = mt_abs B (memTable db) ++ map_of (rev (cmd_writes c)))"
    and "wal_path (wal db') = wal_path (wal db)"
    and "dataFilesDirectory (ssTable db') = dataFilesDirectory (ssTable db)"
    and "tableNameVsSchemaMap db' = tableNameVsSchemaMap db" and "txnManager db' = txnManager db"
proof -
  note i = db_invD [OF inv]
  note d = disk_invD [OF i(1)]
  let ?path = "wal_path (wal db)" 
  obtain cs where cs: "files w ?path = Some (log_bytes cs)" "\<forall>c \<in> set cs. cmd_fits c"
    "mt_abs B (memTable db) = map_of (rev (log_writes cs))"
    using i(6) by (auto simp: logged_def)
  let ?wl = "(wal db)\<lparr>rpos := length (log_bytes cs) + length (wal_record (cmd_payload c))\<rparr>"
  let ?w1 = "w\<lparr>files := (files w)(?path \<mapsto> log_bytes cs @ wal_record (cmd_payload c))\<rparr>"
  let ?m1 = "puts B kvs (memTable db)"
  let ?db1 = "db\<lparr>wal := ?wl, memTable := ?m1\<rparr>"
  have wr: "WriteEntry (wal db) (cmd_payload c) w = (Inr (), ?wl, ?w1)"
    by (rule WriteEntry_calm [OF d(1) cs(1)])
  have m1: "mt_inv B ?m1" "mt_abs B ?m1 = mt_abs B (memTable db) ++ map_of (rev (cmd_writes c))"
    using puts_all [OF i(3), of kvs] same by simp_all
  let ?m2 = "puts B (cmd_writes c) (memTable db)"
  have m2: "mt_inv B ?m2" "mt_abs B ?m1 = mt_abs B ?m2"
    using puts_all [OF i(3), of "cmd_writes c"] m1(2) by simp_all
  note b = puts_bounds [OF i(3,4) ne, folded mt_unique [OF m1(1) m2]]
  have disk1: "disk_inv ?w1 (ssTable db) tabs"
    by (rule disk_inv_other [OF i(1,7)])
  have man1: "manifest_read ?w1 (dataFilesDirectory (ssTable db)) (st_manifest (ssTable db))"
    using i(2,7) by (simp add: manifest_read_upd separate_def)
  have map1: "db_map B ?db1 tabs = db_map B db tabs ++ map_of (rev (cmd_writes c))"
    by (simp add: db_map_def m1)
  show ?thesis
  proof (cases "ShouldFlush ?m1")
    case True
    have "msize ?m1 < 2000000"
      using b(2) i(5) cmd_writes_bytes [of c] fits by (simp add: memtableSizeLimit_def cmd_fits_def)
    then have ok: "table_ok (blockLength (ssTable db)) (Iterate B ?m1)"
      by (rule table_ok_flush [OF m1(1) b(1)])
    obtain db' w' t where f: "createSsTableAndClearWalAndMemTable B ?db1 ?w1 = (Inr (), db', w')"
      "db_inv B w' db' (tabs @ [t])" "db_map B db' (tabs @ [t]) = db_map B ?db1 tabs"
      "map_of (snd t) = mt_abs B ?m1" "mt_abs B (memTable db') = Map.empty"
      "indexed (ssTable db) tabs \<Longrightarrow> indexed (ssTable db') (tabs @ [t])"
      "wal_path (wal db') = ?path"
      "dataFilesDirectory (ssTable db') = dataFilesDirectory (ssTable db)"
      "tableNameVsSchemaMap db' = tableNameVsSchemaMap db" "txnManager db' = txnManager db"
      by (rule flush_calm [of ?w1 ?db1 tabs]) (use disk1 m1(1) ok i(7) in simp_all)
    then show ?thesis
      using True map1
      by (intro that [OF wr, of db' w' "tabs @ [t]"]) (simp_all add: flush_if_full_def m1(2))
  next
    case False
    have "logged B ?w1 ?wl ?m1"
      unfolding logged_def using cs fits m1(2)
      by (intro exI [of _ "cs @ [c]"]) auto
    then have "db_inv B ?w1 ?db1 tabs"
      using disk1 man1 m1(1) b(1) False i(7) by (simp add: db_inv_def ShouldFlush_def)
    then show ?thesis
      using False map1
      by (intro that [OF wr, of ?db1 ?w1 tabs]) (simp_all add: flush_if_full_def m1(2))
  qed
qed

end

lemma DB_Put_flush_if_full:
  assumes "WriteEntry (wal db) (cmd_payload (Put_Cmd key val)) w = (Inr (), wl, w1)"
  shows "DB_Put B key val db w =
    flush_if_full B (db\<lparr>wal := wl, memTable := puts B (cmd_writes (Put_Cmd key val)) (memTable db)\<rparr>) w1"
  using assms
  by (simp add: DB_Put_def writeToWal_def serialisePutCommand_payload flush_if_full_def
      split: prod.splits sum.splits)

subsection \<open>Start after a stop or a crash\<close>

lemma NewDB_open:
  assumes calm: "calm w" and path: "path \<noteq> ''''"
    and log: "files w path = Some (log_bytes cs)" "\<forall>c \<in> set cs. cmd_fits c"
    and tables: "NewSsTable sst_cfg w = (Inr st, w)"
    and db': "db' = \<lparr>wal = \<lparr>wal_path = path, rpos = length (log_bytes cs)\<rparr>,
      memTable = puts B (log_writes cs) (NewMemtable B), ssTable = st, tableNameVsSchemaMap = Map.empty,
      txnManager = \<lparr>nextTransactionId = 1, keyVsLocksAcquiredMap = Map.empty\<rparr>, goroutines = 0\<rparr>"
  shows "NewDB B \<lparr>SsTableConfig = sst_cfg, WalFilePath = path\<rparr> w =
    (case getTableNameVsSchemaMap B db' w of
       Inl e \<Rightarrow> (Inl e, w) | Inr schemas \<Rightarrow> (Inr (db'\<lparr>tableNameVsSchemaMap := schemas\<rparr>), w))"
proof -
  let ?start = "\<lparr>wal_path = path, rpos = 0\<rparr>"
  have "OpenFile_create path w = (Inr path, w)"
    using OpenFile_create_calm [OF calm, of path] log(1) by (auto simp: dom_def)
  then have "NewWal path w = (Inr ?start, w)"
    using path by (simp add: NewWal_def)
  moreover have "buildMemtableFromWal B ?start w =
      (Inr (puts B (log_writes cs) (NewMemtable B)), ?start\<lparr>rpos := length (log_bytes cs)\<rparr>)"
    using replay_log [of ?start w cs B "NewMemtable B"] log calm
    by (simp add: buildMemtableFromWal_def readable_def unread_def dom_def)
  ultimately show ?thesis
    by (simp add: NewDB_def tables db' Let_def split: sum.split)
qed

context btree_contract
begin

lemma reopen_calm:
  assumes inv: "db_inv B w db tabs"
    and path: "wal_path (wal db) \<noteq> ''''" and dir: "dataFilesDirectory (ssTable db) \<noteq> ''''"
    and cfg: "cfg = \<lparr>SsTableConfig = \<lparr>DataFilesDirectory = dataFilesDirectory (ssTable db),
                BlockLength = bl\<rparr>, WalFilePath = wal_path (wal db)\<rparr>"
  obtains db' where "NewDB B cfg w =
      (case getTableNameVsSchemaMap B db' w of
         Inl e \<Rightarrow> (Inl e, w) | Inr schemas \<Rightarrow> (Inr (db'\<lparr>tableNameVsSchemaMap := schemas\<rparr>), w))"
    and "\<And>schemas. db_inv B w (db'\<lparr>tableNameVsSchemaMap := schemas\<rparr>) tabs"
    and "indexed (ssTable db') tabs" and "mt_abs B (memTable db') = mt_abs B (memTable db)"
    and "wal_path (wal db') = wal_path (wal db)"
    and "dataFilesDirectory (ssTable db') = dataFilesDirectory (ssTable db)"
    and "tableNameVsSchemaMap db' = Map.empty" and "sst_inv w (ssTable db') tabs"
proof -
  note i = db_invD [OF inv]
  note d = disk_invD [OF i(1)]
  let ?path = "wal_path (wal db)" and ?dir = "dataFilesDirectory (ssTable db)"
  obtain cs where cs: "files w ?path = Some (log_bytes cs)" "\<forall>c \<in> set cs. cmd_fits c"
    "mt_abs B (memTable db) = map_of (rev (log_writes cs))"
    using i(6) by (auto simp: logged_def)
  let ?start = "\<lparr>wal_path = ?path, rpos = 0\<rparr>" and ?m = "puts B (log_writes cs) (NewMemtable B)"
  let ?wl = "?start\<lparr>rpos := length (log_bytes cs)\<rparr>"
  let ?st = "reopened ?dir bl (firstLevelFiles (ssTable db)) (st_manifest (ssTable db)) tabs"
  define db' where "db' = \<lparr>wal = ?wl, memTable = ?m, ssTable = ?st, tableNameVsSchemaMap = Map.empty,
    txnManager = \<lparr>nextTransactionId = 1, keyVsLocksAcquiredMap = Map.empty\<rparr>, goroutines = 0\<rparr>"
  have open_tables: "NewSsTable \<lparr>DataFilesDirectory = ?dir, BlockLength = bl\<rparr> w = (Inr ?st, w)"
    by (rule NewSsTable_reopen [OF d(1,2) dir i(2) d(3)])
  have m: "mt_inv B ?m" "mt_abs B ?m = mt_abs B (memTable db)"
    using puts_NewMemtable [of "log_writes cs"] cs(3) by simp_all
  note u = mt_unique [OF m(1) i(3) m(2)]
  have st: "sst_inv w ?st tabs"
    by (rule reopened_sst_inv [OF i(1)])
  have dir': "dataFilesDirectory ?st = ?dir" "st_manifest ?st = st_manifest (ssTable db)"
    by (simp_all add: reopened_def)
  have "logged B w ?wl ?m"
    unfolding logged_def using cs m(2) by auto
  then have "db_inv B w (db'\<lparr>tableNameVsSchemaMap := schemas\<rparr>) tabs" for schemas
    using i m u sst_invD(1) [OF st] by (simp add: db_inv_def db'_def dir')
  moreover have "NewDB B cfg w =
      (case getTableNameVsSchemaMap B db' w of
         Inl e \<Rightarrow> (Inl e, w) | Inr schemas \<Rightarrow> (Inr (db'\<lparr>tableNameVsSchemaMap := schemas\<rparr>), w))"
    unfolding cfg by (rule NewDB_open [OF d(1) path cs(1,2) open_tables]) (simp add: db'_def)
  ultimately show ?thesis
    using that [of db'] sst_invD(2) [OF st] m(2) dir' st by (simp add: db'_def)
qed

end

subsection \<open>Concrete databases\<close>

definition db_on :: "'t btree \<Rightarrow> string \<Rightarrow> string \<Rightarrow> sorted_table list \<Rightarrow> 't DB" where
  "db_on B path dir tabs =
     \<lparr>wal = \<lparr>wal_path = path, rpos = 0\<rparr>, memTable = NewMemtable B, ssTable = tables_state dir 100 tabs,
      tableNameVsSchemaMap = Map.empty,
      txnManager = \<lparr>nextTransactionId = 1, keyVsLocksAcquiredMap = Map.empty\<rparr>, goroutines = 0\<rparr>"

definition world_on :: "string \<Rightarrow> string \<Rightarrow> sorted_table list \<Rightarrow> world" where
  "world_on path dir tabs =
     (let w = tables_world dir 100 tabs in w\<lparr>files := (files w)(path \<mapsto> [])\<rparr>)"

lemma separate_short: "separate ''w'' ''d''"
  by (simp add: separate_def manifestPath_def tablePath_def)

lemma db_on_inv:
  assumes "btree_contract B" and "separate path dir"
    and "\<forall>t \<in> set tabs. table_ok (fst t) (snd t)"
  shows "db_inv B (world_on path dir tabs) (db_on B path dir tabs) tabs"
    and "indexed (ssTable (db_on B path dir tabs)) tabs"
proof -
  note t = tables_state_inv [OF assms(3), of dir 100]
  have dir: "dataFilesDirectory (tables_state dir 100 tabs) = dir"
    by (simp add: tables_state_def)
  note d = disk_inv_other [OF sst_invD(1) [OF t(1)], of path]
  show "db_inv B (world_on path dir tabs) (db_on B path dir tabs) tabs"
    using d manifest_read_saved [OF t(2)] assms(2) btree_contract.NewMemtable_empty [OF assms(1)]
    by (simp add: db_inv_def world_on_def db_on_def dir manifest_read_upd separate_def logged_def
        Let_def NewMemtable_def memtableSizeLimit_def exI [of _ "[]"])
  show "indexed (ssTable (db_on B path dir tabs)) tabs"
    using sst_invD(2) [OF t(1)] by (simp add: db_on_def)
qed

lemmas list_db_inv = db_on_inv [OF list_tree.btree_contract_axioms separate_short]

definition one_table :: "sorted_table list" where
  "one_table = [(100, [(''A'', ''1'')])]"

lemma one_table_ok: "\<forall>t \<in> set one_table. table_ok (fst t) (snd t)"
  by (simp add: one_table_def table_ok_def file_bytes_def file_index_def kv_bytes_def)

lemma db_on_simps [simp]:
  "wal_path (wal (db_on B path dir tabs)) = path"
  "dataFilesDirectory (ssTable (db_on B path dir tabs)) = dir"
  "memTable (db_on B path dir tabs) = NewMemtable B"
  by (simp_all add: db_on_def tables_state_def)

subsection \<open>Properties\<close>

lemma DB_Get_tables:
  assumes "btree_contract B" and "mt_inv B (memTable db)" and "sst_inv w (ssTable db) tabs"
  shows "DB_Get B key db w =
    (case mt_abs B (memTable db) key of Some v \<Rightarrow> Inr v | None \<Rightarrow> tables_get (rev tabs) key)"
  using assms
  by (simp add: DB_Get_def btree_contract.Get_abs SsTable_Get_tables split: option.split)

text \<open>A read that succeeds gives the contents, where these are not the empty value.\<close>

lemma tables_get_Inr:
  assumes "tables_get ts key = Inr v" and "\<forall>t \<in> set ts. sorted_keys (snd t)"
  shows "sst_map (rev ts) key = Some val \<Longrightarrow> val \<noteq> '''' \<Longrightarrow> v = val"
    and "sst_map (rev ts) key = None \<Longrightarrow> v = ''''"
  using assms
proof (induction ts)
  case (Cons t ts)
  {
    case 1
    then show ?case
      using Cons.IH first_key_le [of "snd t" key]
      by (auto simp: file_get_def map_add_def split: option.splits if_splits)
  next
    case 2
    then show ?case
      using Cons.IH by (auto simp: file_get_def map_add_def split: option.splits if_splits)
  }
qed simp_all

lemma DB_Get_Inr:
  assumes B: "btree_contract B" and mt: "mt_inv B (memTable db)" and st: "sst_inv w (ssTable db) tabs"
    and get: "DB_Get B key db w = Inr v"
  shows "db_map B db tabs key = Some val \<Longrightarrow> val \<noteq> '''' \<Longrightarrow> v = val"
    and "db_map B db tabs key = None \<Longrightarrow> v = ''''"
proof -
  have sorted: "\<forall>t \<in> set (rev tabs). sorted_keys (snd t)"
    using stored_nth [OF disk_invD(2) [OF sst_invD(1) [OF st]]]
    by (auto simp: in_set_conv_nth table_file_def) (metis snd_conv)
  note g = get [unfolded DB_Get_tables [OF B mt st]]
  show "db_map B db tabs key = Some val \<Longrightarrow> val \<noteq> '''' \<Longrightarrow> v = val"
    and "db_map B db tabs key = None \<Longrightarrow> v = ''''"
    using g tables_get_Inr [OF _ sorted, of key v]
    by (auto simp: db_map_def map_add_def split: option.splits)
qed

lemma DB_Put_calm:
  assumes "btree_contract B" and "db_inv B w db tabs"
    and "key \<noteq> []" and "length key + length val \<le> 999985"
  obtains db' w' tabs' where "DB_Put B key val db w = (Inr (), db', w')"
    and "db_inv B w' db' tabs'" and "db_map B db' tabs' = (db_map B db tabs)(key \<mapsto> val)"
    and "indexed (ssTable db) tabs \<Longrightarrow> indexed (ssTable db') tabs'"
    and "mt_abs B (memTable db') = (mt_abs B (memTable db))(key \<mapsto> val) \<and> tabs' = tabs
      \<or> mt_abs B (memTable db') = Map.empty \<and> (\<exists>t. tabs' = tabs @ [t]
          \<and> map_of (snd t) = (mt_abs B (memTable db))(key \<mapsto> val))"
    and "wal_path (wal db') = wal_path (wal db)"
    and "dataFilesDirectory (ssTable db') = dataFilesDirectory (ssTable db)"
    and "tableNameVsSchemaMap db' = tableNameVsSchemaMap db"
proof -
  let ?c = "Put_Cmd key val"
  have fits: "cmd_fits ?c" and ne: "nonempty_keys (cmd_writes ?c)"
    using assms(3,4) by (simp_all add: cmd_fits_Put)
  note result = that
  show ?thesis
  proof (rule btree_contract.batch_calm [OF assms(1,2) fits ne refl])
    fix wl w1 db' w' tabs'
    assume write_ok: "WriteEntry (wal db) (cmd_payload ?c) w = (Inr (), wl, w1)"
      and flush: "flush_if_full B (db\<lparr>wal := wl, memTable := puts B (cmd_writes ?c) (memTable db)\<rparr>) w1
        = (Inr (), db', w')"
      and facts: "db_inv B w' db' tabs'"
        "db_map B db' tabs' = db_map B db tabs ++ map_of (rev (cmd_writes ?c))"
        "indexed (ssTable db) tabs \<Longrightarrow> indexed (ssTable db') tabs'"
        "mt_abs B (memTable db') = mt_abs B (memTable db) ++ map_of (rev (cmd_writes ?c)) \<and> tabs' = tabs
          \<or> mt_abs B (memTable db') = Map.empty \<and> (\<exists>t. tabs' = tabs @ [t]
              \<and> map_of (snd t) = mt_abs B (memTable db) ++ map_of (rev (cmd_writes ?c)))"
        "wal_path (wal db') = wal_path (wal db)"
        "dataFilesDirectory (ssTable db') = dataFilesDirectory (ssTable db)" "tableNameVsSchemaMap db' = tableNameVsSchemaMap db"
    have "DB_Put B key val db w = (Inr (), db', w')"
      using DB_Put_flush_if_full [OF write_ok, of B] flush by simp
    then show ?thesis
      by (rule result) (use facts in simp_all)
  qed
qed

text \<open>C7: a put, in every state without faults that the invariant allows, succeeds, sets exactly
  its key in the contents of the database, and keeps the invariant: the memtable, the log and the
  tables agree, whether or not the put made the memtable reach its limit and go to a new table with
  the log cleared. Keys must not be empty, and the record must fit the reader's limit.\<close>

theorem db_put_refines:
  assumes "btree_contract B" and "db_inv B w db tabs"
    and "key \<noteq> ''''" and "length key + length val \<le> 999985"
  shows "\<exists>db' w' tabs'. DB_Put B key val db w = (Inr (), db', w') \<and> db_inv B w' db' tabs'
    \<and> db_map B db' tabs' = (db_map B db tabs)(key \<mapsto> val)"
  by (rule DB_Put_calm [OF assms]) blast

theorem db_put_refines_witness:
  "\<exists>db' w' tabs'. DB_Put list_btree ''B'' ''2'' (db_on list_btree ''w'' ''d'' one_table)
      (world_on ''w'' ''d'' one_table) = (Inr (), db', w')
    \<and> db_inv list_btree w' db' tabs'
    \<and> db_map list_btree db' tabs' =
        (db_map list_btree (db_on list_btree ''w'' ''d'' one_table) one_table)(''B'' \<mapsto> ''2'')"
  by (rule db_put_refines [OF list_tree.btree_contract_axioms list_db_inv(1) [OF one_table_ok]]) simp_all

text \<open>A value that was put is read back at once, also when the put flushed the memtable: the
  key is then in the newest table. The value must not be empty, and the indexes in memory must be
  those of the tables, which a compaction breaks.\<close>

theorem db_get_after_put:
  assumes "btree_contract B" and "db_inv B w db tabs" and "indexed (ssTable db) tabs"
    and "key \<noteq> ''''" and "length key + length val \<le> 999985" and "val \<noteq> ''''"
  shows "\<exists>db' w'. DB_Put B key val db w = (Inr (), db', w') \<and> DB_Get B key db' w' = Inr val"
proof -
  obtain db' w' tabs' where put: "DB_Put B key val db w = (Inr (), db', w')"
    and inv: "db_inv B w' db' tabs'" "indexed (ssTable db') tabs'"
    and place: "mt_abs B (memTable db') = (mt_abs B (memTable db))(key \<mapsto> val) \<and> tabs' = tabs
      \<or> mt_abs B (memTable db') = Map.empty \<and> (\<exists>t. tabs' = tabs @ [t]
          \<and> map_of (snd t) = (mt_abs B (memTable db))(key \<mapsto> val))"
    by (rule DB_Put_calm [OF assms(1,2,4,5)]) (use assms(3) in blast)
  have st: "sst_inv w' (ssTable db') tabs'"
    using inv db_invD(1) [OF inv(1)] by (simp add: sst_inv_def)
  note get = DB_Get_tables [OF assms(1) db_invD(3) [OF inv(1)] st, of key]
  have "DB_Get B key db' w' = Inr val"
    using place
  proof (elim disjE conjE exE)
    fix t
    assume t: "mt_abs B (memTable db') = Map.empty" "tabs' = tabs @ [t]"
      "map_of (snd t) = (mt_abs B (memTable db))(key \<mapsto> val)"
    then have found: "map_of (snd t) key = Some val"
      by simp
    have "sorted_keys (snd t)"
      using stored_nth [OF disk_invD(2) [OF sst_invD(1) [OF st]], of "length tabs"] t(2)
      by (simp add: table_file_def)
    from first_key_le [OF this found] show ?thesis
      using found assms(6) t by (simp add: get file_get_def)
  qed (simp add: get)
  with put show ?thesis
    by simp
qed

theorem db_get_after_put_witness:
  "\<exists>db' w'. DB_Put list_btree ''B'' (replicate 2000 (CHR ''x'')) (db_on list_btree ''w'' ''d'' one_table)
      (world_on ''w'' ''d'' one_table) = (Inr (), db', w')
    \<and> DB_Get list_btree ''B'' db' w' = Inr (replicate 2000 (CHR ''x''))"
  by (rule db_get_after_put [OF list_tree.btree_contract_axioms list_db_inv [OF one_table_ok]]) simp_all

text \<open>C13: stopping or crashing between two operations loses nothing. Opening the database again
  on the files as they are rebuilds the memtable from the log and the indexes from the tables: the
  contents are the same, and the invariant holds. The catalog key must be readable and empty (no
  SQL tables).\<close>

theorem db_reopen_recovers:
  assumes "btree_contract B" and "db_inv B w db tabs"
    and "wal_path (wal db) \<noteq> ''''" and "dataFilesDirectory (ssTable db) \<noteq> ''''"
    and "case mt_abs B (memTable db) CatalogKey of
        Some v \<Rightarrow> v = ''''
      | None \<Rightarrow> (\<forall>t \<in> set tabs. snd t = [] \<or> CatalogKey < fst (hd (snd t)))"
  shows "\<exists>db'. NewDB B \<lparr>SsTableConfig = \<lparr>DataFilesDirectory = dataFilesDirectory (ssTable db),
        BlockLength = bl\<rparr>, WalFilePath = wal_path (wal db)\<rparr> w = (Inr db', w)
    \<and> db_inv B w db' tabs \<and> db_map B db' tabs = db_map B db tabs \<and> indexed (ssTable db') tabs"
proof -
  obtain db' where start: "NewDB B \<lparr>SsTableConfig = \<lparr>DataFilesDirectory = dataFilesDirectory (ssTable db),
        BlockLength = bl\<rparr>, WalFilePath = wal_path (wal db)\<rparr> w =
      (case getTableNameVsSchemaMap B db' w of
         Inl e \<Rightarrow> (Inl e, w) | Inr schemas \<Rightarrow> (Inr (db'\<lparr>tableNameVsSchemaMap := schemas\<rparr>), w))"
    and inv: "\<And>schemas. db_inv B w (db'\<lparr>tableNameVsSchemaMap := schemas\<rparr>) tabs"
    and ix: "indexed (ssTable db') tabs" and m: "mt_abs B (memTable db') = mt_abs B (memTable db)"
    and st: "sst_inv w (ssTable db') tabs"
    by (rule btree_contract.reopen_calm [OF assms(1-4) refl, of bl]) blast
  have mt: "mt_inv B (memTable db')"
    using db_invD(3) [OF inv] by simp
  have "DB_Get B CatalogKey db' w = Inr ''''"
    using assms(5) tables_get_absent [of "rev tabs" CatalogKey]
    by (auto simp: DB_Get_tables [OF assms(1) mt st] m split: option.splits)
  then show ?thesis
    using start inv ix m by (auto simp: getTableNameVsSchemaMap_def db_map_def)
qed

theorem db_reopen_recovers_witness:
  "\<exists>db'. NewDB list_btree \<lparr>SsTableConfig = \<lparr>DataFilesDirectory =
          dataFilesDirectory (ssTable (db_on list_btree ''w'' ''d'' [])), BlockLength = 0\<rparr>,
        WalFilePath = wal_path (wal (db_on list_btree ''w'' ''d'' []))\<rparr>
        (world_on ''w'' ''d'' []) = (Inr db', world_on ''w'' ''d'' [])
    \<and> db_inv list_btree (world_on ''w'' ''d'' []) db' []
    \<and> db_map list_btree db' [] = db_map list_btree (db_on list_btree ''w'' ''d'' []) []
    \<and> indexed (ssTable db') []"
  by (rule db_reopen_recovers [OF list_tree.btree_contract_axioms list_db_inv(1)]) simp_all

text \<open>C14: after a flush the database may not open again. When the newest table starts at or below
  the catalog key and does not hold it, the lookup of the catalog fails, and with it the start:
  plain puts of keys such as \<open>A\<close> are enough.\<close>

theorem db_reopen_fails:
  assumes "btree_contract B" and "db_inv B w db (tabs @ [t])"
    and "wal_path (wal db) \<noteq> ''''" and "dataFilesDirectory (ssTable db) \<noteq> ''''"
    and "mt_abs B (memTable db) CatalogKey = None" and "map_of (snd t) CatalogKey = None"
    and "snd t \<noteq> []" and "fst (hd (snd t)) \<le> CatalogKey"
  shows "NewDB B \<lparr>SsTableConfig = \<lparr>DataFilesDirectory = dataFilesDirectory (ssTable db),
      BlockLength = bl\<rparr>, WalFilePath = wal_path (wal db)\<rparr> w = (Inl errDatablock, w)"
proof -
  obtain db' where start: "NewDB B \<lparr>SsTableConfig = \<lparr>DataFilesDirectory = dataFilesDirectory (ssTable db),
        BlockLength = bl\<rparr>, WalFilePath = wal_path (wal db)\<rparr> w =
      (case getTableNameVsSchemaMap B db' w of
         Inl e \<Rightarrow> (Inl e, w) | Inr schemas \<Rightarrow> (Inr (db'\<lparr>tableNameVsSchemaMap := schemas\<rparr>), w))"
    and inv: "\<And>schemas. db_inv B w (db'\<lparr>tableNameVsSchemaMap := schemas\<rparr>) (tabs @ [t])"
    and m: "mt_abs B (memTable db') = mt_abs B (memTable db)"
    and st: "sst_inv w (ssTable db') (tabs @ [t])"
    by (rule btree_contract.reopen_calm [OF assms(1-4) refl, of bl]) blast
  have mt: "mt_inv B (memTable db')"
    using db_invD(3) [OF inv] by simp
  have "DB_Get B CatalogKey db' w = Inl errDatablock"
    using assms(5-7) leD [OF assms(8)]
    by (simp add: DB_Get_tables [OF assms(1) mt st] m file_get_def)
  with start show ?thesis
    by (simp add: getTableNameVsSchemaMap_def)
qed

theorem db_reopen_fails_witness:
  "NewDB list_btree \<lparr>SsTableConfig = \<lparr>DataFilesDirectory =
        dataFilesDirectory (ssTable (db_on list_btree ''w'' ''d'' one_table)), BlockLength = 0\<rparr>,
      WalFilePath = wal_path (wal (db_on list_btree ''w'' ''d'' one_table))\<rparr>
      (world_on ''w'' ''d'' one_table) = (Inl errDatablock, world_on ''w'' ''d'' one_table)"
  by (rule db_reopen_fails [where tabs = "[]" and t = "(100, [(''A'', ''1'')])",
        OF list_tree.btree_contract_axioms],
      simp only: append.simps one_table_def [symmetric], rule list_db_inv(1) [OF one_table_ok])
     (simp_all add: CatalogKey_def less_eq_list_code)

end
