(* ===== verification/Db_Txn.thy ===== *)
theory Db_Txn
  imports Db
begin

text \<open>
  \<^verbatim>\<open>db/transaction.go\<close> on the database: reads of a transaction and the commit, which
  writes one record to the log and then moves the buffered writes to the memtable. Go ranges
  over the buffer twice, for the payload and for the memtable, each time in an order of its own.
\<close>

subsection \<open>Operations\<close>

definition Txn_Get ::
    "'t btree \<Rightarrow> string \<Rightarrow> Transaction \<Rightarrow> 't DB \<Rightarrow> world \<Rightarrow> (goerr + string) \<times> Transaction \<times> 't DB" where
  "Txn_Get B key txn db w =
     (case tryAcquireReadLock key txn (txnManager db) of
        Inl e \<Rightarrow> (Inl e, txn, db)
      | Inr (txn', tm') \<Rightarrow>
          let db' = db\<lparr>txnManager := tm'\<rparr> in
          (case bufferedWriteMap txn' key of
             Some val \<Rightarrow> (Inr val, txn', db')
           | None \<Rightarrow> (DB_Get B key db' w, txn', db')))"

definition writeSingleWalEntryForCommit ::
    "string list \<Rightarrow> Transaction \<Rightarrow> 't DB \<Rightarrow> world \<Rightarrow> (goerr + unit) \<times> 't DB \<times> world" where
  "writeSingleWalEntryForCommit ord txn db w =
     (case WriteEntry (wal db) (serialiseTransactionCommitPayload ord (bufferedWriteMap txn)) w of
        (r, wal', w') \<Rightarrow> (r, db\<lparr>wal := wal'\<rparr>, w'))"

text \<open>The end of \<open>Commit\<close>; a missing lock entry would be a nil pointer.\<close>

definition finish_commit ::
    "Transaction \<Rightarrow> 't DB \<Rightarrow> world \<Rightarrow> (goerr + unit) \<times> Transaction \<times> 't DB \<times> world" where
  "finish_commit txn db w =
     (case releaseAllLocks txn (txnManager db) of
        Inl e \<Rightarrow> (Inl e, txn, db, w)
      | Inr (txn', tm') \<Rightarrow> (Inr (), cleanupBufferedWriteMap txn', db\<lparr>txnManager := tm'\<rparr>, w))"

definition Commit ::
    "'t btree \<Rightarrow> string list \<Rightarrow> string list \<Rightarrow> Transaction \<Rightarrow> 't DB \<Rightarrow> world
       \<Rightarrow> (goerr + unit) \<times> Transaction \<times> 't DB \<times> world" where
  "Commit B ord1 ord2 txn db w =
     (case writeSingleWalEntryForCommit ord1 txn db w of
        (Inl e, db', w') \<Rightarrow> (Inl e, txn, db', w')
      | (Inr _, db', w') \<Rightarrow>
          let db' = db'\<lparr>memTable := puts B (range_pairs ord2 (bufferedWriteMap txn)) (memTable db')\<rparr> in
          if ShouldFlush (memTable db')
          then (case createSsTableAndClearWalAndMemTable B db' w' of
                  (Inl e, db'', w'') \<Rightarrow> (Inl e, txn, db'', w'')
                | (Inr _, db'', w'') \<Rightarrow> finish_commit txn db'' w'')
          else finish_commit txn db' w')"

lemma Commit_flush_if_full:
  assumes "WriteEntry (wal db) (serialiseTransactionCommitPayload ord1 (bufferedWriteMap txn)) w
      = (Inr (), wl, w1)"
    and "flush_if_full B (db\<lparr>wal := wl, memTable :=
        puts B (range_pairs ord2 (bufferedWriteMap txn)) (memTable db)\<rparr>) w1 = (Inr (), db', w')"
  shows "Commit B ord1 ord2 txn db w = finish_commit txn db' w'"
  using assms
  by (auto simp: Commit_def writeSingleWalEntryForCommit_def flush_if_full_def Let_def
      split: prod.splits sum.splits if_splits)

subsection \<open>The commit writes the buffer\<close>

lemma range_pairs_rev:
  assumes "range_order ord m"
  shows "map_of (rev (range_pairs ord m)) = m"
  using assms map_of_rev_distinct [of "range_pairs ord m"] map_of_range_pairs [OF assms]
  by (simp add: range_order_def)

lemma release_keys_present:
  assumes "\<forall>key \<in> set ks. keyVsLocksAcquiredMap tm key \<noteq> None"
  shows "\<exists>tm'. release_keys tid ks tm = Inr tm'"
  using assms by (induction ks arbitrary: tm) (auto simp: release_lock_def)

text \<open>The record of a commit.\<close>

lemma commit_record:
  assumes "range_order ord m" and "m '''' = None"
    and "length (serialiseTransactionCommitPayload ord m) \<le> 1000000"
  defines "c \<equiv> Transaction_Cmd (txn_commands ord m)"
  shows "serialiseTransactionCommitPayload ord m = cmd_payload c"
    and "cmd_fits c" and "nonempty_keys (cmd_writes c)" and "map_of (rev (cmd_writes c)) = m"
proof -
  show payload: "serialiseTransactionCommitPayload ord m = cmd_payload c"
    unfolding c_def by (rule serialiseTransactionCommitPayload_payload)
  show "cmd_fits c"
    using assms(3) payload by (simp add: cmd_fits_def)
  have "'''' \<notin> set ord"
    using assms(1,2) by (auto simp: range_order_def)
  then show "nonempty_keys (cmd_writes c)"
    by (auto simp: c_def nonempty_keys_def range_pairs_def cmd_writes_txn_commands simp del: cmd_writes.simps)
  show "map_of (rev (cmd_writes c)) = m"
    by (simp only: c_def cmd_writes_txn_commands range_pairs_rev [OF assms(1)])
qed

lemma Commit_calm:
  assumes B: "btree_contract B" and inv: "db_inv B w db tabs"
    and ord: "range_order ord1 (bufferedWriteMap txn)" "range_order ord2 (bufferedWriteMap txn)"
    and ne: "bufferedWriteMap txn '''' = None"
    and fits: "length (serialiseTransactionCommitPayload ord1 (bufferedWriteMap txn)) \<le> 1000000"
    and locks: "\<forall>key \<in> set (lockAcquiredKeys txn). keyVsLocksAcquiredMap (txnManager db) key \<noteq> None"
  obtains txn' db' w' tabs' where "Commit B ord1 ord2 txn db w = (Inr (), txn', db', w')"
    and "db_inv B w' db' tabs'"
    and "db_map B db' tabs' = db_map B db tabs ++ bufferedWriteMap txn"
    and "bufferedWriteMap txn' = Map.empty" and "lockAcquiredKeys txn' = []"
    and "releaseAllLocks txn (txnManager db) = Inr (txn\<lparr>lockAcquiredKeys := []\<rparr>, txnManager db')"
    and "wal_path (wal db') = wal_path (wal db)"
    and "dataFilesDirectory (ssTable db') = dataFilesDirectory (ssTable db)"
    and "tableNameVsSchemaMap db' = tableNameVsSchemaMap db"
    and "indexed (ssTable db) tabs \<Longrightarrow> indexed (ssTable db') tabs'"
    and "Rollback txn (txnManager db) = Inr (txn', txnManager db')"
proof -
  let ?m = "bufferedWriteMap txn" and ?c = "Transaction_Cmd (txn_commands ord1 (bufferedWriteMap txn))"
  note payload = commit_record(1) [OF ord(1) ne fits] and cfits = commit_record(2) [OF ord(1) ne fits]
    and nonempty = commit_record(3) [OF ord(1) ne fits] and writes = commit_record(4) [OF ord(1) ne fits]
  have same: "map_of (rev (range_pairs ord2 ?m)) = map_of (rev (cmd_writes ?c))"
    by (simp only: writes range_pairs_rev [OF ord(2)])
  obtain wl w1 db1 w' tabs' where b: "WriteEntry (wal db) (cmd_payload ?c) w = (Inr (), wl, w1)"
    "flush_if_full B (db\<lparr>wal := wl, memTable := puts B (range_pairs ord2 ?m) (memTable db)\<rparr>) w1
      = (Inr (), db1, w')"
    and i: "db_inv B w' db1 tabs'" "db_map B db1 tabs' = db_map B db tabs ++ ?m"
    and k: "wal_path (wal db1) = wal_path (wal db)"
    "dataFilesDirectory (ssTable db1) = dataFilesDirectory (ssTable db)" "txnManager db1 = txnManager db"
    "tableNameVsSchemaMap db1 = tableNameVsSchemaMap db"
    and ix: "indexed (ssTable db) tabs \<Longrightarrow> indexed (ssTable db1) tabs'"
    by (rule btree_contract.batch_calm [OF B inv cfits nonempty same, unfolded writes]) blast
  obtain tm' where tm': "releaseAllLocks txn (txnManager db) = Inr (txn\<lparr>lockAcquiredKeys := []\<rparr>, tm')"
    using release_keys_present [OF locks, of "txn_id txn"] by (auto simp: releaseAllLocks_def)
  have "Commit B ord1 ord2 txn db w = finish_commit txn db1 w'"
    by (rule Commit_flush_if_full [OF b(1) [folded payload] b(2)])
  then have "Commit B ord1 ord2 txn db w =
      (Inr (), cleanupBufferedWriteMap (txn\<lparr>lockAcquiredKeys := []\<rparr>), db1\<lparr>txnManager := tm'\<rparr>, w')"
    by (simp add: finish_commit_def k tm')
  moreover have "db_inv B w' (db1\<lparr>txnManager := tm'\<rparr>) tabs'"
    using i(1) by (simp add: db_inv_def)
  ultimately show ?thesis
    using i(2) k tm' writes ix
    by (intro that [of "cleanupBufferedWriteMap (txn\<lparr>lockAcquiredKeys := []\<rparr>)"
          "db1\<lparr>txnManager := tm'\<rparr>" w' tabs'])
       (simp_all add: db_map_def cleanupBufferedWriteMap_def Rollback_def del: cmd_writes.simps)
qed

subsection \<open>Properties\<close>

text \<open>C9: A commit, in every state without faults that the invariant allows, writes all buffered
  pairs and nothing else, whatever the two orders in which Go ranges over the buffer, and whether or
  not the memtable is flushed; it keeps the invariant, empties the buffer and releases the locks
  exactly as \<open>releaseAllLocks\<close> does.\<close>

theorem commit_refines:
  assumes "btree_contract B" and "db_inv B w db tabs"
    and "range_order ord1 (bufferedWriteMap txn)" and "range_order ord2 (bufferedWriteMap txn)"
    and "bufferedWriteMap txn '''' = None"
    and "length (serialiseTransactionCommitPayload ord1 (bufferedWriteMap txn)) \<le> 1000000"
    and "\<forall>key \<in> set (lockAcquiredKeys txn). keyVsLocksAcquiredMap (txnManager db) key \<noteq> None"
  shows "\<exists>txn' db' w' tabs'. Commit B ord1 ord2 txn db w = (Inr (), txn', db', w')
    \<and> db_inv B w' db' tabs' \<and> db_map B db' tabs' = db_map B db tabs ++ bufferedWriteMap txn
    \<and> bufferedWriteMap txn' = Map.empty
    \<and> releaseAllLocks txn (txnManager db) = Inr (txn\<lparr>lockAcquiredKeys := []\<rparr>, txnManager db')"
  by (rule Commit_calm [OF assms]) blast

definition writing_txn :: Transaction where
  "writing_txn = \<lparr>txn_id = 1, bufferedWriteMap = [''B'' \<mapsto> ''2'', ''C'' \<mapsto> ''3''],
     lockAcquiredKeys = [''B'', ''C'']\<rparr>"

definition locked_db :: "Entry list DB" where
  "locked_db = (db_on list_btree ''w'' ''d'' one_table)\<lparr>txnManager :=
     \<lparr>nextTransactionId = 2, keyVsLocksAcquiredMap =
        [''B'' \<mapsto> \<lparr>writerTxnId = 1, readerTxnIds = []\<rparr>,
         ''C'' \<mapsto> \<lparr>writerTxnId = 1, readerTxnIds = []\<rparr>]\<rparr>\<rparr>"

lemma locked_db_inv: "db_inv list_btree (world_on ''w'' ''d'' one_table) locked_db one_table"
  using list_db_inv(1) [OF one_table_ok] by (simp add: db_inv_def locked_db_def)

lemma writing_txn_order:
  "range_order [''C'', ''B''] (bufferedWriteMap writing_txn)"
  "range_order [''B'', ''C''] (bufferedWriteMap writing_txn)"
  by (auto simp: range_order_def writing_txn_def)

lemma writing_txn_payload:
  "length (serialiseTransactionCommitPayload [''C'', ''B''] (bufferedWriteMap writing_txn)) = 39"
  by (simp add: writing_txn_def serialiseTransactionCommitPayload_payload txn_commands_def
      range_pairs_def put_bytes_def)

theorem commit_refines_witness:
  "\<exists>txn' db' w' tabs'. Commit list_btree [''C'', ''B''] [''B'', ''C''] writing_txn locked_db
        (world_on ''w'' ''d'' one_table) = (Inr (), txn', db', w')
    \<and> db_inv list_btree w' db' tabs'
    \<and> db_map list_btree db' tabs' = db_map list_btree locked_db one_table ++ bufferedWriteMap writing_txn
    \<and> bufferedWriteMap txn' = Map.empty
    \<and> releaseAllLocks writing_txn (txnManager locked_db) =
        Inr (writing_txn\<lparr>lockAcquiredKeys := []\<rparr>, txnManager db')"
  by (rule commit_refines [OF list_tree.btree_contract_axioms locked_db_inv writing_txn_order])
     (simp_all add: writing_txn_payload, simp_all add: writing_txn_def locked_db_def)

text \<open>C8: A commit is atomic over crashes. When only the first \<open>k\<close> bytes of its log record
  reached the disk, the replay at the next start either fails or rebuilds the memtable of before
  the commit; it rebuilds the memtable with the writes exactly when the whole record is there. No
  replay shows a part of the transaction.\<close>

theorem commit_crash_atomic:
  assumes "btree_contract B" and "db_inv B w db tabs"
    and "range_order ord (bufferedWriteMap txn)"
    and "payload = serialiseTransactionCommitPayload ord (bufferedWriteMap txn)"
    and "length payload \<le> 1000000" and "k \<le> length (wal_record payload)"
    and "files w (wal_path (wal db)) = Some c"
    and "w' = w\<lparr>files := (files w)(wal_path (wal db) \<mapsto> c @ take k (wal_record payload))\<rparr>"
  shows "case fst (buildMemtableFromWal B \<lparr>wal_path = wal_path (wal db), rpos = 0\<rparr> w') of
      Inl e \<Rightarrow> e = torn_error (length payload) k \<and> k \<notin> {0, length (wal_record payload)}
    | Inr mt \<Rightarrow> mt_inv B mt \<and> mt_abs B mt =
        (if k = length (wal_record payload) then mt_abs B (memTable db) ++ bufferedWriteMap txn
         else mt_abs B (memTable db))"
proof -
  let ?start = "\<lparr>wal_path = wal_path (wal db), rpos = 0\<rparr>"
  let ?c = "Transaction_Cmd (txn_commands ord (bufferedWriteMap txn))"
  obtain cs where cs: "c = log_bytes cs" "\<forall>c \<in> set cs. cmd_fits c"
    "mt_abs B (memTable db) = map_of (rev (log_writes cs))"
    using db_invD(6) [OF assms(2)] assms(7) by (auto simp: logged_def)
  have payload: "payload = cmd_payload ?c"
    using assms(4) by (simp only: serialiseTransactionCommitPayload_payload)
  have r: "readable ?start w'"
    using disk_invD(1) [OF db_invD(1) [OF assms(2)]] by (simp add: readable_def assms(8))
  have u: "unread ?start w' = log_bytes cs @ take k (wal_record payload)"
    by (simp add: unread_def assms(8) cs(1))
  note new = btree_contract.puts_NewMemtable [OF assms(1)]
  show ?thesis
  proof (cases "k = length (wal_record payload)")
    case True
    have "fst (buildMemtableFromWal B ?start w') = Inr (puts B (log_writes (cs @ [?c])) (NewMemtable B))"
      using replay_log [OF r, of "cs @ [?c]" B "NewMemtable B"] cs(2) u True assms(5)
      by (simp add: buildMemtableFromWal_def payload cmd_fits_def del: cmd_payload.simps)
    moreover have "map_of (rev (log_writes (cs @ [?c]))) = mt_abs B (memTable db) ++ bufferedWriteMap txn"
      by (simp add: cs(3) range_pairs_rev [OF assms(3)] del: cmd_writes.simps)
    ultimately show ?thesis
      using new [of "log_writes (cs @ [?c])"] True by (simp del: log_simps)
  next
    case False
    let ?wal = "?start\<lparr>rpos := rpos ?start + length (log_bytes cs)\<rparr>"
    note prefix = replay_wal_prefix [OF r cs(2) u, of B "NewMemtable B"]
    have "fst (ReadEntry ?wal w') = Inl (torn_error (length payload) k)"
      by (rule ReadEntry_torn [OF _ assms(5)]) (use r prefix assms(6) False in \<open>simp_all add: readable_def\<close>)
    from replay_wal_stops [OF this, of B "puts B (log_writes cs) (NewMemtable B)"] prefix
    show ?thesis
      using new [of "log_writes cs"] False
      by (auto simp: buildMemtableFromWal_def torn_error_def cs(3))
  qed
qed

theorem commit_crash_atomic_witness:
  "case fst (buildMemtableFromWal list_btree \<lparr>wal_path = wal_path (wal locked_db), rpos = 0\<rparr>
      ((world_on ''w'' ''d'' one_table)\<lparr>files := (files (world_on ''w'' ''d'' one_table))
        (wal_path (wal locked_db) \<mapsto> [] @ take 47 (wal_record
          (serialiseTransactionCommitPayload [''C'', ''B''] (bufferedWriteMap writing_txn))))\<rparr>)) of
      Inl e \<Rightarrow> e = torn_error (length (serialiseTransactionCommitPayload [''C'', ''B'']
          (bufferedWriteMap writing_txn))) 47
        \<and> 47 \<notin> {0, length (wal_record (serialiseTransactionCommitPayload [''C'', ''B'']
            (bufferedWriteMap writing_txn)))}
    | Inr mt \<Rightarrow> mt_inv list_btree mt \<and> mt_abs list_btree mt =
        (if 47 = length (wal_record (serialiseTransactionCommitPayload [''C'', ''B'']
            (bufferedWriteMap writing_txn)))
         then mt_abs list_btree (memTable locked_db) ++ bufferedWriteMap writing_txn
         else mt_abs list_btree (memTable locked_db))"
  by (rule commit_crash_atomic [OF list_tree.btree_contract_axioms locked_db_inv
        writing_txn_order(1) refl _ _ _ refl])
     (simp_all add: writing_txn_payload, simp add: locked_db_def world_on_def Let_def)

text \<open>A transaction reads its own writes: after a successful \<open>Put\<close>, \<open>Get\<close> of the same
  key returns the buffered value, whatever the database holds.\<close>

theorem txn_reads_own_write:
  assumes "Txn_Put key val txn (txnManager db) = Inr (txn', tm')"
  shows "\<exists>txn'' db'. Txn_Get B key txn' (db\<lparr>txnManager := tm'\<rparr>) w = (Inr val, txn'', db')
    \<and> bufferedWriteMap txn'' = bufferedWriteMap txn'"
proof -
  obtain txn1 where 1: "tryAcquireWriteLock key txn (txnManager db) = Inr (txn1, tm')"
    and txn': "txn' = txn1\<lparr>bufferedWriteMap := (bufferedWriteMap txn1)(key \<mapsto> val)\<rparr>"
    using assms by (auto simp: Txn_Put_def split: sum.splits)
  have "txn_id txn1 = txn_id txn \<and> (\<exists>locks. keyVsLocksAcquiredMap tm' key = Some locks
      \<and> writerTxnId locks = txn_id txn)"
    using 1 by (auto simp: tryAcquireWriteLock_def Let_def split: option.splits if_splits)
  then show ?thesis
    by (auto simp: Txn_Get_def tryAcquireReadLock_def txn' Let_def)
qed

theorem txn_reads_own_write_witness:
  "\<exists>txn'' db'. Txn_Get list_btree ''B'' (writing_txn\<lparr>bufferedWriteMap := (bufferedWriteMap writing_txn)
        (''B'' \<mapsto> ''new'')\<rparr>) (locked_db\<lparr>txnManager := txnManager locked_db\<rparr>)
      (world_on ''w'' ''d'' one_table) = (Inr ''new'', txn'', db')
    \<and> bufferedWriteMap txn'' = bufferedWriteMap (writing_txn\<lparr>bufferedWriteMap :=
        (bufferedWriteMap writing_txn)(''B'' \<mapsto> ''new'')\<rparr>)"
  by (rule txn_reads_own_write [of _ "''new''" writing_txn])
     (simp add: Txn_Put_def tryAcquireWriteLock_def writing_txn_def locked_db_def)

end
