(* ===== verification/Db_Run.thy ===== *)
theory Db_Run
  imports Db_Txn
begin

text \<open>
  Whole runs of the database: puts, commits, the compactions that flushes started, and
  restarts, in any order, each operation running to its end (\<open>Lsm_Steps\<close> interleaves the
  parts of flush and compaction). \<open>RunCompaction\<close> does not take \<open>db.mu\<close>, but it touches
  neither the log nor the memtable. The invariant of \<open>Db\<close> holds in every reachable state, and
  the contents are the writes in their order.
\<close>

abbreviation same_place :: "'t DB \<Rightarrow> int \<Rightarrow> db_Config" where
  "same_place db bl \<equiv> \<lparr>SsTableConfig = \<lparr>DataFilesDirectory = dataFilesDirectory (ssTable db),
     BlockLength = bl\<rparr>, WalFilePath = wal_path (wal db)\<rparr>"

inductive db_step ::
    "'t btree \<Rightarrow> map_range \<Rightarrow> 't DB \<times> world \<Rightarrow> (string \<rightharpoonup> string) \<Rightarrow> 't DB \<times> world \<Rightarrow> bool"
  for B :: "'t btree" and rng :: map_range where
  put:
    "key \<noteq> '''' \<Longrightarrow> length key + length val \<le> 999985 \<Longrightarrow>
     DB_Put B key val db w = (r, db', w') \<Longrightarrow> db_step B rng (db, w) [key \<mapsto> val] (db', w')"
| commit:
    "range_order ord1 (bufferedWriteMap txn) \<Longrightarrow> range_order ord2 (bufferedWriteMap txn) \<Longrightarrow>
     bufferedWriteMap txn '''' = None \<Longrightarrow>
     length (serialiseTransactionCommitPayload ord1 (bufferedWriteMap txn)) \<le> 1000000 \<Longrightarrow>
     \<forall>key \<in> set (lockAcquiredKeys txn). keyVsLocksAcquiredMap (txnManager db) key \<noteq> None \<Longrightarrow>
     Commit B ord1 ord2 txn db w = (r, txn', db', w') \<Longrightarrow>
     db_step B rng (db, w) (bufferedWriteMap txn) (db', w')"
| compact:
    "goroutines db > 0 \<Longrightarrow>
     compaction_build rng (firstLevelFiles (ssTable db)) w = Inr kvs \<Longrightarrow>
     fits32 (length (file_bytes (blockLength (ssTable db)) kvs)) \<Longrightarrow>
     RunCompaction rng (ssTable db) w = (r, st', w') \<Longrightarrow>
     db_step B rng (db, w) Map.empty (db\<lparr>ssTable := st', goroutines := goroutines db - 1\<rparr>, w')"
| restart:
    "NewDB B (same_place db bl) w = (Inr db', w') \<Longrightarrow> db_step B rng (db, w) Map.empty (db', w')"

inductive db_run ::
    "'t btree \<Rightarrow> map_range \<Rightarrow> 't DB \<times> world \<Rightarrow> (string \<rightharpoonup> string) \<Rightarrow> 't DB \<times> world \<Rightarrow> bool"
  for B :: "'t btree" and rng :: map_range and s0 :: "'t DB \<times> world" where
  start: "db_run B rng s0 Map.empty s0"
| step: "db_run B rng s0 m s \<Longrightarrow> db_step B rng s writes s' \<Longrightarrow> db_run B rng s0 (m ++ writes) s'"

subsection \<open>Every step keeps the invariant and makes its writes\<close>

definition run_inv :: "'t btree \<Rightarrow> string \<Rightarrow> string \<Rightarrow> (string \<rightharpoonup> string) \<Rightarrow> 't DB \<times> world \<Rightarrow> bool" where
  "run_inv B path dir m s \<longleftrightarrow> (case s of (db, w) \<Rightarrow>
     (\<exists>tabs. db_inv B w db tabs \<and> db_map B db tabs = m)
     \<and> wal_path (wal db) = path \<and> dataFilesDirectory (ssTable db) = dir)"

lemma RunCompaction_db_inv:
  assumes "btree_contract B" and inv: "db_inv B w db tabs" and rng: "rng_ok rng"
    and build: "compaction_build rng (firstLevelFiles (ssTable db)) w = Inr kvs"
    and fits: "fits32 (length (file_bytes (blockLength (ssTable db)) kvs))"
    and run: "RunCompaction rng (ssTable db) w = (r, st', w')"
  shows "run_inv B (wal_path (wal db)) (dataFilesDirectory (ssTable db)) (db_map B db tabs)
    (db\<lparr>ssTable := st', goroutines := n\<rparr>, w')"
proof -
  note i = db_invD [OF inv]
  note d = disk_invD [OF i(1)]
  have kvs: "kvs = merged rng tabs"
    using build compaction_build_stored [OF d(1,2), of rng] by simp
  let ?t = "(blockLength (ssTable db), merged rng tabs)"
  obtain c st1 w1 where C: "RunCompaction rng (ssTable db) w = (Inr (), st1, w1)"
    "disk_inv w1 st1 [?t]" "saved w1 st1" "dataFilesDirectory st1 = dataFilesDirectory (ssTable db)"
    "\<And>f. f \<noteq> manifestPath (dataFilesDirectory (ssTable db)) \<Longrightarrow>
      \<forall>i. f \<noteq> tablePath (dataFilesDirectory (ssTable db)) i \<Longrightarrow> files w1 f = files w f"
    by (rule RunCompaction_calm [OF i(1) rng fits [unfolded kvs]]) blast
  then have disk: "disk_inv w' st' [?t]" "saved w' st'"
    "dataFilesDirectory st' = dataFilesDirectory (ssTable db)"
    and logfile: "files w' (wal_path (wal db)) = files w (wal_path (wal db))"
    using run i(7) by (auto simp: separate_def)
  have "map_of (merged rng tabs) = sst_map tabs"
    by (rule merged_facts [OF rng d(2)])
  then show ?thesis
    using disk logfile i manifest_read_saved [OF disk(2)]
    by (auto simp: run_inv_def db_inv_def db_map_def logged_def sst_map_Cons intro!: exI [of _ "[?t]"])
qed

lemma db_step_inv:
  assumes "db_step B rng s writes s'" and B: "btree_contract B" and "rng_ok rng"
    and "run_inv B path dir m s" and "path \<noteq> ''''" and "dir \<noteq> ''''"
  shows "run_inv B path dir (m ++ writes) s'"
  using assms(1,4)
proof cases
  case (put key val db w r db' w')
  from assms(4) put obtain tabs where t: "db_inv B w db tabs" "db_map B db tabs = m"
    "wal_path (wal db) = path" "dataFilesDirectory (ssTable db) = dir"
    by (auto simp: run_inv_def)
  show ?thesis
    by (rule DB_Put_calm [OF B t(1), of key val]) (use put t in \<open>auto simp: run_inv_def\<close>)
next
  case (commit ord1 txn ord2 db w r txn' db' w')
  from assms(4) commit obtain tabs where t: "db_inv B w db tabs" "db_map B db tabs = m"
    "wal_path (wal db) = path" "dataFilesDirectory (ssTable db) = dir"
    by (auto simp: run_inv_def)
  show ?thesis
    by (rule Commit_calm [OF B t(1) commit(4-8)]) (use commit t in \<open>auto simp: run_inv_def\<close>)
next
  case (compact db w kvs r st' w')
  from assms(4) compact obtain tabs where t: "db_inv B w db tabs" "db_map B db tabs = m"
    "wal_path (wal db) = path" "dataFilesDirectory (ssTable db) = dir"
    by (auto simp: run_inv_def)
  then show ?thesis
    using RunCompaction_db_inv [OF B t(1) assms(3) compact(5,6,7)] compact by simp
next
  case (restart db bl w db' w')
  from assms(4) restart obtain tabs where t: "db_inv B w db tabs" "db_map B db tabs = m"
    "wal_path (wal db) = path" "dataFilesDirectory (ssTable db) = dir"
    by (auto simp: run_inv_def)
  have ne: "wal_path (wal db) \<noteq> ''''" "dataFilesDirectory (ssTable db) \<noteq> ''''"
    using t assms(5,6) by simp_all
  show ?thesis
    by (rule btree_contract.reopen_calm [OF B t(1) ne refl, of bl])
       (use restart t in \<open>auto simp: run_inv_def db_map_def split: sum.splits intro!: exI [of _ tabs]\<close>)
qed

lemma db_run_inv:
  assumes "db_run B rng s0 m s" and "btree_contract B" and "rng_ok rng"
    and "run_inv B path dir m0 s0" and "path \<noteq> ''''" and "dir \<noteq> ''''"
  shows "run_inv B path dir (m0 ++ m) s"
  using assms(1)
proof induction
  case start
  with assms(4) show ?case by simp
next
  case (step m s writes s')
  from db_step_inv [OF step.hyps(2) assms(2,3) step.IH assms(5,6)] show ?case
    by (simp add: map_add_assoc)
qed

subsection \<open>Properties\<close>

text \<open>C1: Durability: after any run of puts, commits, compactions and restarts without faults,
  whenever the database opens again on its files, the prefix scan of the tables, overridden by the
  prefix scan of the memtable, gives exactly the initial contents overridden by all writes of the
  run, in their order.\<close>

theorem db_run_durable:
  assumes "btree_contract B" and "rng_ok rng" and "db_inv B w0 db0 tabs0"
    and "wal_path (wal db0) \<noteq> ''''" and "dataFilesDirectory (ssTable db0) \<noteq> ''''"
    and "db_run B rng (db0, w0) m (db, w)"
    and "NewDB B (same_place db0 bl) w = (Inr db', w')"
  shows "\<exists>tableMap. SsTable_PrefixScan (ssTable db') p w' = Inr tableMap
    \<and> tableMap ++ Memtable_PrefixScan B (memTable db') p =
        (db_map B db0 tabs0 ++ m) |` {k. HasPrefix k p}"
proof -
  have "run_inv B (wal_path (wal db0)) (dataFilesDirectory (ssTable db0)) (db_map B db0 tabs0) (db0, w0)"
    using assms(3) by (auto simp: run_inv_def)
  from db_run_inv [OF assms(6,1,2) this assms(4,5)]
  obtain tabs where t: "db_inv B w db tabs" "db_map B db tabs = db_map B db0 tabs0 ++ m"
    "wal_path (wal db) = wal_path (wal db0)"
    "dataFilesDirectory (ssTable db) = dataFilesDirectory (ssTable db0)"
    by (auto simp: run_inv_def)
  have ne: "wal_path (wal db) \<noteq> ''''" "dataFilesDirectory (ssTable db) \<noteq> ''''"
    using t assms(4,5) by simp_all
  obtain db1 where o: "NewDB B (same_place db bl) w =
      (case getTableNameVsSchemaMap B db1 w of
         Inl e \<Rightarrow> (Inl e, w) | Inr schemas \<Rightarrow> (Inr (db1\<lparr>tableNameVsSchemaMap := schemas\<rparr>), w))"
    and inv: "\<And>schemas. db_inv B w (db1\<lparr>tableNameVsSchemaMap := schemas\<rparr>) tabs"
    and same: "mt_abs B (memTable db1) = mt_abs B (memTable db)"
    and st: "sst_inv w (ssTable db1) tabs"
    by (rule btree_contract.reopen_calm [OF assms(1) t(1) ne refl, of bl]) blast
  have db': "ssTable db' = ssTable db1" "memTable db' = memTable db1" "w' = w"
    using o assms(7) t(3,4) by (auto split: sum.splits)
  have mt: "mt_inv B (memTable db1)"
    using db_invD(3) [OF inv] by simp
  have "(sst_map tabs |` A) ++ (mt_abs B (memTable db1) |` A) = db_map B db tabs |` A" for A
    by (auto simp: db_map_def same map_add_def restrict_map_def fun_eq_iff)
  then show ?thesis
    by (simp add: db' SsTable_PrefixScan_tables [OF st] btree_contract.PrefixScan_abs [OF assms(1) mt] t(2))
qed

text \<open>A put that flushes, in a database without tables.\<close>

abbreviation big :: string where
  "big \<equiv> replicate 2000 (CHR ''x'')"

lemma big_put:
  obtains db w db' w' where "db_run list_btree ordered_range (db_on list_btree ''w'' ''d'' [], world_on ''w'' ''d'' [])
      [''z'' \<mapsto> big] (db, w)"
    and "NewDB list_btree (same_place (db_on list_btree ''w'' ''d'' []) 100) w = (Inr db', w')"
proof -
  note B = list_tree.btree_contract_axioms
  have inv: "db_inv list_btree (world_on ''w'' ''d'' []) (db_on list_btree ''w'' ''d'' []) []"
    by (rule list_db_inv(1)) simp
  obtain db w tabs where put: "DB_Put list_btree ''z'' big (db_on list_btree ''w'' ''d'' [])
      (world_on ''w'' ''d'' []) = (Inr (), db, w)"
    and inv': "db_inv list_btree w db tabs"
    and where_to: "mt_abs list_btree (memTable db) =
        (mt_abs list_btree (memTable (db_on list_btree ''w'' ''d'' [])))(''z'' \<mapsto> big) \<and> tabs = []
      \<or> mt_abs list_btree (memTable db) = Map.empty \<and> (\<exists>t. tabs = [] @ [t] \<and> map_of (snd t) =
          (mt_abs list_btree (memTable (db_on list_btree ''w'' ''d'' [])))(''z'' \<mapsto> big))"
    and same: "wal_path (wal db) = wal_path (wal (db_on list_btree ''w'' ''d'' []))"
      "dataFilesDirectory (ssTable db) = dataFilesDirectory (ssTable (db_on list_btree ''w'' ''d'' []))"
    by (rule DB_Put_calm [OF B inv, of "''z''" big]) (simp, simp, blast)
  have place: "mt_abs list_btree (memTable db) = [''z'' \<mapsto> big] \<and> tabs = []
      \<or> mt_abs list_btree (memTable db) = Map.empty \<and> (\<exists>t. tabs = [t] \<and> map_of (snd t) = [''z'' \<mapsto> big])"
    using where_to by simp
  have run: "db_run list_btree ordered_range (db_on list_btree ''w'' ''d'' [], world_on ''w'' ''d'' [])
      [''z'' \<mapsto> big] (db, w)"
    using db_run.step [OF db_run.start db_step.put [OF _ _ put]] by simp
  obtain db1 where o: "NewDB list_btree (same_place db 100) w =
      (case getTableNameVsSchemaMap list_btree db1 w of
         Inl e \<Rightarrow> (Inl e, w) | Inr schemas \<Rightarrow> (Inr (db1\<lparr>tableNameVsSchemaMap := schemas\<rparr>), w))"
    and inv1: "\<And>schemas. db_inv list_btree w (db1\<lparr>tableNameVsSchemaMap := schemas\<rparr>) tabs"
    and mt: "mt_abs list_btree (memTable db1) = mt_abs list_btree (memTable db)"
    and st: "sst_inv w (ssTable db1) tabs"
    by (rule list_tree.reopen_calm [OF inv' _ _ refl, of 100]) (use same in auto)
  have above: "snd t = [] \<or> CatalogKey < fst (hd (snd t))" if "t \<in> set tabs" for t
  proof -
    have "map_of (snd t) = [''z'' \<mapsto> big]"
      using place that by auto
    then have "dom (map_of (snd t)) = {''z''}"
      by simp
    then have "fst ` set (snd t) = {''z''}"
      by (simp only: dom_map_of_conv_image_fst)
    then show ?thesis
      by (cases "snd t") (auto simp: CatalogKey_def less_list_code)
  qed
  have mi: "mt_inv list_btree (memTable db1)"
    using db_invD(3) [OF inv1] by simp
  have "DB_Get list_btree CatalogKey db1 w = Inr ''''"
    using place tables_get_absent [of "rev tabs" CatalogKey] above
    by (auto simp: DB_Get_tables [OF B mi st] mt CatalogKey_def)
  then show ?thesis
    using o same by (intro that [OF run]) (simp add: getTableNameVsSchemaMap_def)
qed

theorem db_run_durable_witness:
  "\<exists>db w db' w' tableMap.
    db_run list_btree ordered_range (db_on list_btree ''w'' ''d'' [], world_on ''w'' ''d'' [])
      [''z'' \<mapsto> big] (db, w)
    \<and> NewDB list_btree (same_place (db_on list_btree ''w'' ''d'' []) 100) w = (Inr db', w')
    \<and> SsTable_PrefixScan (ssTable db') ''z'' w' = Inr tableMap
    \<and> (tableMap ++ Memtable_PrefixScan list_btree (memTable db') ''z'') ''z'' = Some big"
proof -
  obtain db w db' w' where r: "db_run list_btree ordered_range
      (db_on list_btree ''w'' ''d'' [], world_on ''w'' ''d'' []) [''z'' \<mapsto> big] (db, w)"
    "NewDB list_btree (same_place (db_on list_btree ''w'' ''d'' []) 100) w = (Inr db', w')"
    by (rule big_put)
  have inv: "db_inv list_btree (world_on ''w'' ''d'' []) (db_on list_btree ''w'' ''d'' []) []"
    by (rule list_db_inv(1)) simp
  obtain tableMap where tm: "SsTable_PrefixScan (ssTable db') ''z'' w' = Inr tableMap"
    "tableMap ++ Memtable_PrefixScan list_btree (memTable db') ''z'' =
      (db_map list_btree (db_on list_btree ''w'' ''d'' []) [] ++ [''z'' \<mapsto> big]) |` {k. HasPrefix k ''z''}"
    using db_run_durable [OF list_tree.btree_contract_axioms rng_ok_ordered_range inv _ _ r, of "''z''"]
    by auto
  have "(tableMap ++ Memtable_PrefixScan list_btree (memTable db') ''z'') ''z'' = Some big"
    unfolding tm(2) by (simp add: restrict_map_def)
  with r tm(1) show ?thesis
    by (intro exI conjI)
qed

end
