(* ===== verification/Db_Steps.thy ===== *)
theory Db_Steps
  imports Db_Run
begin

text \<open>
  The database in steps: writers (puts and commits) and compactions taken apart into what runs
  without interference, and interleaved. A put holds \<open>db.mu\<close> to its end, so there is at most one;
  a commit takes no lock of the database, and nothing keeps two compactions from running at the
  same time. The relation has a switch \<open>solo\<close>: with it a writer starts only when there is no other
  one, and likewise a compaction. A write counts from the moment its record is in the log.
\<close>

datatype wphase =
    Logged "(string \<times> string) list"
  | Full
  | Created string
  | Tabled
  | Checked
  | Done

text \<open>A writer is a put (\<open>None\<close>) or the commit of a transaction.\<close>

type_synonym writer = "Transaction option \<times> wphase"

record 't sys =
  sys_db :: "'t DB"
  sys_world :: world
  writers :: "writer list"
  comps :: "phase list"

definition drop_nth :: "nat \<Rightarrow> 'a list \<Rightarrow> 'a list" where
  "drop_nth i xs = take i xs @ drop (Suc i) xs"

inductive sys_step ::
    "'t btree \<Rightarrow> map_range \<Rightarrow> bool \<Rightarrow> 't sys \<Rightarrow> (string \<rightharpoonup> string) \<Rightarrow> 't sys \<Rightarrow> bool"
  for B :: "'t btree" and rng :: map_range and solo :: bool where
  log_put:
    "(solo \<longrightarrow> writers s = []) \<Longrightarrow> None \<notin> fst ` set (writers s) \<Longrightarrow>
     key \<noteq> '''' \<Longrightarrow> length key + length val \<le> 999985 \<Longrightarrow>
     writeToWal key val (sys_db s) (sys_world s) = (Inr (), db', w') \<Longrightarrow>
     sys_step B rng solo s [key \<mapsto> val]
       (s\<lparr>sys_db := db', sys_world := w', writers := writers s @ [(None, Logged [(key, val)])]\<rparr>)"
| log_commit:
    "(solo \<longrightarrow> writers s = []) \<Longrightarrow>
     range_order ord1 (bufferedWriteMap txn) \<Longrightarrow> range_order ord2 (bufferedWriteMap txn) \<Longrightarrow>
     bufferedWriteMap txn '''' = None \<Longrightarrow>
     length (serialiseTransactionCommitPayload ord1 (bufferedWriteMap txn)) \<le> 1000000 \<Longrightarrow>
     writeSingleWalEntryForCommit ord1 txn (sys_db s) (sys_world s) = (Inr (), db', w') \<Longrightarrow>
     sys_step B rng solo s (bufferedWriteMap txn)
       (s\<lparr>sys_db := db', sys_world := w',
          writers := writers s @ [(Some txn, Logged (range_pairs ord2 (bufferedWriteMap txn)))]\<rparr>)"
| apply_writes:
    "i < length (writers s) \<Longrightarrow> writers s ! i = (who, Logged kvs) \<Longrightarrow>
     m = puts B kvs (memTable (sys_db s)) \<Longrightarrow>
     sys_step B rng solo s Map.empty
       (s\<lparr>sys_db := (sys_db s)\<lparr>memTable := m\<rparr>,
          writers := (writers s)[i := (who, if ShouldFlush m then Full else Done)]\<rparr>)"
| create_file:
    "i < length (writers s) \<Longrightarrow> writers s ! i = (who, Full) \<Longrightarrow>
     NewFile (ssTable (sys_db s)) (sys_world s) = (Inr f, st', w') \<Longrightarrow>
     sys_step B rng solo s Map.empty
       (s\<lparr>sys_db := (sys_db s)\<lparr>ssTable := st'\<rparr>, sys_world := w',
          writers := (writers s)[i := (who, Created f)]\<rparr>)"
| write_table:
    "i < length (writers s) \<Longrightarrow> writers s ! i = (who, Created f) \<Longrightarrow>
     SsTable_Write f (Iterate B (memTable (sys_db s))) (ssTable (sys_db s)) (sys_world s) = (Inr (), st', w') \<Longrightarrow>
     sys_step B rng solo s Map.empty
       (s\<lparr>sys_db := (sys_db s)\<lparr>ssTable := st'\<rparr>, sys_world := w',
          writers := (writers s)[i := (who, Tabled)]\<rparr>)"
| check_compaction:
    "i < length (writers s) \<Longrightarrow> writers s ! i = (who, Tabled) \<Longrightarrow>
     n = (if ShouldRunCompaction (ssTable (sys_db s)) then goroutines (sys_db s) + 1 else goroutines (sys_db s)) \<Longrightarrow>
     sys_step B rng solo s Map.empty
       (s\<lparr>sys_db := (sys_db s)\<lparr>goroutines := n\<rparr>, writers := (writers s)[i := (who, Checked)]\<rparr>)"
| clear:
    "i < length (writers s) \<Longrightarrow> writers s ! i = (who, Checked) \<Longrightarrow>
     Wal_Clear (wal (sys_db s)) (sys_world s) = (wl, w') \<Longrightarrow>
     sys_step B rng solo s Map.empty
       (s\<lparr>sys_db := (sys_db s)\<lparr>memTable := Memtable_Clear B (memTable (sys_db s)), wal := wl\<rparr>,
          sys_world := w', writers := (writers s)[i := (who, Done)]\<rparr>)"
| finish_put:
    "i < length (writers s) \<Longrightarrow> writers s ! i = (None, Done) \<Longrightarrow>
     sys_step B rng solo s Map.empty (s\<lparr>writers := drop_nth i (writers s)\<rparr>)"
| finish_txn:
    "i < length (writers s) \<Longrightarrow> writers s ! i = (Some txn, Done) \<Longrightarrow>
     finish_commit txn (sys_db s) (sys_world s) = (Inr (), txn', db', w') \<Longrightarrow>
     sys_step B rng solo s Map.empty
       (s\<lparr>sys_db := db', sys_world := w', writers := drop_nth i (writers s)\<rparr>)"
| begin_compaction:
    "(solo \<longrightarrow> comps s = []) \<Longrightarrow> goroutines (sys_db s) > 0 \<Longrightarrow>
     compaction_begin (ssTable (sys_db s)) = (st', fs) \<Longrightarrow>
     sys_step B rng solo s Map.empty
       (s\<lparr>sys_db := (sys_db s)\<lparr>ssTable := st', goroutines := goroutines (sys_db s) - 1\<rparr>,
          comps := comps s @ [Snapshot fs]\<rparr>)"
| build_compaction:
    "i < length (comps s) \<Longrightarrow> comps s ! i = Snapshot fs \<Longrightarrow>
     compaction_build rng fs (sys_world s) = Inr kvs \<Longrightarrow>
     sys_step B rng solo s Map.empty (s\<lparr>comps := (comps s)[i := Built fs kvs]\<rparr>)"
| write_compaction:
    "i < length (comps s) \<Longrightarrow> comps s ! i = Built fs kvs \<Longrightarrow>
     fits32 (length (file_bytes (blockLength (ssTable (sys_db s))) kvs)) \<Longrightarrow>
     compaction_write kvs (ssTable (sys_db s)) (sys_world s) = (Inr (c, off, ib), st', w') \<Longrightarrow>
     sys_step B rng solo s Map.empty
       (s\<lparr>sys_db := (sys_db s)\<lparr>ssTable := st'\<rparr>, sys_world := w',
          comps := (comps s)[i := Written fs c off ib]\<rparr>)"
| swap_compaction:
    "i < length (comps s) \<Longrightarrow> comps s ! i = Written fs c off ib \<Longrightarrow>
     atomicSwap c fs ib off (ssTable (sys_db s)) (sys_world s) = (st', w') \<Longrightarrow>
     sys_step B rng solo s Map.empty
       (s\<lparr>sys_db := (sys_db s)\<lparr>ssTable := st'\<rparr>, sys_world := w',
          comps := (comps s)[i := Swapped fs]\<rparr>)"
| end_compaction:
    "i < length (comps s) \<Longrightarrow> comps s ! i = Swapped fs \<Longrightarrow>
     sys_step B rng solo s Map.empty
       (s\<lparr>sys_db := (sys_db s)\<lparr>ssTable := (ssTable (sys_db s))\<lparr>compacting := False\<rparr>\<rparr>,
          sys_world := remove_files fs (sys_world s), comps := drop_nth i (comps s)\<rparr>)"

inductive sys_run ::
    "'t btree \<Rightarrow> map_range \<Rightarrow> bool \<Rightarrow> 't sys \<Rightarrow> (string \<rightharpoonup> string) \<Rightarrow> 't sys \<Rightarrow> bool"
  for B :: "'t btree" and rng :: map_range and solo :: bool and s0 :: "'t sys" where
  start: "sys_run B rng solo s0 Map.empty s0"
| step: "sys_run B rng solo s0 m s \<Longrightarrow> sys_step B rng solo s writes s' \<Longrightarrow>
    sys_run B rng solo s0 (m ++ writes) s'"

lemma sys_run_silent:
  "sys_run B rng solo s0 m s \<Longrightarrow> sys_step B rng solo s Map.empty s' \<Longrightarrow> sys_run B rng solo s0 m s'"
  by (drule (1) sys_run.step) simp

text \<open>Nothing is under way.\<close>

definition idle :: "'t DB \<Rightarrow> world \<Rightarrow> 't sys" where
  "idle db w = \<lparr>sys_db = db, sys_world = w, writers = [], comps = []\<rparr>"

subsection \<open>The operations are runs of steps\<close>

lemma sys_run_one: "sys_step B rng solo s m s' \<Longrightarrow> sys_run B rng solo s m s'"
  using sys_run.step [OF sys_run.start] by fastforce

lemma flush_by_steps:
  assumes run: "sys_run B rng solo s0 m s" and s: "s = \<lparr>sys_db = db, sys_world = w, writers = [(who, Full)], comps = cs\<rparr>"
    and flush: "createSsTableAndClearWalAndMemTable B db w = (Inr (), db', w')"
  shows "sys_run B rng solo s0 m \<lparr>sys_db = db', sys_world = w', writers = [(who, Done)], comps = cs\<rparr>"
proof -
  obtain f st1 w1 where new: "NewFile (ssTable db) w = (Inr f, st1, w1)"
    using flush
    by (auto simp: createSsTableAndClearWalAndMemTable_def flushMemtableToSsTable_def split: prod.splits sum.splits)
  obtain st2 w2 where wr: "SsTable_Write f (Iterate B (memTable db)) st1 w1 = (Inr (), st2, w2)"
    using flush new
    by (auto simp: createSsTableAndClearWalAndMemTable_def flushMemtableToSsTable_def split: prod.splits sum.splits)
  obtain wl w3 where clr: "Wal_Clear (wal db) w2 = (wl, w3)"
    by fastforce
  define n where "n = (if ShouldRunCompaction st2 then goroutines db + 1 else goroutines db)"
  have final: "db' = db\<lparr>ssTable := st2, goroutines := n, memTable := Memtable_Clear B (memTable db), wal := wl\<rparr>"
    "w' = w3"
    using flush new wr clr
    by (auto simp: createSsTableAndClearWalAndMemTable_def flushMemtableToSsTable_def n_def split: prod.splits)
  note r1 = sys_run_silent [OF run, OF sys_step.create_file [of 0 _ who f st1 w1]]
  note r2 = sys_run_silent [OF r1, OF _ _ _ sys_step.write_table [of 0 _ who f _ st2 w2]]
  note r3 = sys_run_silent [OF r2, OF _ _ _ _ _ _ sys_step.check_compaction [of 0 _ who n]]
  note r4 = sys_run_silent [OF r3, OF _ _ _ _ _ _ _ _ _ sys_step.clear [of 0 _ who wl w3]]
  show ?thesis
    using r4 new wr clr by (simp add: s final n_def cong: if_cong)
qed

lemma apply_by_steps:
  assumes run: "sys_run B rng solo s0 m s"
    and s: "s = \<lparr>sys_db = db, sys_world = w, writers = [(who, Logged kvs)], comps = cs\<rparr>"
    and flush: "flush_if_full B (db\<lparr>memTable := puts B kvs (memTable db)\<rparr>) w = (Inr (), db', w')"
  shows "sys_run B rng solo s0 m \<lparr>sys_db = db', sys_world = w', writers = [(who, Done)], comps = cs\<rparr>"
proof -
  note r = sys_run_silent [OF run, OF sys_step.apply_writes [of 0 _ who kvs]]
  show ?thesis
  proof (cases "ShouldFlush (puts B kvs (memTable db))")
    case True
    have "sys_run B rng solo s0 m \<lparr>sys_db = db\<lparr>memTable := puts B kvs (memTable db)\<rparr>, sys_world = w,
        writers = [(who, Full)], comps = cs\<rparr>"
      using r [OF _ _ refl] True by (simp add: s)
    then show ?thesis
      by (rule flush_by_steps [OF _ refl]) (use flush True in \<open>simp add: flush_if_full_def\<close>)
  next
    case False
    then show ?thesis
      using r [OF _ _ refl] flush by (auto simp: s flush_if_full_def)
  qed
qed

lemma put_beside_compactions:
  assumes "key \<noteq> ''''" and "length key + length val \<le> 999985"
    and put: "DB_Put B key val db w = (Inr (), db', w')"
  shows "sys_run B rng solo ((idle db w)\<lparr>comps := cs\<rparr>) [key \<mapsto> val] ((idle db' w')\<lparr>comps := cs\<rparr>)"
proof -
  obtain db1 w1 where log: "writeToWal key val db w = (Inr (), db1, w1)"
    using put by (auto simp: DB_Put_def split: prod.splits sum.splits)
  have flush: "flush_if_full B (db1\<lparr>memTable := puts B [(key, val)] (memTable db1)\<rparr>) w1 = (Inr (), db', w')"
    using put log by (auto simp: DB_Put_def flush_if_full_def split: prod.splits sum.splits if_splits)
  have "sys_run B rng solo ((idle db w)\<lparr>comps := cs\<rparr>) [key \<mapsto> val]
      \<lparr>sys_db = db1, sys_world = w1, writers = [(None, Logged [(key, val)])], comps = cs\<rparr>"
    using sys_run_one [OF sys_step.log_put [of solo "(idle db w)\<lparr>comps := cs\<rparr>" key val db1 w1 B rng]]
      assms(1,2) log
    by (simp add: idle_def)
  note r = apply_by_steps [OF this refl flush]
  show ?thesis
    using sys_run_silent [OF r, OF sys_step.finish_put [of 0]] by (simp add: idle_def drop_nth_def)
qed

lemma put_by_steps:
  assumes "key \<noteq> ''''" and "length key + length val \<le> 999985"
    and "DB_Put B key val db w = (Inr (), db', w')"
  shows "sys_run B rng solo (idle db w) [key \<mapsto> val] (idle db' w')"
  using put_beside_compactions [OF assms, of rng solo "[]"] by (simp add: idle_def)

lemma commit_by_steps:
  assumes "range_order ord1 (bufferedWriteMap txn)" and "range_order ord2 (bufferedWriteMap txn)"
    and "bufferedWriteMap txn '''' = None"
    and "length (serialiseTransactionCommitPayload ord1 (bufferedWriteMap txn)) \<le> 1000000"
    and commit: "Commit B ord1 ord2 txn db w = (Inr (), txn', db', w')"
  shows "sys_run B rng solo (idle db w) (bufferedWriteMap txn) (idle db' w')"
proof -
  let ?kvs = "range_pairs ord2 (bufferedWriteMap txn)"
  obtain db1 w1 where log: "writeSingleWalEntryForCommit ord1 txn db w = (Inr (), db1, w1)"
    using commit by (auto simp: Commit_def split: prod.splits sum.splits)
  obtain db2 w2 where flush: "flush_if_full B (db1\<lparr>memTable := puts B ?kvs (memTable db1)\<rparr>) w1 = (Inr (), db2, w2)"
    and fin: "finish_commit txn db2 w2 = (Inr (), txn', db', w')"
    using commit log
    by (auto simp: Commit_def flush_if_full_def Let_def split: prod.splits sum.splits if_splits)
  have "sys_run B rng solo (idle db w) (bufferedWriteMap txn)
      \<lparr>sys_db = db1, sys_world = w1, writers = [(Some txn, Logged ?kvs)], comps = []\<rparr>"
    using sys_run_one [OF sys_step.log_commit [of solo "idle db w" ord1 txn ord2 db1 w1 B rng]] assms(1-4) log
    by (simp add: idle_def)
  note r = apply_by_steps [OF this refl flush]
  show ?thesis
    using sys_run_silent [OF r, OF sys_step.finish_txn [of 0 _ txn txn' db' w']] fin
    by (simp add: idle_def drop_nth_def)
qed

lemma compaction_by_steps:
  assumes "goroutines db > 0" and build: "compaction_build rng (firstLevelFiles (ssTable db)) w = Inr kvs"
    and "fits32 (length (file_bytes (blockLength (ssTable db)) kvs))"
    and run: "RunCompaction rng (ssTable db) w = (Inr (), st', w')"
  shows "sys_run B rng solo (idle db w) Map.empty
    (idle (db\<lparr>ssTable := st', goroutines := goroutines db - 1\<rparr>) w')"
proof -
  let ?fs = "firstLevelFiles (ssTable db)"
  let ?st1 = "(ssTable db)\<lparr>compacting := True\<rparr>"
  obtain c off ib st2 w2 where wr: "compaction_write kvs ?st1 w = (Inr (c, off, ib), st2, w2)"
    using run build by (auto simp: RunCompaction_def compaction_begin_def split: prod.splits sum.splits)
  obtain st3 w3 where swap: "atomicSwap c ?fs ib off st2 w2 = (st3, w3)"
    by fastforce
  have final: "st' = st3\<lparr>compacting := False\<rparr>" "w' = remove_files ?fs w3"
    using run build wr swap by (auto simp: RunCompaction_def compaction_begin_def)
  note r1 = sys_run_one [OF sys_step.begin_compaction [of solo "idle db w" ?st1 ?fs B rng]]
  note r2 = sys_run_silent [OF r1, OF _ _ _ sys_step.build_compaction [of 0 _ ?fs _ kvs]]
  note r3 = sys_run_silent [OF r2, OF _ _ _ _ _ _ sys_step.write_compaction [of 0 _ ?fs kvs c off ib st2 w2]]
  note r4 = sys_run_silent [OF r3, OF _ _ _ _ _ _ _ _ _ _ sys_step.swap_compaction [of 0 _ ?fs c off ib st3 w3]]
  note r5 = sys_run_silent [OF r4, OF _ _ _ _ _ _ _ _ _ _ _ _ _ sys_step.end_compaction [of 0 _ ?fs]]
  show ?thesis
    using r5 assms wr swap by (cases db) (simp add: idle_def compaction_begin_def final drop_nth_def)
qed

subsection \<open>The invariant of a solo run\<close>

text \<open>The flush and the compaction that are under way, as a state of \<open>Lsm_Steps\<close>.\<close>

definition lsm_of :: "'t sys \<Rightarrow> lsm" where
  "lsm_of s = \<lparr>lsm_st = ssTable (sys_db s), lsm_world = sys_world s,
     flushing = (case writers s of [] \<Rightarrow> None
       | (_, ph) # _ \<Rightarrow> (case ph of Created f \<Rightarrow> Some f | _ \<Rightarrow> None)),
     compaction = (case comps s of [] \<Rightarrow> Idle | ph # _ \<Rightarrow> ph)\<rparr>"

text \<open>What a writer has done to memtable \<open>m\<close>, log (with writes \<open>l\<close>) and tables.\<close>

definition writer_inv ::
    "'t btree \<Rightarrow> writer list \<Rightarrow> 't Memtable \<Rightarrow> (string \<rightharpoonup> string) \<Rightarrow> (string \<rightharpoonup> string) \<Rightarrow> bool" where
  "writer_inv B ws m l tables \<longleftrightarrow> (case ws of
     [] \<Rightarrow> mt_abs B m = l \<and> msize m < memtableSizeLimit
   | (_, ph) # _ \<Rightarrow> (case ph of
       Logged kvs \<Rightarrow> mt_abs B m ++ map_of (rev kvs) = l
         \<and> nonempty_keys (Iterate B (puts B kvs m)) \<and> msize (puts B kvs m) < 2000000
     | Full \<Rightarrow> mt_abs B m = l \<and> msize m < 2000000
     | Created f \<Rightarrow> mt_abs B m = l \<and> msize m < 2000000
     | Tabled \<Rightarrow> mt_abs B m = l \<and> l \<subseteq>\<^sub>m tables
     | Checked \<Rightarrow> mt_abs B m = l \<and> l \<subseteq>\<^sub>m tables
     | Done \<Rightarrow> mt_abs B m = l \<and> msize m < memtableSizeLimit))"

definition log_holds :: "world \<Rightarrow> string \<Rightarrow> wal_cmd list \<Rightarrow> bool" where
  "log_holds w path cs \<longleftrightarrow> files w path = Some (log_bytes cs) \<and> (\<forall>c \<in> set cs. cmd_fits c)"

definition sys_inv ::
    "'t btree \<Rightarrow> map_range \<Rightarrow> string \<Rightarrow> string \<Rightarrow> (string \<rightharpoonup> string) \<Rightarrow> 't sys \<Rightarrow> bool" where
  "sys_inv B rng path dir m s \<longleftrightarrow>
     length (writers s) \<le> 1 \<and> length (comps s) \<le> 1
     \<and> wal_path (wal (sys_db s)) = path \<and> dataFilesDirectory (ssTable (sys_db s)) = dir
     \<and> separate path dir
     \<and> mt_inv B (memTable (sys_db s)) \<and> nonempty_keys (Iterate B (memTable (sys_db s)))
     \<and> (\<exists>tabs cs. lsm_inv rng (lsm_of s) tabs \<and> log_holds (sys_world s) path cs
         \<and> sst_map tabs ++ map_of (rev (log_writes cs)) = m
         \<and> writer_inv B (writers s) (memTable (sys_db s)) (map_of (rev (log_writes cs))) (sst_map tabs))"

lemma sys_invE:
  assumes "sys_inv B rng path dir m s"
  obtains tabs cs where "length (writers s) \<le> 1" "length (comps s) \<le> 1"
    "wal_path (wal (sys_db s)) = path" "dataFilesDirectory (ssTable (sys_db s)) = dir"
    "separate path dir" "mt_inv B (memTable (sys_db s))" "nonempty_keys (Iterate B (memTable (sys_db s)))"
    "lsm_inv rng (lsm_of s) tabs" "log_holds (sys_world s) path cs"
    "sst_map tabs ++ map_of (rev (log_writes cs)) = m"
    "writer_inv B (writers s) (memTable (sys_db s)) (map_of (rev (log_writes cs))) (sst_map tabs)"
  using assms by (auto simp: sys_inv_def)

lemma sys_invI:
  assumes "lsm_inv rng (lsm_of s) tabs" and "log_holds (sys_world s) path cs"
    and "sst_map tabs ++ map_of (rev (log_writes cs)) = m"
    and "writer_inv B (writers s) (memTable (sys_db s)) (map_of (rev (log_writes cs))) (sst_map tabs)"
    and "length (writers s) \<le> 1" and "length (comps s) \<le> 1"
    and "wal_path (wal (sys_db s)) = path" and "dataFilesDirectory (ssTable (sys_db s)) = dir"
    and "separate path dir" and "mt_inv B (memTable (sys_db s))"
    and "nonempty_keys (Iterate B (memTable (sys_db s)))"
  shows "sys_inv B rng path dir m s"
  unfolding sys_inv_def by (intro conjI exI; (rule assms)?)

lemma idle_inv:
  assumes "db_inv B w db tabs"
  shows "sys_inv B rng (wal_path (wal db)) (dataFilesDirectory (ssTable db)) (db_map B db tabs) (idle db w)"
proof -
  note i = db_invD [OF assms]
  have "lsm_inv rng (lsm_of (idle db w)) tabs"
    using i(1,2) disk_invD(3) [OF i(1)]
    by (auto simp: lsm_inv_def lsm_of_def idle_def manifest_inv_def flush_inv_def comp_inv_def)
  then show ?thesis
    using i(3-7)
    by (auto simp: sys_inv_def idle_def logged_def log_holds_def writer_inv_def db_map_def
        intro!: exI [of _ tabs])
qed

text \<open>Only \<open>i = 0\<close> is possible.\<close>

lemma only_one:
  assumes "length xs \<le> 1" and "i < length xs" and "xs ! i = x"
  shows "i = 0" "xs = [x]"
  using assms by (cases xs; auto)+

text \<open>The log file is no concern of the tables.\<close>

lemma lsm_inv_other:
  assumes inv: "lsm_inv rng s tabs" and sep: "separate path (dataFilesDirectory (lsm_st s))"
    and s': "s' = s\<lparr>lsm_world := (lsm_world s)\<lparr>files := (files (lsm_world s))(path := c)\<rparr>\<rparr>"
  shows "lsm_inv rng s' tabs"
proof -
  note i = lsm_invD [OF inv]
  have un: "unlisted (lsm_st s) f \<Longrightarrow> f \<noteq> path" for f
    using sep by (auto simp: unlisted_def separate_def)
  have "flush_inv s'"
    using i(3) un by (auto simp: flush_inv_def s' split: option.splits)
  moreover have "comp_inv rng s' tabs"
    using i(4) un table_file_upd by (fastforce simp: comp_inv_def s' split: phase.splits)
  moreover have "manifest_inv s'"
    using i(2) sep by (simp add: manifest_inv_def s' manifest_read_upd separate_def)
  ultimately show ?thesis
    using disk_inv_other [OF i(1) sep] by (simp add: lsm_inv_def s')
qed

lemma lsm_step_separate:
  assumes "lsm_step rng s kvs s'" and rng: "rng_ok rng" and inv: "lsm_inv rng s tabs"
    and sep: "separate path (dataFilesDirectory (lsm_st s))"
  shows "files (lsm_world s') path = files (lsm_world s) path"
    and "dataFilesDirectory (lsm_st s') = dataFilesDirectory (lsm_st s)"
proof -
  note i = lsm_invD [OF inv]
  have un: "unlisted (lsm_st s) f \<Longrightarrow> f \<noteq> path" for f
    using sep by (auto simp: unlisted_def separate_def)
  have "files (lsm_world s') path = files (lsm_world s) path
      \<and> dataFilesDirectory (lsm_st s') = dataFilesDirectory (lsm_st s)"
    using assms(1)
  proof cases
    case (flush_file f st' w')
    then show ?thesis
      using NewFile_calm(1) [OF i(1)] sep by (auto simp: separate_def)
  next
    case (flush_write f st' w')
    then have f: "unlisted (lsm_st s) f" "files (lsm_world s) f = Some []"
      using i(3) by (simp_all add: flush_inv_def)
    show ?thesis
      using flush_write SsTable_Write_calm(1) [OF i(1) flush_write(3) f] un [OF f(1)] sep
      by (auto simp: written_state_def written_world_def separate_def)
  next
    case (compact_write fs kvs' c off ib st' w')
    then show ?thesis
      using compaction_write_calm(1) [OF i(1) built_table_ok [OF inv rng compact_write(3,4)] refl refl refl] sep
      by (auto simp: separate_def)
  next
    case (compact_swap fs c off ib st' w')
    then show ?thesis
      using disk_invD(1) [OF i(1)] sep
      by (auto simp: atomicSwap_def Let_def saveManifest_calm separate_def)
  next
    case (compact_end fs)
    then have "path \<notin> set fs"
      using i(4) un by (auto simp: comp_inv_def)
    then show ?thesis
      using compact_end remove_files_calm [OF disk_invD(1) [OF i(1)], of fs] by simp
  qed (auto simp: compaction_begin_def)
  then show "files (lsm_world s') path = files (lsm_world s) path"
    and "dataFilesDirectory (lsm_st s') = dataFilesDirectory (lsm_st s)"
    by blast+
qed

lemma by_lsm_step:
  assumes "lsm_step rng (lsm_of s) kvs (lsm_of s')" and "rng_ok rng" and "lsm_inv rng (lsm_of s) tabs"
    and log: "log_holds (sys_world s) path cs"
    and sep: "separate path (dataFilesDirectory (ssTable (sys_db s)))"
  obtains tabs' where "lsm_inv rng (lsm_of s') tabs'" and "sst_map tabs' = sst_map tabs ++ map_of kvs"
    and "log_holds (sys_world s') path cs"
    and "dataFilesDirectory (ssTable (sys_db s')) = dataFilesDirectory (ssTable (sys_db s))"
proof -
  have sep': "separate path (dataFilesDirectory (lsm_st (lsm_of s)))"
    using sep by (simp add: lsm_of_def)
  note k = lsm_step_separate [OF assms(1-3) sep']
  obtain tabs' where "lsm_inv rng (lsm_of s') tabs'" "sst_map tabs' = sst_map tabs ++ map_of kvs"
    using lsm_step_inv [OF assms(1-3)] by blast
  then show ?thesis
    using k log by (intro that [of tabs']) (simp_all add: lsm_of_def log_holds_def)
qed

lemma writer_inv_same_tables:
  "writer_inv B ws m l t \<Longrightarrow> t' = t \<Longrightarrow> writer_inv B ws m l t'"
  by simp

context btree_contract
begin

lemma log_inv:
  assumes inv: "sys_inv B rng path dir m s" and alone: "writers s = []"
    and fits: "cmd_fits c" and ne: "nonempty_keys (cmd_writes c)"
    and same: "map_of (rev kvs) = map_of (rev (cmd_writes c))"
    and wr: "WriteEntry (wal (sys_db s)) (cmd_payload c) (sys_world s) = (r, wl, w')"
  shows "sys_inv B rng path dir (m ++ map_of (rev (cmd_writes c)))
    (s\<lparr>sys_db := (sys_db s)\<lparr>wal := wl\<rparr>, sys_world := w', writers := [(who, Logged kvs)]\<rparr>)"
  using inv
proof (rule sys_invE)
  fix tabs cs
  assume i: "length (writers s) \<le> 1" "length (comps s) \<le> 1"
    "wal_path (wal (sys_db s)) = path" "dataFilesDirectory (ssTable (sys_db s)) = dir"
    "separate path dir" "mt_inv B (memTable (sys_db s))" "nonempty_keys (Iterate B (memTable (sys_db s)))"
    "lsm_inv rng (lsm_of s) tabs" "log_holds (sys_world s) path cs"
    "sst_map tabs ++ map_of (rev (log_writes cs)) = m"
    "writer_inv B (writers s) (memTable (sys_db s)) (map_of (rev (log_writes cs))) (sst_map tabs)"
  let ?mt = "memTable (sys_db s)" and ?w = "sys_world s"
  let ?s' = "s\<lparr>sys_db := (sys_db s)\<lparr>wal := wl\<rparr>, sys_world := w', writers := [(who, Logged kvs)]\<rparr>"
  have calm: "calm ?w"
    using disk_invD(1) [OF lsm_invD(1) [OF i(8)]] by (simp add: lsm_of_def)
  have logfile: "files ?w (wal_path (wal (sys_db s))) = Some (log_bytes cs)"
    using i(3,9) by (simp add: log_holds_def)
  have wl: "wl = (wal (sys_db s))\<lparr>rpos := length (log_bytes cs) + length (wal_record (cmd_payload c))\<rparr>"
    and w': "w' = ?w\<lparr>files := (files ?w)(path \<mapsto> log_bytes cs @ wal_record (cmd_payload c))\<rparr>"
    using wr WriteEntry_calm [OF calm logfile, of "cmd_payload c"] i(3) by simp_all
  have m1: "mt_inv B (puts B kvs ?mt)" "mt_inv B (puts B (cmd_writes c) ?mt)"
    "mt_abs B (puts B kvs ?mt) = mt_abs B (puts B (cmd_writes c) ?mt)"
    using puts_all [OF i(6), of kvs] puts_all [OF i(6), of "cmd_writes c"] same by simp_all
  note b = puts_bounds [OF i(6,7) ne, folded mt_unique [OF m1]]
  have size: "mt_abs B ?mt = map_of (rev (log_writes cs))" "msize (puts B kvs ?mt) < 2000000"
    using i(11) alone b(2) cmd_writes_bytes [of c] fits
    by (simp_all add: writer_inv_def memtableSizeLimit_def cmd_fits_def)
  have "lsm_of ?s' = (lsm_of s)\<lparr>lsm_world := w'\<rparr>"
    using alone by (simp add: lsm_of_def)
  then have "lsm_inv rng (lsm_of ?s') tabs"
    using i(4,5) by (intro lsm_inv_other [OF i(8)]) (simp_all add: lsm_of_def w')
  moreover have "log_holds w' path (cs @ [c])"
    using i(9) fits by (simp add: log_holds_def w')
  moreover have "sst_map tabs ++ map_of (rev (log_writes (cs @ [c]))) = m ++ map_of (rev (cmd_writes c))"
    using i(10) by (simp add: map_add_assoc)
  moreover have "writer_inv B [(who, Logged kvs)] ?mt (map_of (rev (log_writes (cs @ [c])))) (sst_map tabs)"
    using size b(1) same by (simp add: writer_inv_def)
  ultimately show ?thesis
    using i(2-7) by (intro sys_invI [of rng _ tabs path "cs @ [c]"]) (simp_all add: wl)
qed

end

context btree_contract
begin

text \<open>The steps that change files of the tables are steps of \<open>Lsm_Steps\<close>.\<close>

lemma create_inv:
  assumes inv: "sys_inv B rng path dir m s" and rng: "rng_ok rng" and ws: "writers s = [(who, Full)]"
    and new: "NewFile (ssTable (sys_db s)) (sys_world s) = (Inr f, st', w')"
  shows "sys_inv B rng path dir m (s\<lparr>sys_db := (sys_db s)\<lparr>ssTable := st'\<rparr>, sys_world := w',
    writers := [(who, Created f)]\<rparr>)" (is "sys_inv _ _ _ _ _ ?s'")
  using inv
proof (rule sys_invE, goal_cases)
  case (1 tabs cs)
  note i = this
  have "lsm_of ?s' = (lsm_of s)\<lparr>lsm_st := st', lsm_world := w', flushing := Some f\<rparr>"
    by (simp add: lsm_of_def)
  then have "lsm_step rng (lsm_of s) [] (lsm_of ?s')"
    using lsm_step.flush_file [of "lsm_of s" f st' w' rng] new ws by (simp add: lsm_of_def)
  then obtain tabs' where t: "lsm_inv rng (lsm_of ?s') tabs'" "sst_map tabs' = sst_map tabs ++ map_of []"
    "log_holds (sys_world ?s') path cs"
    "dataFilesDirectory (ssTable (sys_db ?s')) = dataFilesDirectory (ssTable (sys_db s))"
    by (rule by_lsm_step [OF _ rng i(8,9)]) (use i in simp_all)
  show ?thesis
    using t i ws by (intro sys_invI [of rng _ tabs' path cs]) (simp_all add: writer_inv_def)
qed

lemma table_inv:
  assumes inv: "sys_inv B rng path dir m s" and rng: "rng_ok rng" and ws: "writers s = [(who, Created f)]"
    and wr: "SsTable_Write f (Iterate B (memTable (sys_db s))) (ssTable (sys_db s)) (sys_world s) = (Inr (), st', w')"
  shows "sys_inv B rng path dir m (s\<lparr>sys_db := (sys_db s)\<lparr>ssTable := st'\<rparr>, sys_world := w',
    writers := [(who, Tabled)]\<rparr>)" (is "sys_inv _ _ _ _ _ ?s'")
  using inv
proof (rule sys_invE, goal_cases)
  case (1 tabs cs)
  note i = this
  let ?kvs = "Iterate B (memTable (sys_db s))"
  have l: "mt_abs B (memTable (sys_db s)) = map_of (rev (log_writes cs))" "msize (memTable (sys_db s)) < 2000000"
    using i(11) ws by (simp_all add: writer_inv_def)
  have ok: "table_ok (blockLength (ssTable (sys_db s))) ?kvs"
    by (rule table_ok_flush [OF i(6,7) l(2)])
  have "lsm_of ?s' = (lsm_of s)\<lparr>lsm_st := st', lsm_world := w', flushing := None\<rparr>"
    by (simp add: lsm_of_def)
  then have "lsm_step rng (lsm_of s) ?kvs (lsm_of ?s')"
    using lsm_step.flush_write [of "lsm_of s" f ?kvs st' w' rng] wr ws ok by (simp add: lsm_of_def)
  then obtain tabs' where t: "lsm_inv rng (lsm_of ?s') tabs'" "sst_map tabs' = sst_map tabs ++ map_of ?kvs"
    "log_holds (sys_world ?s') path cs"
    "dataFilesDirectory (ssTable (sys_db ?s')) = dataFilesDirectory (ssTable (sys_db s))"
    by (rule by_lsm_step [OF _ rng i(8,9)]) (use i in simp_all)
  have "map_of ?kvs = map_of (rev (log_writes cs))"
    using l(1) by (simp add: mt_abs_def)
  then have m: "sst_map tabs' = m"
    using t(2) i(10) by simp
  have "m ++ map_of (rev (log_writes cs)) = m" "map_of (rev (log_writes cs)) \<subseteq>\<^sub>m m"
    by (auto simp: fun_eq_iff map_add_def map_le_def simp flip: i(10) split: option.split)
  with m show ?thesis
    using t i l(1) by (intro sys_invI [of rng _ tabs' path cs]) (simp_all add: writer_inv_def)
qed

lemma clear_inv:
  assumes inv: "sys_inv B rng path dir m s" and ws: "writers s = [(who, Checked)]"
    and clr: "Wal_Clear (wal (sys_db s)) (sys_world s) = (wl, w')"
  shows "sys_inv B rng path dir m (s\<lparr>sys_db := (sys_db s)\<lparr>memTable := Memtable_Clear B (memTable (sys_db s)), wal := wl\<rparr>,
      sys_world := w', writers := [(who, Done)]\<rparr>)" (is "sys_inv _ _ _ _ _ ?s'")
  using inv
proof (rule sys_invE, goal_cases)
  case (1 tabs cs)
  note i = this
  have calm: "calm (sys_world s)"
    using disk_invD(1) [OF lsm_invD(1) [OF i(8)]] by (simp add: lsm_of_def)
  have wl: "wl = (wal (sys_db s))\<lparr>rpos := 0\<rparr>" "w' = (sys_world s)\<lparr>files := (files (sys_world s))(path \<mapsto> [])\<rparr>"
    using clr Wal_Clear_calm [OF calm] i(3) by auto
  have "lsm_of ?s' = (lsm_of s)\<lparr>lsm_world := w'\<rparr>"
    using ws by (simp add: lsm_of_def)
  then have "lsm_inv rng (lsm_of ?s') tabs"
    using i(4,5) by (intro lsm_inv_other [OF i(8)]) (simp_all add: lsm_of_def wl)
  moreover have "map_of (rev (log_writes cs)) \<subseteq>\<^sub>m sst_map tabs"
    using i(11) ws by (simp add: writer_inv_def)
  then have "sst_map tabs = m"
    using i(10) by (simp add: map_add_subsumed2)
  moreover have "nonempty_keys (Iterate B (Memtable_Clear B (memTable (sys_db s))))"
    "msize (Memtable_Clear B (memTable (sys_db s))) < memtableSizeLimit"
    by (simp_all add: Iterate_def Memtable_Clear_def Clear_empty memtableSizeLimit_def)
  ultimately show ?thesis
    using i(2-5) by (intro sys_invI [of rng _ tabs path "[]"]) (simp_all add: writer_inv_def wl log_holds_def)
qed

text \<open>The steps that change only the database in memory.\<close>

lemma apply_inv:
  assumes inv: "sys_inv B rng path dir m s" and ws: "writers s = [(who, Logged kvs)]"
    and mt: "mt = puts B kvs (memTable (sys_db s))"
  shows "sys_inv B rng path dir m (s\<lparr>sys_db := (sys_db s)\<lparr>memTable := mt\<rparr>,
      writers := [(who, if ShouldFlush mt then Full else Done)]\<rparr>)" (is "sys_inv _ _ _ _ _ ?s'")
  using inv
proof (rule sys_invE, goal_cases)
  case (1 tabs cs)
  note i = this
  have "lsm_of ?s' = lsm_of s"
    using ws by (simp add: lsm_of_def)
  moreover have "mt_inv B mt" "mt_abs B mt = map_of (rev (log_writes cs))" "nonempty_keys (Iterate B mt)"
    "msize mt < 2000000"
    using i(11) ws puts_all [OF i(6), of kvs] by (simp_all add: writer_inv_def mt)
  ultimately show ?thesis
    using i by (intro sys_invI [of rng _ tabs path cs]) (simp_all add: writer_inv_def ShouldFlush_def)
qed

lemma quiet_step_inv:
  assumes inv: "sys_inv B rng path dir m s" and same: "lsm_of s' = lsm_of s" "comps s' = comps s"
    and db: "wal (sys_db s') = wal (sys_db s)" "memTable (sys_db s') = memTable (sys_db s)"
    and ws: "length (writers s') \<le> 1"
      "\<And>l t. writer_inv B (writers s) (memTable (sys_db s)) l t \<Longrightarrow>
        writer_inv B (writers s') (memTable (sys_db s)) l t"
  shows "sys_inv B rng path dir m s'"
  using inv
proof (rule sys_invE, goal_cases)
  case (1 tabs cs)
  have "sys_world s' = sys_world s" "ssTable (sys_db s') = ssTable (sys_db s)"
    using same(1) by (simp_all add: lsm_of_def)
  with 1 same db ws show ?thesis
    by (intro sys_invI [of rng _ tabs path cs]) simp_all
qed

end

lemma compaction_step_inv:
  assumes inv: "sys_inv B rng path dir m s" and rng: "rng_ok rng"
    and step: "lsm_step rng (lsm_of s) [] (lsm_of s')"
    and same: "wal (sys_db s') = wal (sys_db s)" "memTable (sys_db s') = memTable (sys_db s)"
      "writers s' = writers s" "length (comps s') \<le> 1"
  shows "sys_inv B rng path dir m s'"
  using inv
proof (rule sys_invE, goal_cases)
  case (1 tabs cs)
  note i = this
  obtain tabs' where t: "lsm_inv rng (lsm_of s') tabs'" "sst_map tabs' = sst_map tabs ++ map_of []"
    "log_holds (sys_world s') path cs"
    "dataFilesDirectory (ssTable (sys_db s')) = dataFilesDirectory (ssTable (sys_db s))"
    by (rule by_lsm_step [OF step rng i(8,9)]) (use i in simp_all)
  then show ?thesis
    using i same by (intro sys_invI [of rng _ tabs' path cs]) simp_all
qed

lemma begin_inv:
  assumes inv: "sys_inv B rng path dir m s" and "compaction_begin (ssTable (sys_db s)) = (st', fs)"
    and s': "s' = s\<lparr>sys_db := (sys_db s)\<lparr>ssTable := st', goroutines := n\<rparr>, comps := [Snapshot fs]\<rparr>"
  shows "sys_inv B rng path dir m s'"
  using inv
proof (rule sys_invE, goal_cases)
  case (1 tabs cs)
  note i = this
  have "lsm_of s' = (lsm_of s)\<lparr>lsm_st := st', compaction := Snapshot fs\<rparr>"
    by (simp add: lsm_of_def s')
  then have "lsm_inv rng (lsm_of s') tabs"
    using inv_compact_begin [OF i(8), of st' fs] assms(2) by (simp add: lsm_of_def)
  moreover have "dataFilesDirectory st' = dataFilesDirectory (ssTable (sys_db s))"
    using assms(2) by (auto simp: compaction_begin_def)
  ultimately show ?thesis
    using i by (intro sys_invI [of rng _ tabs path cs]) (simp_all add: s')
qed

context btree_contract
begin

lemma sys_step_inv:
  assumes step: "sys_step B rng True s writes s'" and rng: "rng_ok rng"
    and inv: "sys_inv B rng path dir m s"
  shows "sys_inv B rng path dir (m ++ writes) s'"
proof -
  have one: "length (writers s) \<le> 1" "length (comps s) \<le> 1"
    using inv by (simp_all add: sys_inv_def)
  note w1 = only_one [OF one(1)] and c1 = only_one [OF one(2)]
  show ?thesis
    using step
  proof cases
    case (log_put key val db' w')
    then obtain wl r where wr: "WriteEntry (wal (sys_db s)) (cmd_payload (Put_Cmd key val)) (sys_world s) = (r, wl, w')"
      and db': "db' = (sys_db s)\<lparr>wal := wl\<rparr>"
      by (auto simp: writeToWal_def serialisePutCommand_payload split: prod.splits)
    show ?thesis
      using log_inv [OF inv _ _ _ refl wr, of None] log_put
      by (simp add: db' cmd_fits_Put nonempty_keys_def)
  next
    case (log_commit ord1 txn ord2 db' w')
    note c = commit_record [OF log_commit(4,6,7)]
    obtain wl r where wr: "WriteEntry (wal (sys_db s)) (cmd_payload (Transaction_Cmd (txn_commands ord1 (bufferedWriteMap txn))))
        (sys_world s) = (r, wl, w')" and db': "db' = (sys_db s)\<lparr>wal := wl\<rparr>"
      using log_commit(8) by (auto simp: writeSingleWalEntryForCommit_def c(1) split: prod.splits)
    have same: "map_of (rev (range_pairs ord2 (bufferedWriteMap txn))) =
        map_of (rev (cmd_writes (Transaction_Cmd (txn_commands ord1 (bufferedWriteMap txn)))))"
      by (simp only: c(4) range_pairs_rev [OF log_commit(5)])
    show ?thesis
      using log_inv [OF inv _ c(2,3) same wr, of "Some txn"] log_commit(1-3)
      unfolding c(4) by (simp add: db')
  next
    case (apply_writes i who kvs mt)
    note i = w1 [OF apply_writes(3,4)]
    show ?thesis
      using apply_inv [OF inv i(2) apply_writes(5)] by (simp add: apply_writes(1,2) i)
  next
    case (create_file i who f st' w')
    note i = w1 [OF create_file(3,4)]
    show ?thesis
      using create_inv [OF inv rng i(2) create_file(5)] by (simp add: create_file(1,2) i)
  next
    case (write_table i who f st' w')
    note i = w1 [OF write_table(3,4)]
    show ?thesis
      using table_inv [OF inv rng i(2) write_table(5)] by (simp add: write_table(1,2) i)
  next
    case (check_compaction i who n)
    note i = w1 [OF check_compaction(3,4)]
    show ?thesis
      using quiet_step_inv [OF inv, of s']
      by (simp add: check_compaction(1,2) i lsm_of_def writer_inv_def)
  next
    case (clear i who wl w')
    note i = w1 [OF clear(3,4)]
    show ?thesis
      using clear_inv [OF inv i(2) clear(5)] by (simp add: clear(1,2) i)
  next
    case (finish_put i)
    note i = w1 [OF finish_put(3,4)]
    show ?thesis
      using quiet_step_inv [OF inv, of s']
      by (simp add: finish_put(1,2) i lsm_of_def writer_inv_def drop_nth_def)
  next
    case (finish_txn i txn txn' db' w')
    note i = w1 [OF finish_txn(3,4)]
    obtain tm' where "db' = (sys_db s)\<lparr>txnManager := tm'\<rparr>" "w' = sys_world s"
      using finish_txn(5) by (auto simp: finish_commit_def split: sum.splits)
    then show ?thesis
      using quiet_step_inv [OF inv, of s']
      by (simp add: finish_txn(1,2) i lsm_of_def writer_inv_def drop_nth_def)
  next
    case (begin_compaction st' fs)
    then show ?thesis
      using begin_inv [OF inv begin_compaction(5)] by simp
  next
    case (build_compaction i fs kvs)
    note i = c1 [OF build_compaction(3,4)]
    have "lsm_step rng (lsm_of s) [] (lsm_of s')"
      using lsm_step.compact_build [of "lsm_of s" fs rng kvs] build_compaction(5) i
      by (simp add: lsm_of_def build_compaction(2))
    then show ?thesis
      using compaction_step_inv [OF inv rng] by (simp add: build_compaction(1,2) i)
  next
    case (write_compaction i fs kvs c off ib st' w')
    note i = c1 [OF write_compaction(3,4)]
    have "lsm_step rng (lsm_of s) [] (lsm_of s')"
      using lsm_step.compact_write [of "lsm_of s" fs kvs c off ib st' w' rng] write_compaction(5,6) i
      by (simp add: lsm_of_def write_compaction(2))
    then show ?thesis
      using compaction_step_inv [OF inv rng] by (simp add: write_compaction(1,2) i)
  next
    case (swap_compaction i fs c off ib st' w')
    note i = c1 [OF swap_compaction(3,4)]
    have "lsm_step rng (lsm_of s) [] (lsm_of s')"
      using lsm_step.compact_swap [of "lsm_of s" fs c off ib st' w' rng] swap_compaction(5) i
      by (simp add: lsm_of_def swap_compaction(2))
    then show ?thesis
      using compaction_step_inv [OF inv rng] by (simp add: swap_compaction(1,2) i)
  next
    case (end_compaction i fs)
    note i = c1 [OF end_compaction(3,4)]
    have "lsm_step rng (lsm_of s) [] (lsm_of s')"
      using lsm_step.compact_end [of "lsm_of s" fs rng] i
      by (simp add: lsm_of_def end_compaction(2) drop_nth_def)
    then show ?thesis
      using compaction_step_inv [OF inv rng] by (simp add: end_compaction(1,2) i drop_nth_def)
  qed
qed

lemma sys_run_inv:
  assumes "sys_run B rng True s0 m s" and "rng_ok rng" and "sys_inv B rng path dir m0 s0"
  shows "sys_inv B rng path dir (m0 ++ m) s"
  using assms(1)
proof induction
  case start
  with assms(3) show ?case by simp
next
  case (step m s writes s')
  from sys_step_inv [OF step.hyps(2) assms(2) step.IH] show ?case
    by (simp add: map_add_assoc)
qed

end

subsection \<open>A crash after any step\<close>

lemma sys_inv_reopen:
  assumes B: "btree_contract B" and inv: "sys_inv B rng path dir m s" and ne: "path \<noteq> ''''" "dir \<noteq> ''''"
  obtains db' where "NewDB B \<lparr>SsTableConfig = \<lparr>DataFilesDirectory = dir, BlockLength = bl\<rparr>, WalFilePath = path\<rparr>
      (sys_world s) =
      (case getTableNameVsSchemaMap B db' (sys_world s) of
         Inl e \<Rightarrow> (Inl e, sys_world s)
       | Inr schemas \<Rightarrow> (Inr (db'\<lparr>tableNameVsSchemaMap := schemas\<rparr>), sys_world s))"
    and "\<And>p. \<exists>tableMap. SsTable_PrefixScan (ssTable db') p (sys_world s) = Inr tableMap
      \<and> tableMap ++ Memtable_PrefixScan B (memTable db') p = m |` {k. HasPrefix k p}"
proof -
  let ?w = "sys_world s"
  obtain tabs cs where i: "dataFilesDirectory (ssTable (sys_db s)) = dir" "lsm_inv rng (lsm_of s) tabs"
    "log_holds ?w path cs" "sst_map tabs ++ map_of (rev (log_writes cs)) = m"
    using inv by (rule sys_invE)
  have of: "lsm_world (lsm_of s) = ?w" "dataFilesDirectory (lsm_st (lsm_of s)) = dir"
    using i(1) by (simp_all add: lsm_of_def)
  have calm: "calm ?w"
    using disk_invD(1) [OF lsm_invD(1) [OF i(2)]] by (simp add: of)
  obtain st where st: "NewSsTable \<lparr>DataFilesDirectory = dir, BlockLength = bl\<rparr> ?w = (Inr st, ?w)"
    and scan: "\<And>p. SsTable_PrefixScan st p ?w = Inr (sst_map tabs |` {k. HasPrefix k p})"
    by (rule lsm_reopen [OF i(2), of bl]) (use ne in \<open>auto simp: of\<close>)
  let ?mt = "puts B (log_writes cs) (NewMemtable B)"
  have mt: "mt_inv B ?mt" "mt_abs B ?mt = map_of (rev (log_writes cs))"
    using btree_contract.puts_NewMemtable [OF B, of "log_writes cs"] by simp_all
  have "(sst_map tabs |` A) ++ (mt_abs B ?mt |` A) = m |` A" for A
    unfolding i(4) [symmetric] mt(2) by (auto simp: map_add_def restrict_map_def fun_eq_iff)
  then have scans: "SsTable_PrefixScan st p ?w = Inr (sst_map tabs |` {k. HasPrefix k p})
      \<and> (sst_map tabs |` {k. HasPrefix k p}) ++ Memtable_PrefixScan B ?mt p = m |` {k. HasPrefix k p}" for p
    by (simp add: scan btree_contract.PrefixScan_abs [OF B mt(1)])
  define db' where "db' = \<lparr>wal = \<lparr>wal_path = path, rpos = length (log_bytes cs)\<rparr>,
    memTable = ?mt, ssTable = st, tableNameVsSchemaMap = Map.empty,
    txnManager = \<lparr>nextTransactionId = 1, keyVsLocksAcquiredMap = Map.empty\<rparr>, goroutines = 0\<rparr>"
  have "ssTable db' = st" "memTable db' = ?mt"
    by (simp_all add: db'_def)
  then show ?thesis
    using that NewDB_open [OF calm ne(1) _ _ st db'_def] i(3) scans by (auto simp: log_holds_def)
qed

text \<open>C2: Whatever the interleaving of one writer at a time with one compaction at a time, a crash
  after any step loses nothing that is in the log: opening the database on the files as they are
  can fail only at the lookup of the catalog, and gives a memtable and tables whose scans see
  exactly the initial contents overridden by the logged writes, in their order. This includes the
  moments between the parts of a flush, where pairs are in a table and still in the log, and those
  between the parts of a compaction.\<close>

theorem db_crash_anywhere:
  assumes "btree_contract B" and "rng_ok rng" and "db_inv B w0 db0 tabs0"
    and "wal_path (wal db0) \<noteq> ''''" and "dataFilesDirectory (ssTable db0) \<noteq> ''''"
    and "sys_run B rng True (idle db0 w0) m s" and "w = sys_world s"
  shows "\<exists>db'. NewDB B (same_place db0 bl) w =
      (case getTableNameVsSchemaMap B db' w of
         Inl e \<Rightarrow> (Inl e, w) | Inr schemas \<Rightarrow> (Inr (db'\<lparr>tableNameVsSchemaMap := schemas\<rparr>), w))
    \<and> (\<forall>p. \<exists>tableMap. SsTable_PrefixScan (ssTable db') p w = Inr tableMap
        \<and> tableMap ++ Memtable_PrefixScan B (memTable db') p =
            (db_map B db0 tabs0 ++ m) |` {k. HasPrefix k p})"
  by (rule sys_inv_reopen [OF assms(1) btree_contract.sys_run_inv [OF assms(1,6,2) idle_inv [OF assms(3)]]
        assms(4,5), of bl]) (unfold assms(7), blast)

theorem db_crash_anywhere_witness:
  "\<exists>s db' tableMap.
    sys_run list_btree ordered_range True (idle (db_on list_btree ''w'' ''d'' []) (world_on ''w'' ''d'' []))
      [''z'' \<mapsto> big] s
    \<and> writers s = [(None, Full)]
    \<and> NewDB list_btree (same_place (db_on list_btree ''w'' ''d'' []) 100) (sys_world s) =
      (case getTableNameVsSchemaMap list_btree db' (sys_world s) of
         Inl e \<Rightarrow> (Inl e, sys_world s)
       | Inr schemas \<Rightarrow> (Inr (db'\<lparr>tableNameVsSchemaMap := schemas\<rparr>), sys_world s))
    \<and> SsTable_PrefixScan (ssTable db') ''z'' (sys_world s) = Inr tableMap
    \<and> (tableMap ++ Memtable_PrefixScan list_btree (memTable db') ''z'') ''z'' = Some big"
proof -
  let ?db = "db_on list_btree ''w'' ''d'' []" and ?w = "world_on ''w'' ''d'' []"
  have inv: "db_inv list_btree ?w ?db []"
    by (rule list_db_inv(1)) simp
  obtain cs where log: "files ?w (wal_path (wal ?db)) = Some (log_bytes cs)"
    using db_invD(6) [OF inv] by (auto simp: logged_def)
  obtain wl w1 where wr: "writeToWal ''z'' big ?db ?w = (Inr (), ?db\<lparr>wal := wl\<rparr>, w1)"
    using WriteEntry_calm [OF disk_invD(1) [OF db_invD(1) [OF inv]] log] by (simp add: writeToWal_def)
  let ?s1 = "(idle ?db ?w)\<lparr>sys_db := ?db\<lparr>wal := wl\<rparr>, sys_world := w1,
    writers := [(None, Logged [(''z'', big)])]\<rparr>"
  have r1: "sys_run list_btree ordered_range True (idle ?db ?w) [''z'' \<mapsto> big] ?s1"
    using sys_run_one [OF sys_step.log_put [of True "idle ?db ?w" "''z''" big "?db\<lparr>wal := wl\<rparr>" w1]] wr
    by (simp add: idle_def)
  have "ShouldFlush (puts list_btree [(''z'', big)] (memTable ?db))"
    by (simp add: db_on_def ShouldFlush_def NewMemtable_def Memtable_Put_def list_btree_def memtableSizeLimit_def)
  then obtain s where r: "sys_run list_btree ordered_range True (idle ?db ?w) [''z'' \<mapsto> big] s"
    and s: "writers s = [(None, Full)]"
    using sys_run_silent [OF r1, OF sys_step.apply_writes [of 0 ?s1 None "[(''z'', big)]"]] by simp
  have "wal_path (wal ?db) \<noteq> ''''" "dataFilesDirectory (ssTable ?db) \<noteq> ''''"
    by simp_all
  from db_crash_anywhere [OF list_tree.btree_contract_axioms rng_ok_ordered_range inv this r refl, of 100]
  obtain db' where db': "NewDB list_btree (same_place ?db 100) (sys_world s) =
      (case getTableNameVsSchemaMap list_btree db' (sys_world s) of
         Inl e \<Rightarrow> (Inl e, sys_world s)
       | Inr schemas \<Rightarrow> (Inr (db'\<lparr>tableNameVsSchemaMap := schemas\<rparr>), sys_world s))"
    and scans: "\<And>p. \<exists>tableMap. SsTable_PrefixScan (ssTable db') p (sys_world s) = Inr tableMap
      \<and> tableMap ++ Memtable_PrefixScan list_btree (memTable db') p =
        (db_map list_btree ?db [] ++ [''z'' \<mapsto> big]) |` {k. HasPrefix k p}"
    by blast
  obtain tm where tm: "SsTable_PrefixScan (ssTable db') ''z'' (sys_world s) = Inr tm"
    "tm ++ Memtable_PrefixScan list_btree (memTable db') ''z'' =
      (db_map list_btree ?db [] ++ [''z'' \<mapsto> big]) |` {k. HasPrefix k ''z''}"
    using scans [of "''z''"] by blast
  have "(tm ++ Memtable_PrefixScan list_btree (memTable db') ''z'') ''z'' = Some big"
    unfolding tm(2) by (simp add: restrict_map_def)
  with r s db' tm(1) show ?thesis
    by (intro exI conjI)
qed

end
