(* ===== verification/Db_Races.thy ===== *)
theory Db_Races
  imports Db_Steps
begin

text \<open>
  What the missing exclusion of \<^verbatim>\<open>db/transaction.go\<close> and \<^verbatim>\<open>sstable/compaction.go\<close> costs: runs
  of \<open>Db_Steps\<close> in which a commit runs beside the flush of a put, and in which two compactions
  run at the same time. Both lose writes that were reported as done.
\<close>

lemma sys_step_mono: "sys_step B rng True s m s' \<Longrightarrow> sys_step B rng False s m s'"
  by (erule sys_step.cases; hypsubst; rule sys_step.intros; (assumption | simp)?)

lemma sys_run_mono: "sys_run B rng True s0 m s \<Longrightarrow> sys_run B rng False s0 m s"
  by (induction rule: sys_run.induct) (auto intro: sys_run.intros sys_step_mono)

lemma sys_run_trans:
  "sys_run B rng solo s1 m2 s2 \<Longrightarrow> sys_run B rng solo s0 m1 s1 \<Longrightarrow> sys_run B rng solo s0 (m1 ++ m2) s2"
proof (induction rule: sys_run.induct)
  case start
  then show ?case by simp
next
  case (step m s writes s')
  then show ?case
    using sys_run.step [of B rng solo s0 "m1 ++ m" s writes s'] by simp
qed

context btree_contract
begin

text \<open>A flush goes on to its end when nothing interferes.\<close>

lemma flush_progress:
  assumes inv: "sys_inv B rng path dir m s" and rng: "rng_ok rng" and ws: "writers s = [(who, Full)]"
  obtains s' where "sys_run B rng True s Map.empty s'" and "sys_inv B rng path dir m s'"
    and "writers s' = [(who, Checked)]" and "comps s' = comps s" and "wal (sys_db s') = wal (sys_db s)"
    and "txnManager (sys_db s') = txnManager (sys_db s)"
proof -
  obtain tabs where lsm: "lsm_inv rng (lsm_of s) tabs"
    using inv by (rule sys_invE)
  obtain f st1 w1 where new: "NewFile (ssTable (sys_db s)) (sys_world s) = (Inr f, st1, w1)"
    using NewFile_calm(1) [OF lsm_invD(1) [OF lsm]] by (simp add: lsm_of_def)
  let ?s1 = "s\<lparr>sys_db := (sys_db s)\<lparr>ssTable := st1\<rparr>, sys_world := w1, writers := [(who, Created f)]\<rparr>"
  have r1: "sys_run B rng True s Map.empty ?s1"
    using sys_run_one [OF sys_step.create_file [of 0 s who f st1 w1 B rng True]] ws new by simp
  have inv1: "sys_inv B rng path dir m ?s1"
    by (rule create_inv [OF inv rng ws new])
  obtain tabs1 cs1 where i1: "lsm_inv rng (lsm_of ?s1) tabs1"
    "writer_inv B (writers ?s1) (memTable (sys_db ?s1)) (map_of (rev (log_writes cs1))) (sst_map tabs1)"
    "mt_inv B (memTable (sys_db ?s1))" "nonempty_keys (Iterate B (memTable (sys_db ?s1)))"
    using inv1 by (rule sys_invE)
  have size: "msize (memTable (sys_db ?s1)) < 2000000"
    using i1(2) by (simp add: writer_inv_def)
  have f: "unlisted (lsm_st (lsm_of ?s1)) f" "files (lsm_world (lsm_of ?s1)) f = Some []"
    using lsm_invD(3) [OF i1(1)] by (simp_all add: flush_inv_def lsm_of_def)
  obtain st2 w2 where wr: "SsTable_Write f (Iterate B (memTable (sys_db ?s1))) (ssTable (sys_db ?s1)) (sys_world ?s1)
      = (Inr (), st2, w2)"
    using SsTable_Write_calm(1) [OF lsm_invD(1) [OF i1(1)] table_ok_flush [OF i1(3,4) size] f]
    by (simp add: lsm_of_def)
  let ?s2 = "?s1\<lparr>sys_db := (sys_db ?s1)\<lparr>ssTable := st2\<rparr>, sys_world := w2, writers := [(who, Tabled)]\<rparr>"
  have r2: "sys_run B rng True s Map.empty ?s2"
    using sys_run_silent [OF r1 sys_step.write_table [of 0 ?s1 who f B st2 w2]] wr by simp
  have inv2: "sys_inv B rng path dir m ?s2"
    by (rule table_inv [OF inv1 rng _ wr]) simp
  let ?n = "if ShouldRunCompaction st2 then goroutines (sys_db s) + 1 else goroutines (sys_db s)"
  let ?s3 = "?s2\<lparr>sys_db := (sys_db ?s2)\<lparr>goroutines := ?n\<rparr>, writers := [(who, Checked)]\<rparr>"
  have st3: "sys_step B rng True ?s2 Map.empty ?s3"
    using sys_step.check_compaction [of 0 ?s2 who ?n B rng True] by (simp cong: if_cong)
  have "sys_inv B rng path dir (m ++ Map.empty) ?s3"
    by (rule sys_step_inv [OF st3 rng inv2])
  then show ?thesis
    using sys_run_silent [OF r2 st3] by (intro that [of ?s3]) simp_all
qed

text \<open>A put up to the point where its memtable is full.\<close>

lemma put_until_full_calm:
  assumes rng: "rng_ok rng" and inv: "db_inv B w0 db0 tabs0"
    and key: "key \<noteq> ''''" "length key + length val \<le> 999985"
    and full: "ShouldFlush (Memtable_Put B key val (memTable db0))"
  obtains s where "sys_run B rng True (idle db0 w0) [key \<mapsto> val] s"
    and "sys_inv B rng (wal_path (wal db0)) (dataFilesDirectory (ssTable db0)) ((db_map B db0 tabs0)(key \<mapsto> val)) s"
    and "writers s = [(None, Full)]" and "comps s = []" and "txnManager (sys_db s) = txnManager db0"
proof -
  note i = db_invD [OF inv]
  obtain cs where log: "files w0 (wal_path (wal db0)) = Some (log_bytes cs)"
    using i(6) by (auto simp: logged_def)
  obtain wl w1 where wr: "writeToWal key val db0 w0 = (Inr (), db0\<lparr>wal := wl\<rparr>, w1)"
    using WriteEntry_calm [OF disk_invD(1) [OF i(1)] log] by (simp add: writeToWal_def)
  let ?s1 = "(idle db0 w0)\<lparr>sys_db := db0\<lparr>wal := wl\<rparr>, sys_world := w1,
    writers := [(None, Logged [(key, val)])]\<rparr>"
  have st1: "sys_step B rng True (idle db0 w0) [key \<mapsto> val] ?s1"
    using sys_step.log_put [of True "idle db0 w0" key val "db0\<lparr>wal := wl\<rparr>" w1] wr key by (simp add: idle_def)
  let ?s2 = "?s1\<lparr>sys_db := (sys_db ?s1)\<lparr>memTable := Memtable_Put B key val (memTable db0)\<rparr>,
    writers := [(None, Full)]\<rparr>"
  have st2: "sys_step B rng True ?s1 Map.empty ?s2"
    using sys_step.apply_writes [of 0 ?s1 None "[(key, val)]" "Memtable_Put B key val (memTable db0)" B rng True] full by simp
  have run: "sys_run B rng True (idle db0 w0) [key \<mapsto> val] ?s2"
    by (rule sys_run_silent [OF sys_run_one [OF st1] st2])
  show ?thesis
    using sys_run_inv [OF run rng idle_inv [OF inv]] by (intro that [OF run]) (simp_all add: idle_def)
qed

text \<open>The commit of a transaction logs its record while the put is about to clear the log.\<close>

lemma commit_into_flush:
  assumes rng: "rng_ok rng" and run: "sys_run B rng True s0 m s"
    and inv: "sys_inv B rng path dir m1 s" and ws: "writers s = [(None, Checked)]"
    and ord: "range_order ord1 (bufferedWriteMap txn)" "range_order ord2 (bufferedWriteMap txn)"
    and ne: "bufferedWriteMap txn '''' = None"
    and fits: "length (serialiseTransactionCommitPayload ord1 (bufferedWriteMap txn)) \<le> 1000000"
    and small: "entry_bytes (range_pairs ord2 (bufferedWriteMap txn)) < 1000"
    and locks: "releaseAllLocks txn (txnManager (sys_db s)) = Inr (txn', tm')"
  obtains s' s1 where "sys_run B rng False s0 (m ++ bufferedWriteMap txn) s'"
    and "writers s' = []" and "comps s' = comps s"
    and "mt_abs B (memTable (sys_db s')) = bufferedWriteMap txn"
    and "sys_inv B rng path dir m1 s1" and "sys_world s' = sys_world s1"
proof -
  let ?buf = "bufferedWriteMap txn" and ?db = "sys_db s" and ?w = "sys_world s"
  let ?kvs = "range_pairs ord2 ?buf"
  obtain tabs cs where i: "wal_path (wal ?db) = path" "lsm_inv rng (lsm_of s) tabs" "log_holds ?w path cs"
    using inv by (rule sys_invE)
  have calm: "calm ?w"
    using disk_invD(1) [OF lsm_invD(1) [OF i(2)]] by (simp add: lsm_of_def)
  have logfile: "files ?w (wal_path (wal ?db)) = Some (log_bytes cs)"
    using i(1,3) by (simp add: log_holds_def)
  obtain wl w1 where log: "writeSingleWalEntryForCommit ord1 txn ?db ?w = (Inr (), ?db\<lparr>wal := wl\<rparr>, w1)"
    and w1: "w1 = ?w\<lparr>files := (files ?w)(path \<mapsto> log_bytes cs @
        wal_record (serialiseTransactionCommitPayload ord1 ?buf))\<rparr>" "wal_path wl = path"
    using WriteEntry_calm [OF calm logfile] i(1) by (simp add: writeSingleWalEntryForCommit_def)
  let ?s1 = "s\<lparr>sys_db := ?db\<lparr>wal := wl\<rparr>, sys_world := w1, writers := [(None, Checked), (Some txn, Logged ?kvs)]\<rparr>"
  have r1: "sys_run B rng False s0 (m ++ ?buf) ?s1"
    using sys_run.step [OF sys_run_mono [OF run] sys_step.log_commit [of False s ord1 txn ord2 "?db\<lparr>wal := wl\<rparr>" w1]]
      ord ne fits log ws by simp
  let ?wl = "(wal ?db)\<lparr>rpos := 0\<rparr>" and ?w2 = "?w\<lparr>files := (files ?w)(path \<mapsto> [])\<rparr>"
  let ?clear = "Memtable_Clear B (memTable ?db)"
  have clr: "Wal_Clear wl w1 = (?wl, ?w2)" "Wal_Clear (wal ?db) ?w = (?wl, ?w2)"
    using calm i(1) by (simp_all add: Wal_Clear_calm w1)
  let ?t = "s\<lparr>sys_db := ?db\<lparr>memTable := ?clear, wal := ?wl\<rparr>, sys_world := ?w2, writers := [(None, Done)]\<rparr>"
  have solo: "sys_inv B rng path dir m1 ?t"
    by (rule clear_inv [OF inv ws clr(2)])
  let ?s2 = "?t\<lparr>writers := [(None, Done), (Some txn, Logged ?kvs)]\<rparr>"
  have r2: "sys_run B rng False s0 (m ++ ?buf) ?s2"
    using sys_run_silent [OF r1 sys_step.clear [of 0 ?s1 None ?wl ?w2]] clr(1) by simp
  let ?s3 = "?t\<lparr>writers := [(Some txn, Logged ?kvs)]\<rparr>"
  have r3: "sys_run B rng False s0 (m ++ ?buf) ?s3"
    using sys_run_silent [OF r2 sys_step.finish_put [of 0 ?s2]] by (simp add: drop_nth_def)
  let ?mt = "puts B ?kvs ?clear"
  have "nonempty_keys ?kvs"
    using ord(2) ne by (auto simp: nonempty_keys_def range_pairs_def range_order_def)
  moreover have "nonempty_keys (Iterate B ?clear)"
    by (simp add: Iterate_def Memtable_Clear_def Clear_empty nonempty_keys_def)
  ultimately have "msize ?mt \<le> msize ?clear + int (entry_bytes ?kvs)"
    by (intro puts_bounds(2)) simp_all
  then have no_flush: "\<not> ShouldFlush ?mt"
    using small by (simp add: ShouldFlush_def memtableSizeLimit_def Memtable_Clear_def)
  let ?s4 = "?t\<lparr>sys_db := ?db\<lparr>wal := ?wl, memTable := ?mt\<rparr>, writers := [(Some txn, Done)]\<rparr>"
  have r4: "sys_run B rng False s0 (m ++ ?buf) ?s4"
    using sys_run_silent [OF r3 sys_step.apply_writes [of 0 ?s3 "Some txn" ?kvs ?mt]] no_flush by simp
  have "finish_commit txn (sys_db ?s4) (sys_world ?s4) =
      (Inr (), cleanupBufferedWriteMap txn', (sys_db ?s4)\<lparr>txnManager := tm'\<rparr>, sys_world ?s4)"
    using locks by (simp add: finish_commit_def)
  then have fin: "0 < length (writers ?s4)" "writers ?s4 ! 0 = (Some txn, Done)"
      "finish_commit txn (sys_db ?s4) (sys_world ?s4) =
        (Inr (), cleanupBufferedWriteMap txn', (sys_db ?s4)\<lparr>txnManager := tm'\<rparr>, sys_world ?s4)"
    by simp_all
  note r5 = sys_run_silent [OF r4 sys_step.finish_txn [OF fin]]
  have "mt_abs B ?mt = ?buf"
    using puts_all [of ?clear ?kvs] range_pairs_rev [OF ord(2)] by simp
  then show ?thesis
    using solo by (intro that [OF r5, of ?t]) (simp_all add: drop_nth_def)
qed

end

text \<open>C11: A commit beside the flush of a put is lost. The commit reports success and its writes
  are seen in memory, but the put clears the log after the commit has written its record there, so
  after a stop or a crash the database opens without any of them.\<close>

theorem commit_beside_flush_lost:
  fixes txn :: Transaction
  assumes "btree_contract B" and "rng_ok rng" and "db_inv B w0 db0 tabs0"
    and "wal_path (wal db0) \<noteq> ''''" and "dataFilesDirectory (ssTable db0) \<noteq> ''''"
    and "key \<noteq> ''''" and "length key + length val \<le> 999985"
    and "ShouldFlush (Memtable_Put B key val (memTable db0))"
    and "range_order ord1 (bufferedWriteMap txn)" and "range_order ord2 (bufferedWriteMap txn)"
    and "bufferedWriteMap txn '''' = None"
    and "length (serialiseTransactionCommitPayload ord1 (bufferedWriteMap txn)) \<le> 1000000"
    and "entry_bytes (range_pairs ord2 (bufferedWriteMap txn)) < 1000"
    and "\<forall>k \<in> set (lockAcquiredKeys txn). keyVsLocksAcquiredMap (txnManager db0) k \<noteq> None"
  shows "\<exists>s db'. sys_run B rng False (idle db0 w0) ([key \<mapsto> val] ++ bufferedWriteMap txn) s
    \<and> writers s = [] \<and> mt_abs B (memTable (sys_db s)) = bufferedWriteMap txn
    \<and> NewDB B (same_place db0 bl) (sys_world s) =
      (case getTableNameVsSchemaMap B db' (sys_world s) of
         Inl e \<Rightarrow> (Inl e, sys_world s)
       | Inr schemas \<Rightarrow> (Inr (db'\<lparr>tableNameVsSchemaMap := schemas\<rparr>), sys_world s))
    \<and> (\<forall>p. \<exists>tableMap. SsTable_PrefixScan (ssTable db') p (sys_world s) = Inr tableMap
        \<and> tableMap ++ Memtable_PrefixScan B (memTable db') p =
            (db_map B db0 tabs0)(key \<mapsto> val) |` {k. HasPrefix k p})"
proof -
  let ?path = "wal_path (wal db0)" and ?dir = "dataFilesDirectory (ssTable db0)"
  let ?m = "(db_map B db0 tabs0)(key \<mapsto> val)"
  obtain s where s: "sys_run B rng True (idle db0 w0) [key \<mapsto> val] s" "sys_inv B rng ?path ?dir ?m s"
    "writers s = [(None, Full)]" "comps s = []" "txnManager (sys_db s) = txnManager db0"
    by (rule btree_contract.put_until_full_calm [OF assms(1,2,3,6,7,8)]) blast
  obtain s1 where s1: "sys_run B rng True s Map.empty s1" "sys_inv B rng ?path ?dir ?m s1"
    "writers s1 = [(None, Checked)]" "txnManager (sys_db s1) = txnManager (sys_db s)"
    by (rule btree_contract.flush_progress [OF assms(1) s(2) assms(2) s(3)]) blast
  have run: "sys_run B rng True (idle db0 w0) [key \<mapsto> val] s1"
    using sys_run_trans [OF s1(1) s(1)] by simp
  obtain tm' where "releaseAllLocks txn (txnManager db0) = Inr (txn\<lparr>lockAcquiredKeys := []\<rparr>, tm')"
    using release_keys_present [OF assms(14), of "txn_id txn"] by (auto simp: releaseAllLocks_def)
  then have locks: "releaseAllLocks txn (txnManager (sys_db s1)) = Inr (txn\<lparr>lockAcquiredKeys := []\<rparr>, tm')"
    by (simp add: s1(4) s(5))
  obtain s' s2 where e: "sys_run B rng False (idle db0 w0) ([key \<mapsto> val] ++ bufferedWriteMap txn) s'"
    "writers s' = []" "mt_abs B (memTable (sys_db s')) = bufferedWriteMap txn"
    "sys_inv B rng ?path ?dir ?m s2" "sys_world s' = sys_world s2"
    by (rule btree_contract.commit_into_flush [OF assms(1,2) run s1(2,3) assms(9-13) locks]) blast
  obtain db' where n: "NewDB B (same_place db0 bl) (sys_world s2) =
      (case getTableNameVsSchemaMap B db' (sys_world s2) of
         Inl e \<Rightarrow> (Inl e, sys_world s2)
       | Inr schemas \<Rightarrow> (Inr (db'\<lparr>tableNameVsSchemaMap := schemas\<rparr>), sys_world s2))"
    "\<And>p. \<exists>tableMap. SsTable_PrefixScan (ssTable db') p (sys_world s2) = Inr tableMap
        \<and> tableMap ++ Memtable_PrefixScan B (memTable db') p = ?m |` {k. HasPrefix k p}"
    using sys_inv_reopen [OF assms(1) e(4) assms(4,5), of bl] by metis
  show ?thesis
    by (rule exI [of _ s'], rule exI [of _ db'], unfold e(5), intro conjI allI)
       (rule e(1) e(2) e(3) n)+
qed

lemma big_fills: "ShouldFlush (Memtable_Put list_btree k big (NewMemtable list_btree))"
  by (simp add: ShouldFlush_def NewMemtable_def Memtable_Put_def list_btree_def memtableSizeLimit_def)

theorem commit_beside_flush_lost_witness:
  "\<exists>s db'. sys_run list_btree ordered_range False (idle locked_db (world_on ''w'' ''d'' one_table))
      ([''z'' \<mapsto> big] ++ bufferedWriteMap writing_txn) s
    \<and> writers s = [] \<and> mt_abs list_btree (memTable (sys_db s)) = bufferedWriteMap writing_txn
    \<and> NewDB list_btree (same_place locked_db 100) (sys_world s) =
      (case getTableNameVsSchemaMap list_btree db' (sys_world s) of
         Inl e \<Rightarrow> (Inl e, sys_world s)
       | Inr schemas \<Rightarrow> (Inr (db'\<lparr>tableNameVsSchemaMap := schemas\<rparr>), sys_world s))
    \<and> (\<forall>p. \<exists>tableMap. SsTable_PrefixScan (ssTable db') p (sys_world s) = Inr tableMap
        \<and> tableMap ++ Memtable_PrefixScan list_btree (memTable db') p =
            (db_map list_btree locked_db one_table)(''z'' \<mapsto> big) |` {k. HasPrefix k p})"
  by (rule commit_beside_flush_lost [OF list_tree.btree_contract_axioms rng_ok_ordered_range locked_db_inv
        _ _ _ _ _ writing_txn_order])
     (simp_all add: writing_txn_payload big_fills, simp_all add: writing_txn_def locked_db_def range_pairs_def
        db_on_def big_fills tables_state_def)

subsection \<open>Two compactions at the same time\<close>

lemma compaction_write_fresh:
  assumes disk: "disk_inv w st tabs" and ok: "table_ok (blockLength st) kvs"
  obtains c off ib st' w' where "compaction_write kvs st w = (Inr (c, off, ib), st', w')"
    and "disk_inv w' st' tabs" and "unlisted st' c" and "table_file w' c (blockLength st) kvs"
    and "c = tablePath (dataFilesDirectory st) (NextFileId (st_manifest st))"
    and "NextFileId (st_manifest st') = Suc (NextFileId (st_manifest st))"
    and "firstLevelFiles st' = firstLevelFiles st" and "dataFilesDirectory st' = dataFilesDirectory st"
    and "blockLength st' = blockLength st" and "\<And>f. f \<noteq> c \<Longrightarrow> files w' f = files w f"
proof -
  note W = compaction_write_calm [OF disk ok refl refl refl]
  let ?c = "tablePath (dataFilesDirectory st) (NextFileId (st_manifest st))"
  have un: "?c \<notin> set (firstLevelFiles st)"
    using fresh_not_in [OF disk_invD(4) [OF disk]] by simp
  show ?thesis
    by (rule that [OF W(1) W(2)]) (use un ok in \<open>auto simp: unlisted_def intro!: table_file_written\<close>)
qed

lemma two_merges:
  assumes disk: "disk_inv w st (tabs @ us)" and names: "firstLevelFiles st = fs @ rest"
    and len: "length fs = length tabs" and rng: "rng_ok rng" and bl: "bl = blockLength st"
    and fits: "fits32 (length (file_bytes bl (merged rng tabs)))"
      "fits32 (length (file_bytes bl (merged rng (tabs @ us))))"
  obtains c1 o1 ib1 st1 w1 c2 o2 ib2 st2 w2 st3 w3 st4 w4 where
    "compaction_build rng fs w = Inr (merged rng tabs)"
    and "compaction_write (merged rng tabs) st w = (Inr (c1, o1, ib1), st1, w1)"
    and "compaction_build rng (fs @ rest) w1 = Inr (merged rng (tabs @ us))" and "blockLength st1 = bl"
    and "compaction_write (merged rng (tabs @ us)) st1 w1 = (Inr (c2, o2, ib2), st2, w2)"
    and "atomicSwap c1 fs ib1 o1 st2 w2 = (st3, w3)"
    and "atomicSwap c2 (fs @ rest) ib2 o2 st3 w3 = (st4, w4)"
    and "disk_inv (remove_files (fs @ rest) (remove_files fs w4)) st4
      [(bl, merged rng (tabs @ us)), (bl, merged rng tabs)]"
    and "saved (remove_files (fs @ rest) (remove_files fs w4)) st4"
    and "dataFilesDirectory st4 = dataFilesDirectory st"
    and "\<And>f. separate f (dataFilesDirectory st) \<Longrightarrow>
      files (remove_files (fs @ rest) (remove_files fs w4)) f = files w f"
proof -
  let ?dir = "dataFilesDirectory st"
  note d = disk_invD [OF disk]
  have st: "stored w fs tabs" "stored w (fs @ rest) (tabs @ us)"
    using d(2) len stored_take [OF d(2), of "length fs"] by (simp_all add: names)
  have ok: "table_ok bl (merged rng tabs)" "table_ok bl (merged rng (tabs @ us))"
    using merged_facts [OF rng st(1)] merged_facts [OF rng st(2)] fits by (simp_all add: table_ok_def)
  obtain c1 o1 ib1 st1 w1 where W1: "compaction_write (merged rng tabs) st w = (Inr (c1, o1, ib1), st1, w1)"
    "disk_inv w1 st1 (tabs @ us)" "unlisted st1 c1" "table_file w1 c1 bl (merged rng tabs)"
    "c1 = tablePath ?dir (NextFileId (st_manifest st))"
    "NextFileId (st_manifest st1) = Suc (NextFileId (st_manifest st))"
    "firstLevelFiles st1 = firstLevelFiles st" "dataFilesDirectory st1 = ?dir" "blockLength st1 = bl"
    "\<And>f. f \<noteq> c1 \<Longrightarrow> files w1 f = files w f"
    by (rule compaction_write_fresh [OF disk ok(1) [unfolded bl], folded bl]) blast
  note ok2 = ok(2) [folded W1(9)]
  obtain c2 o2 ib2 st2 w2 where W2:
    "compaction_write (merged rng (tabs @ us)) st1 w1 = (Inr (c2, o2, ib2), st2, w2)"
    "disk_inv w2 st2 (tabs @ us)" "unlisted st2 c2" "table_file w2 c2 bl (merged rng (tabs @ us))"
    "c2 = tablePath ?dir (Suc (NextFileId (st_manifest st)))"
    "NextFileId (st_manifest st2) = Suc (Suc (NextFileId (st_manifest st)))"
    "firstLevelFiles st2 = fs @ rest" "dataFilesDirectory st2 = ?dir"
    "\<And>f. f \<noteq> c2 \<Longrightarrow> files w2 f = files w1 f"
    by (rule compaction_write_fresh [OF W1(2) ok2]) (simp only: W1(6-9) names, blast)
  have differ: "c1 \<noteq> c2"
    by (simp add: W1(5) W2(5))
  have old: "c1 \<notin> set (fs @ rest)" "c2 \<notin> set (fs @ rest)" "manifestPath ?dir \<notin> set (fs @ rest)" "distinct (fs @ rest)"
    using W1(3,7) W2(3,7) d(4) listed_file [OF disk, of "manifestPath ?dir"]
    by (simp_all add: unlisted_def names fresh_ids_def) blast
  have un1: "unlisted st2 c1" and tf1: "table_file w2 c1 bl (merged rng tabs)"
    using W1(4,5) W2(6-9) old(1) differ by (simp_all add: unlisted_def table_file_def)
  obtain st3 w3 where swap1: "atomicSwap c1 fs ib1 o1 st2 w2 = (st3, w3)"
    by fastforce
  have k1: "kept fs (firstLevelFiles st2) (tabs @ us) = us" "filter (\<lambda>n. n \<notin> set fs) (firstLevelFiles st2) = rest"
    using kept_prefix [OF old(4) len, of us] stored_length [OF st(2)] len by (simp_all add: W2(7))
  note S1 = atomicSwap_calm [OF W2(2) un1 tf1 swap1, unfolded k1]
  have un2: "unlisted st3 c2" and tf2: "table_file w3 c2 bl (merged rng (tabs @ us))"
    using S1(3,4,6,7) W2(3-6,8) old(2) differ by (simp_all add: unlisted_def table_file_def)
  obtain st4 w4 where swap2: "atomicSwap c2 (fs @ rest) ib2 o2 st3 w3 = (st4, w4)"
    by fastforce
  have k2: "kept (fs @ rest) (firstLevelFiles st3) ((bl, merged rng tabs) # us) = [(bl, merged rng tabs)]"
    "filter (\<lambda>n. n \<notin> set (fs @ rest)) (firstLevelFiles st3) = [c1]"
    using old(1) by (auto simp: kept_def S1(3) filter_empty_conv dest: set_zip_leftD)
  note S2 = atomicSwap_calm [OF S1(1) un2 tf2 swap2, unfolded k2]
  let ?w5 = "remove_files (fs @ rest) (remove_files fs w4)"
  have w5: "?w5 = w4\<lparr>files := (\<lambda>f. if f \<in> set (fs @ rest) then None else files w4 f)\<rparr>"
    using disk_invD(1) [OF S2(1)] by (auto simp: remove_files_calm calm_def fun_eq_iff)
  have dir: "dataFilesDirectory st4 = ?dir"
    using S1(4) S2(4) W2(8) by simp
  have "disk_inv ?w5 st4 [(bl, merged rng (tabs @ us)), (bl, merged rng tabs)]"
    using S2(1,3) old(1,2) dir unfolding w5
    by (simp add: disk_inv_def stored_def table_file_def fresh_ids_def calm_def)
  moreover have "saved ?w5 st4"
    using S2(2) old(3) dir by (simp add: w5 saved_def)
  moreover have "files ?w5 f = files w f" if sep: "separate f ?dir" for f
  proof -
    have f: "f \<noteq> manifestPath ?dir" "f \<noteq> c1" "f \<noteq> c2" "f \<notin> set (fs @ rest)"
      using sep d(4) by (auto simp: separate_def W1(5) W2(5) fresh_ids_def names)
    then show ?thesis
      using S2(7) S1(7) W1(10) W2(9) S1(4) W2(8) by (simp add: w5)
  qed
  moreover have "compaction_build rng fs w = Inr (merged rng tabs)"
    by (rule compaction_build_stored [OF d(1) st(1)])
  moreover have "compaction_build rng (fs @ rest) w1 = Inr (merged rng (tabs @ us))"
    using compaction_build_stored [OF disk_invD(1,2) [OF W1(2)], of rng] by (simp add: W1(7) names)
  ultimately show ?thesis
    using W1(1,9) W2(1) swap1 swap2 dir by (intro that)
qed

lemma two_compactions_run:
  assumes run: "sys_run B rng False s0 m ((idle db w)\<lparr>comps := [Snapshot fs, Snapshot gs]\<rparr>)"
    and b1: "compaction_build rng fs w = Inr k1"
    and w1: "compaction_write k1 (ssTable db) w = (Inr (c1, o1, ib1), st1, w1)"
    and b2: "compaction_build rng gs w1 = Inr k2"
    and w2: "compaction_write k2 st1 w1 = (Inr (c2, o2, ib2), st2, w2)"
    and s1: "atomicSwap c1 fs ib1 o1 st2 w2 = (st3, w3)"
    and s2: "atomicSwap c2 gs ib2 o2 st3 w3 = (st4, w4)"
    and fits: "fits32 (length (file_bytes (blockLength (ssTable db)) k1))" "fits32 (length (file_bytes (blockLength st1) k2))"
  shows "sys_run B rng False s0 m
    (idle (db\<lparr>ssTable := st4\<lparr>compacting := False\<rparr>\<rparr>) (remove_files gs (remove_files fs w4)))"
proof -
  let ?s = "\<lambda>st w cs. (idle (db\<lparr>ssTable := st\<rparr>) w)\<lparr>comps := cs\<rparr>"
  let ?st = "ssTable db"
  have r0: "sys_run B rng False s0 m (?s ?st w [Snapshot fs, Snapshot gs])"
    using run by simp
  have r1: "sys_run B rng False s0 m (?s ?st w [Built fs k1, Snapshot gs])"
    using sys_run_silent [OF r0 sys_step.build_compaction [of 0 _ fs rng k1]] b1 by (simp add: idle_def)
  have r2: "sys_run B rng False s0 m (?s st1 w1 [Written fs c1 o1 ib1, Snapshot gs])"
    using sys_run_silent [OF r1 sys_step.write_compaction [of 0 _ fs k1 c1 o1 ib1 st1 w1]] w1 fits(1)
    by (simp add: idle_def)
  have r3: "sys_run B rng False s0 m (?s st1 w1 [Written fs c1 o1 ib1, Built gs k2])"
    using sys_run_silent [OF r2 sys_step.build_compaction [of 1 _ gs rng k2]] b2 by (simp add: idle_def)
  have r4: "sys_run B rng False s0 m (?s st2 w2 [Written fs c1 o1 ib1, Written gs c2 o2 ib2])"
    using sys_run_silent [OF r3 sys_step.write_compaction [of 1 _ gs k2 c2 o2 ib2 st2 w2]] w2 fits(2)
    by (simp add: idle_def)
  have r5: "sys_run B rng False s0 m (?s st3 w3 [Swapped fs, Written gs c2 o2 ib2])"
    using sys_run_silent [OF r4 sys_step.swap_compaction [of 0 _ fs c1 o1 ib1 st3 w3]] s1 by (simp add: idle_def)
  have r6: "sys_run B rng False s0 m (?s st4 w4 [Swapped fs, Swapped gs])"
    using sys_run_silent [OF r5 sys_step.swap_compaction [of 1 _ gs c2 o2 ib2 st4 w4]] s2 by (simp add: idle_def)
  have r7: "sys_run B rng False s0 m (?s (st4\<lparr>compacting := False\<rparr>) (remove_files fs w4) [Swapped gs])"
    using sys_run_silent [OF r6 sys_step.end_compaction [of 0 _ fs]] by (simp add: idle_def drop_nth_def)
  show ?thesis
    using sys_run_silent [OF r7 sys_step.end_compaction [of 0 _ gs]] by (simp add: idle_def drop_nth_def)
qed

text \<open>A put adds at most one file. A put that flushes starts a compaction when the flag is not set
  and there are four files then; it does not set the flag, which is the first step of the goroutine.\<close>

lemma put_keeps_files:
  assumes "DB_Put B key val db w = (Inr (), db', w')"
  shows "\<exists>rest. firstLevelFiles (ssTable db') = firstLevelFiles (ssTable db) @ rest"
    and "blockLength (ssTable db') = blockLength (ssTable db)" and "goroutines db \<le> goroutines db'"
  using assms
  by (auto simp: DB_Put_def writeToWal_def createSsTableAndClearWalAndMemTable_def flushMemtableToSsTable_def
      NewFile_def SsTable_Write_def Let_def split: prod.splits sum.splits if_splits)

lemma full_put_starts_compaction:
  assumes "DB_Put B key val db w = (Inr (), db', w')"
    and "ShouldFlush (Memtable_Put B key val (memTable db))"
    and "\<not> compacting (ssTable db)" and "length (firstLevelFiles (ssTable db)) \<ge> 3"
  shows "goroutines db' = goroutines db + 1" and "\<not> compacting (ssTable db')"
    and "length (firstLevelFiles (ssTable db')) \<ge> 3"
  using assms
  by (auto simp: DB_Put_def writeToWal_def createSsTableAndClearWalAndMemTable_def flushMemtableToSsTable_def
      ShouldRunCompaction_def NewFile_def SsTable_Write_def Let_def split: prod.splits sum.splits if_splits)

lemma merged_cong: "sst_map tabs = sst_map tabs' \<Longrightarrow> merged rng tabs = merged rng tabs'"
  by (simp add: merged_def)

lemma begin_db_inv:
  "db_inv B w db tabs \<Longrightarrow> db_inv B w (db\<lparr>ssTable := (ssTable db)\<lparr>compacting := b\<rparr>, goroutines := n\<rparr>) tabs"
  by (simp add: db_inv_def disk_inv_def)

text \<open>A put that fills the memtable leaves it empty, with its pairs in a new table.\<close>

lemma full_put_calm:
  assumes B: "btree_contract B" and inv: "db_inv B w db tabs"
    and key: "key \<noteq> ''''" "length key + length val \<le> 999985"
    and full: "ShouldFlush (Memtable_Put B key val (memTable db))"
  obtains db' w' t where "DB_Put B key val db w = (Inr (), db', w')" and "db_inv B w' db' (tabs @ [t])"
    and "mt_abs B (memTable db') = Map.empty"
    and "map_of (snd t) = (mt_abs B (memTable db))(key \<mapsto> val)"
    and "wal_path (wal db') = wal_path (wal db)"
    and "dataFilesDirectory (ssTable db') = dataFilesDirectory (ssTable db)"
proof -
  obtain db' w' tabs' where put: "DB_Put B key val db w = (Inr (), db', w')" "db_inv B w' db' tabs'"
    and how: "mt_abs B (memTable db') = (mt_abs B (memTable db))(key \<mapsto> val) \<and> tabs' = tabs
      \<or> mt_abs B (memTable db') = Map.empty \<and> (\<exists>t. tabs' = tabs @ [t]
          \<and> map_of (snd t) = (mt_abs B (memTable db))(key \<mapsto> val))"
    and k: "wal_path (wal db') = wal_path (wal db)"
      "dataFilesDirectory (ssTable db') = dataFilesDirectory (ssTable db)"
    by (rule DB_Put_calm [OF B inv key]) blast
  have "mt_abs B (memTable db') \<noteq> (mt_abs B (memTable db))(key \<mapsto> val)"
  proof
    let ?m = "Memtable_Put B key val (memTable db)"
    assume same: "mt_abs B (memTable db') = (mt_abs B (memTable db))(key \<mapsto> val)"
    have m: "mt_inv B ?m" "mt_abs B ?m = (mt_abs B (memTable db))(key \<mapsto> val)"
      using btree_contract.puts_all [OF B db_invD(3) [OF inv], of "[(key, val)]"] by simp_all
    have "msize (memTable db') = msize ?m"
      by (rule mt_unique(2) [OF db_invD(3) [OF put(2)] m(1)]) (simp add: same m(2))
    then show False
      using db_invD(5) [OF put(2)] full by (simp add: ShouldFlush_def)
  qed
  then obtain t where "tabs' = tabs @ [t]" "mt_abs B (memTable db') = Map.empty"
    "map_of (snd t) = (mt_abs B (memTable db))(key \<mapsto> val)"
    using how by blast
  then show ?thesis
    using put k by (intro that [of db' w' t]) simp_all
qed

text \<open>A large pair fills an empty memtable.\<close>

lemma large_put_fills:
  assumes "btree_contract B" and "mt_inv B m" and "mt_abs B m = Map.empty" and "1000 \<le> length key + length val"
  shows "ShouldFlush (Memtable_Put B key val m)"
proof -
  have "msize m = 0"
    using assms(2,3) by (simp add: mt_inv_def mt_abs_def)
  then show ?thesis
    using btree_contract.msize_Put [OF assms(1), of m key val] assms(2-4)
    by (simp add: ShouldFlush_def memtableSizeLimit_def mt_inv_def)
qed

lemma two_compactions_calm:
  assumes "btree_contract B" and "rng_ok rng" and "db_inv B w0 db0 tabs0"
    and key: "key \<noteq> ''''" "length key + length val \<le> 999985"
    and "ShouldFlush (Memtable_Put B key val (memTable db0))" and "2 \<le> goroutines db0"
    and "bl = blockLength (ssTable db0)" and "fits32 (length (file_bytes bl (merged rng tabs0)))"
    and "tabs1 = tabs0 @ [(bl, Iterate B (Memtable_Put B key val (memTable db0)))]"
    and "fits32 (length (file_bytes bl (merged rng tabs1)))"
  obtains db w tabs where "sys_run B rng False (idle db0 w0) [key \<mapsto> val] (idle db w)"
    and "db_inv B w db tabs" and "mt_abs B (memTable db) = Map.empty"
    and "db_map B db tabs = (db_map B db0 tabs0)(key \<mapsto> val) ++ sst_map tabs0"
    and "wal_path (wal db) = wal_path (wal db0)"
    and "dataFilesDirectory (ssTable db) = dataFilesDirectory (ssTable db0)"
proof -
  note B = assms(1) and rng = assms(2)
  let ?fs = "firstLevelFiles (ssTable db0)"
  let ?db0 = "db0\<lparr>ssTable := (ssTable db0)\<lparr>compacting := True\<rparr>, goroutines := goroutines db0 - 1\<rparr>"
  have r1: "sys_run B rng False (idle db0 w0) Map.empty ((idle ?db0 w0)\<lparr>comps := [Snapshot ?fs]\<rparr>)"
    using sys_run_one [OF sys_step.begin_compaction [of False "idle db0 w0" _ _ B rng]] assms(7)
    by (simp add: idle_def compaction_begin_def)
  have inv0: "db_inv B w0 ?db0 tabs0"
    by (rule begin_db_inv [OF assms(3)])
  have full: "ShouldFlush (Memtable_Put B key val (memTable ?db0))"
    using assms(6) by simp
  obtain db1 w1 t where put: "DB_Put B key val ?db0 w0 = (Inr (), db1, w1)"
    and inv1: "db_inv B w1 db1 (tabs0 @ [t])" and empty: "mt_abs B (memTable db1) = Map.empty"
    and t: "map_of (snd t) = (mt_abs B (memTable db0))(key \<mapsto> val)"
    and same: "wal_path (wal db1) = wal_path (wal db0)"
      "dataFilesDirectory (ssTable db1) = dataFilesDirectory (ssTable db0)"
    by (rule full_put_calm [OF B inv0 key full]) (rule that, assumption+, simp_all)
  have r2: "sys_run B rng False (idle db0 w0) [key \<mapsto> val] ((idle db1 w1)\<lparr>comps := [Snapshot ?fs]\<rparr>)"
    using sys_run_trans [OF put_beside_compactions [OF key put] r1] by simp
  obtain rest where rest: "firstLevelFiles (ssTable db1) = ?fs @ rest"
    using put_keeps_files(1) [OF put] by auto
  have keeps: "blockLength (ssTable db1) = bl" "0 < goroutines db1"
    using put_keeps_files(2,3) [OF put] assms(7,8) by simp_all
  let ?db2 = "db1\<lparr>ssTable := (ssTable db1)\<lparr>compacting := True\<rparr>, goroutines := goroutines db1 - 1\<rparr>"
  have r3: "sys_run B rng False (idle db0 w0) [key \<mapsto> val]
      ((idle ?db2 w1)\<lparr>comps := [Snapshot ?fs, Snapshot (?fs @ rest)]\<rparr>)"
    using sys_run_silent [OF r2 sys_step.begin_compaction] keeps(2) rest
    by (simp add: idle_def compaction_begin_def)
  have inv2: "db_inv B w1 ?db2 (tabs0 @ [t])"
    by (rule begin_db_inv [OF inv1])
  have len: "length ?fs = length tabs0"
    by (rule stored_length [OF disk_invD(2) [OF db_invD(1) [OF assms(3)]]])
  have "map_of (Iterate B (Memtable_Put B key val (memTable db0))) = map_of (snd t)"
    using btree_contract.puts_all [OF B db_invD(3) [OF assms(3)], of "[(key, val)]"] t
    by (simp add: mt_abs_def)
  then have tabs1: "merged rng tabs1 = merged rng (tabs0 @ [t])"
    by (intro merged_cong) (simp add: assms(10))
  note fits = assms(9) assms(11) [unfolded tabs1]
  have st2: "firstLevelFiles (ssTable ?db2) = ?fs @ rest" "bl = blockLength (ssTable ?db2)"
    using rest keeps(1) by simp_all
  obtain c1 o1 ib1 st1 w2 c2 o2 ib2 st2 w3 st3 w4 st4 w5 where M:
    "compaction_build rng ?fs w1 = Inr (merged rng tabs0)"
    "compaction_write (merged rng tabs0) (ssTable ?db2) w1 = (Inr (c1, o1, ib1), st1, w2)"
    "compaction_build rng (?fs @ rest) w2 = Inr (merged rng (tabs0 @ [t]))" "blockLength st1 = bl"
    "compaction_write (merged rng (tabs0 @ [t])) st1 w2 = (Inr (c2, o2, ib2), st2, w3)"
    "atomicSwap c1 ?fs ib1 o1 st2 w3 = (st3, w4)"
    "atomicSwap c2 (?fs @ rest) ib2 o2 st3 w4 = (st4, w5)"
    and D: "disk_inv (remove_files (?fs @ rest) (remove_files ?fs w5)) st4
      [(bl, merged rng (tabs0 @ [t])), (bl, merged rng tabs0)]"
    "saved (remove_files (?fs @ rest) (remove_files ?fs w5)) st4"
    "dataFilesDirectory st4 = dataFilesDirectory (ssTable ?db2)"
    "\<And>f. separate f (dataFilesDirectory (ssTable ?db2)) \<Longrightarrow>
      files (remove_files (?fs @ rest) (remove_files ?fs w5)) f = files w1 f"
    by (rule two_merges [OF db_invD(1) [OF inv2] st2(1) len rng st2(2) fits]) (rule that)
  let ?db3 = "?db2\<lparr>ssTable := st4\<lparr>compacting := False\<rparr>\<rparr>"
  let ?w = "remove_files (?fs @ rest) (remove_files ?fs w5)"
  let ?tabs = "[(bl, merged rng (tabs0 @ [t])), (bl, merged rng tabs0)]"
  have run: "sys_run B rng False (idle db0 w0) [key \<mapsto> val] (idle ?db3 ?w)"
    by (rule two_compactions_run [OF r3 M(1-3,5-7)]) (use fits M(4) keeps(1) in simp_all)
  have sep: "separate (wal_path (wal ?db2)) (dataFilesDirectory (ssTable ?db2))"
    by (rule db_invD(7) [OF inv2])
  have inv3: "db_inv B ?w ?db3 ?tabs"
    using db_invD(3-6) [OF inv2] D(1) manifest_read_saved [OF D(2)] sep D(3) D(4) [OF sep]
    by (simp add: db_inv_def disk_inv_def logged_def)
  have tables: "map_of (merged rng tabs0) = sst_map tabs0"
    "map_of (merged rng (tabs0 @ [t])) = sst_map (tabs0 @ [t])"
    using merged_facts(1) [OF rng disk_invD(2) [OF db_invD(1) [OF assms(3)]]]
      merged_facts(1) [OF rng disk_invD(2) [OF db_invD(1) [OF inv2]]] by simp_all
  have contents: "db_map B ?db3 ?tabs = (db_map B db0 tabs0)(key \<mapsto> val) ++ sst_map tabs0"
    using empty t by (simp add: db_map_def sst_map_Cons tables)
  show ?thesis
    by (rule that [OF run inv3 _ contents]) (use empty same D(3) in simp_all)
qed

definition three_tables :: "sorted_table list" where
  "three_tables = [(100, [(''a'', ''1'')]), (100, [(''b'', ''1'')]), (100, [(''c'', ''1'')])]"

lemma one_put_map:
  assumes "btree_contract B" and "mt_inv B m" and "mt_abs B m = Map.empty"
  shows "map_of (Iterate B (Memtable_Put B key val m)) = [key \<mapsto> val]"
  using btree_contract.mt_abs_Put [OF assms(1,2), of key val] assms(3) by (simp add: mt_abs_def)

text \<open>Two puts that fill the memtable one after the other leave two compactions started.\<close>

lemma two_full_puts_start_two:
  assumes B: "btree_contract B" and inv: "db_inv B w0 db0 tabs0"
    and idle: "\<not> compacting (ssTable db0)" and three: "3 \<le> length (firstLevelFiles (ssTable db0))"
    and k1: "k1 \<noteq> ''''" "length k1 + length v1 \<le> 999985"
    and full: "ShouldFlush (Memtable_Put B k1 v1 (memTable db0))"
    and k2: "k2 \<noteq> ''''" "length k2 + length v2 \<le> 999985" "1000 \<le> length k2 + length v2"
  obtains db w tabs where "sys_run B rng False (idle db0 w0) ([k1 \<mapsto> v1] ++ [k2 \<mapsto> v2]) (idle db w)"
    and "db_inv B w db tabs" and "mt_abs B (memTable db) = Map.empty"
    and "sst_map tabs = (db_map B db0 tabs0)(k1 \<mapsto> v1) ++ [k2 \<mapsto> v2]" and "2 \<le> goroutines db"
    and "blockLength (ssTable db) = blockLength (ssTable db0)"
    and "wal_path (wal db) = wal_path (wal db0)"
    and "dataFilesDirectory (ssTable db) = dataFilesDirectory (ssTable db0)"
proof -
  obtain db1 w1 t1 where p1: "DB_Put B k1 v1 db0 w0 = (Inr (), db1, w1)" "db_inv B w1 db1 (tabs0 @ [t1])"
    "mt_abs B (memTable db1) = Map.empty" "map_of (snd t1) = (mt_abs B (memTable db0))(k1 \<mapsto> v1)"
    "wal_path (wal db1) = wal_path (wal db0)"
    "dataFilesDirectory (ssTable db1) = dataFilesDirectory (ssTable db0)"
    by (rule full_put_calm [OF B inv k1 full])
  have full2: "ShouldFlush (Memtable_Put B k2 v2 (memTable db1))"
    by (rule large_put_fills [OF B db_invD(3) [OF p1(2)] p1(3) k2(3)])
  obtain db2 w2 t2 where p2: "DB_Put B k2 v2 db1 w1 = (Inr (), db2, w2)" "db_inv B w2 db2 ((tabs0 @ [t1]) @ [t2])"
    "mt_abs B (memTable db2) = Map.empty" "map_of (snd t2) = (mt_abs B (memTable db1))(k2 \<mapsto> v2)"
    "wal_path (wal db2) = wal_path (wal db1)"
    "dataFilesDirectory (ssTable db2) = dataFilesDirectory (ssTable db1)"
    by (rule full_put_calm [OF B p1(2) k2(1,2) full2])
  note c1 = full_put_starts_compaction [OF p1(1) full idle three]
  note c2 = full_put_starts_compaction [OF p2(1) full2 c1(2,3)]
  have run: "sys_run B rng False (idle db0 w0) ([k1 \<mapsto> v1] ++ [k2 \<mapsto> v2]) (idle db2 w2)"
    by (rule sys_run_trans [OF put_by_steps [OF k2(1,2) p2(1)] put_by_steps [OF k1 p1(1)]])
  have tables: "sst_map ((tabs0 @ [t1]) @ [t2]) = (db_map B db0 tabs0)(k1 \<mapsto> v1) ++ [k2 \<mapsto> v2]"
    by (simp add: p1(3,4) p2(4) db_map_def sst_map_append sst_map_Cons)
  show ?thesis
    by (rule that [OF run p2(2,3) tables])
      (use c1 c2 p1(5,6) p2(5,6) put_keeps_files(2) [OF p1(1)] put_keeps_files(2) [OF p2(1)] in simp_all)
qed

text \<open>C10: Two compactions at the same time bring an old value back. In a quiet database with three
  tables, a put that fills the memtable starts a compaction, and so does a second such put before
  the goroutine of the first has set the flag: the check and the setting of the flag are two
  critical sections. When a third put, of a key \<open>k3\<close> that the tables already hold, is flushed between
  the snapshots of the two compactions, the file of the first one ends up as the newer table. All
  three puts return without an error, but at the end \<open>k3\<close> has its value from before the third put,
  both in the tables of the running database (the list of files in memory with what the files hold)
  and after a restart from the files. The sizes keep the memtable filling at each put and the merged
  files below the 32-bit limit.\<close>

theorem two_compactions_lose_writes:
  assumes "btree_contract B" and "rng_ok rng" and "db_inv B w0 db0 tabs0"
    and "wal_path (wal db0) \<noteq> ''''" and "dataFilesDirectory (ssTable db0) \<noteq> ''''"
    and "\<not> compacting (ssTable db0)" and "3 \<le> length (firstLevelFiles (ssTable db0))"
    and "k1 \<noteq> ''''" and "length k1 + length v1 \<le> 999985"
    and "ShouldFlush (Memtable_Put B k1 v1 (memTable db0))"
    and "k2 \<noteq> ''''" and "length k2 + length v2 \<le> 999985" and "1000 \<le> length k2 + length v2"
    and "k3 \<noteq> ''''" and "length k3 + length v3 \<le> 999985" and "1000 \<le> length k3 + length v3"
    and "M = (db_map B db0 tabs0)(k1 \<mapsto> v1) ++ [k2 \<mapsto> v2]" and "k3 \<in> dom M"
    and "sorted_keys kvs2" and "map_of kvs2 = M"
    and "sorted_keys kvs3" and "map_of kvs3 = M(k3 \<mapsto> v3)"
    and "fits32 (length (file_bytes (blockLength (ssTable db0)) kvs2))"
    and "fits32 (length (file_bytes (blockLength (ssTable db0)) kvs3))"
  shows "\<exists>s tabs db'. sys_run B rng False (idle db0 w0) ([k1 \<mapsto> v1] ++ [k2 \<mapsto> v2] ++ [k3 \<mapsto> v3]) s
    \<and> writers s = [] \<and> comps s = []
    \<and> db_inv B (sys_world s) (sys_db s) tabs \<and> db_map B (sys_db s) tabs = M
    \<and> NewDB B (same_place db0 bl') (sys_world s) =
      (case getTableNameVsSchemaMap B db' (sys_world s) of
         Inl e \<Rightarrow> (Inl e, sys_world s)
       | Inr schemas \<Rightarrow> (Inr (db'\<lparr>tableNameVsSchemaMap := schemas\<rparr>), sys_world s))
    \<and> (\<forall>p. \<exists>tableMap. SsTable_PrefixScan (ssTable db') p (sys_world s) = Inr tableMap
        \<and> tableMap ++ Memtable_PrefixScan B (memTable db') p = M |` {k. HasPrefix k p})"
proof -
  note B = assms(1) and rng = assms(2)
  obtain db2 w2 tabs2 where r2: "sys_run B rng False (idle db0 w0) ([k1 \<mapsto> v1] ++ [k2 \<mapsto> v2]) (idle db2 w2)"
    and inv2: "db_inv B w2 db2 tabs2" and empty2: "mt_abs B (memTable db2) = Map.empty"
    and tables2: "sst_map tabs2 = M" and two: "2 \<le> goroutines db2"
    and same2: "blockLength (ssTable db2) = blockLength (ssTable db0)" "wal_path (wal db2) = wal_path (wal db0)"
      "dataFilesDirectory (ssTable db2) = dataFilesDirectory (ssTable db0)"
    unfolding assms(17) by (rule two_full_puts_start_two [OF B assms(3,6-13)])
  define tabs3 where "tabs3 = tabs2 @ [(blockLength (ssTable db0), Iterate B (Memtable_Put B k3 v3 (memTable db2)))]"
  have merged2: "merged rng tabs2 = kvs2"
    using assms(20) by (intro merged_eqI [OF rng assms(19)]) (simp add: tables2)
  have merged3: "merged rng tabs3 = kvs3"
    using assms(22) one_put_map [OF B db_invD(3) [OF inv2] empty2, of k3 v3]
    by (intro merged_eqI [OF rng assms(21)]) (simp add: tabs3_def tables2)
  obtain db w tabs where r3: "sys_run B rng False (idle db2 w2) [k3 \<mapsto> v3] (idle db w)"
    and inv: "db_inv B w db tabs"
    and contents: "db_map B db tabs = (db_map B db2 tabs2)(k3 \<mapsto> v3) ++ sst_map tabs2"
    and same: "wal_path (wal db) = wal_path (wal db2)"
      "dataFilesDirectory (ssTable db) = dataFilesDirectory (ssTable db2)"
    by (rule two_compactions_calm [OF B rng inv2 assms(14,15)
          large_put_fills [OF B db_invD(3) [OF inv2] empty2 assms(16)] two same2(1) [symmetric] _ tabs3_def])
      (use assms(23,24) in \<open>simp_all add: merged2 merged3\<close>)
  have lost: "db_map B db tabs = M"
    using contents assms(18) by (auto simp: db_map_def empty2 tables2 map_add_def fun_eq_iff split: option.splits)
  have place: "wal_path (wal db) = wal_path (wal db0)"
    "dataFilesDirectory (ssTable db) = dataFilesDirectory (ssTable db0)"
    using same same2 by simp_all
  then have ne: "wal_path (wal db) \<noteq> ''''" "dataFilesDirectory (ssTable db) \<noteq> ''''"
    using assms(4,5) by simp_all
  let ?s = "idle db w"
  obtain db' where n: "NewDB B (same_place db bl') (sys_world ?s) =
      (case getTableNameVsSchemaMap B db' (sys_world ?s) of
         Inl e \<Rightarrow> (Inl e, sys_world ?s)
       | Inr schemas \<Rightarrow> (Inr (db'\<lparr>tableNameVsSchemaMap := schemas\<rparr>), sys_world ?s))"
    "\<And>p. \<exists>tableMap. SsTable_PrefixScan (ssTable db') p (sys_world ?s) = Inr tableMap
        \<and> tableMap ++ Memtable_PrefixScan B (memTable db') p = db_map B db tabs |` {k. HasPrefix k p}"
    by (rule sys_inv_reopen [OF B idle_inv [OF inv, of rng], of bl'])
      (rule ne(1), rule ne(2), rule that)
  have last: "sys_world ?s = w" "sys_db ?s = db" "writers ?s = []" "comps ?s = []"
    by (simp_all add: idle_def)
  show ?thesis
    by (rule exI [of _ ?s], rule exI [of _ tabs], rule exI [of _ db'], unfold last, intro conjI allI)
       (rule sys_run_trans [OF r3 r2] refl inv lost n [unfolded last place lost])+
qed

theorem two_compactions_lose_writes_witness:
  "\<exists>s tabs (db' :: Entry list DB) tableMap. sys_run list_btree ordered_range False
      (idle (db_on list_btree ''w'' ''d'' three_tables) (world_on ''w'' ''d'' three_tables))
      ([''x'' \<mapsto> big] ++ [''y'' \<mapsto> big] ++ [''a'' \<mapsto> big]) s
    \<and> writers s = [] \<and> comps s = []
    \<and> db_inv list_btree (sys_world s) (sys_db s) tabs \<and> db_map list_btree (sys_db s) tabs ''a'' = Some ''1''
    \<and> SsTable_PrefixScan (ssTable db') ''a'' (sys_world s) = Inr tableMap
    \<and> (tableMap ++ Memtable_PrefixScan list_btree (memTable db') ''a'') ''a'' = Some ''1''"
proof -
  let ?db = "db_on list_btree ''w'' ''d'' three_tables" and ?w = "world_on ''w'' ''d'' three_tables"
  let ?M = "(db_map list_btree ?db three_tables)(''x'' \<mapsto> big) ++ [''y'' \<mapsto> big]"
  let ?kvs2 = "[(''a'', ''1''), (''b'', ''1''), (''c'', ''1''), (''x'', big), (''y'', big)]"
  let ?kvs3 = "[(''a'', big), (''b'', ''1''), (''c'', ''1''), (''x'', big), (''y'', big)]"
  have "\<forall>t \<in> set three_tables. table_ok (fst t) (snd t)"
    by (simp add: three_tables_def table_ok_def file_bytes_def file_index_def kv_bytes_def)
  then have inv: "db_inv list_btree ?w ?db three_tables"
    by (rule list_db_inv(1))
  have M: "?M = map_of ?kvs2"
    by (auto simp: three_tables_def sst_map_Cons db_map_def mt_abs_def Iterate_def
        NewMemtable_def list_btree_def fun_eq_iff)
  have side: "wal_path (wal ?db) \<noteq> ''''" "dataFilesDirectory (ssTable ?db) \<noteq> ''''"
    "\<not> compacting (ssTable ?db)" "3 \<le> length (firstLevelFiles (ssTable ?db))"
    "ShouldFlush (Memtable_Put list_btree ''x'' big (memTable ?db))"
    by (simp_all add: db_on_def big_fills tables_state_def table_names_def three_tables_def)
  have keys: "sorted_keys ?kvs2" "sorted_keys ?kvs3" "map_of ?kvs3 = ?M(''a'' \<mapsto> big)"
    unfolding M by (simp_all add: sorted_keys_def fun_eq_iff)
  have fits: "fits32 (length (file_bytes (blockLength (ssTable ?db)) ?kvs2))"
    "fits32 (length (file_bytes (blockLength (ssTable ?db)) ?kvs3))"
    using length_file_bytes [of "blockLength (ssTable ?db)" ?kvs2]
      length_file_bytes [of "blockLength (ssTable ?db)" ?kvs3] by simp_all
  have old: "?M ''a'' = Some ''1''"
    unfolding M by simp
  have lost: "\<exists>s tabs (db' :: Entry list DB). sys_run list_btree ordered_range False (idle ?db ?w)
        ([''x'' \<mapsto> big] ++ [''y'' \<mapsto> big] ++ [''a'' \<mapsto> big]) s
    \<and> writers s = [] \<and> comps s = []
    \<and> db_inv list_btree (sys_world s) (sys_db s) tabs \<and> db_map list_btree (sys_db s) tabs = ?M
    \<and> NewDB list_btree (same_place ?db 100) (sys_world s) =
      (case getTableNameVsSchemaMap list_btree db' (sys_world s) of
         Inl e \<Rightarrow> (Inl e, sys_world s)
       | Inr schemas \<Rightarrow> (Inr (db'\<lparr>tableNameVsSchemaMap := schemas\<rparr>), sys_world s))
    \<and> (\<forall>p. \<exists>tableMap. SsTable_PrefixScan (ssTable db') p (sys_world s) = Inr tableMap
        \<and> tableMap ++ Memtable_PrefixScan list_btree (memTable db') p = ?M |` {k. HasPrefix k p})"
    by (rule two_compactions_lose_writes [OF list_tree.btree_contract_axioms rng_ok_ordered_range inv side(1-4)
        _ _ side(5) _ _ _ _ _ _ refl _ keys(1) M [symmetric] keys(2,3) fits]) (use old in auto)
  then obtain s tabs and db' :: "Entry list DB" where r: "sys_run list_btree ordered_range False (idle ?db ?w)
        ([''x'' \<mapsto> big] ++ [''y'' \<mapsto> big] ++ [''a'' \<mapsto> big]) s" "writers s = []" "comps s = []"
    "db_inv list_btree (sys_world s) (sys_db s) tabs" "db_map list_btree (sys_db s) tabs = ?M"
    and scans: "\<forall>p. \<exists>tableMap. SsTable_PrefixScan (ssTable db') p (sys_world s) = Inr tableMap
        \<and> tableMap ++ Memtable_PrefixScan list_btree (memTable db') p = ?M |` {k. HasPrefix k p}"
    by (elim exE conjE) (rule that, assumption+)
  obtain tm where tm: "SsTable_PrefixScan (ssTable db') ''a'' (sys_world s) = Inr tm"
    "tm ++ Memtable_PrefixScan list_btree (memTable db') ''a'' = ?M |` {k. HasPrefix k ''a''}"
    using spec [OF scans, of "''a''"] by (elim exE conjE) (rule that, assumption+)
  have "db_map list_btree (sys_db s) tabs ''a'' = Some ''1''"
    unfolding r(5) by (rule old)
  moreover have "(tm ++ Memtable_PrefixScan list_btree (memTable db') ''a'') ''a'' = Some ''1''"
    unfolding tm(2) using old by (simp add: restrict_map_def)
  ultimately show ?thesis
    using r(1-4) tm(1) by (intro exI conjI)
qed

end
