(* ===== verification/Db_Scans.thy ===== *)
theory Db_Scans
  imports Db_Steps
begin

text \<open>
  Scans beside writers. \<open>fullTableScan\<close> and \<open>secondaryIndexPrefixScan\<close> of \<^verbatim>\<open>db/select.go\<close> take no
  lock of the database: they scan the memtable, and the tables later, so a put or a commit with its
  flush can run between the two reads. The order of the reads makes that harmless for all keys that
  are not being written.
\<close>

text \<open>The writes that are in the log and not yet in the memtable.\<close>

fun logged_by :: "wphase \<Rightarrow> (string \<times> string) list" where
  "logged_by (Logged kvs) = kvs"
| "logged_by _ = []"

definition pending :: "string \<Rightarrow> 't sys \<Rightarrow> bool" where
  "pending k s \<longleftrightarrow> (\<exists>writer \<in> set (writers s). k \<in> fst ` set (logged_by (snd writer)))"

definition only_in_tables :: "'t btree \<Rightarrow> string \<Rightarrow> 't sys \<Rightarrow> bool" where
  "only_in_tables B k s \<longleftrightarrow> mt_abs B (memTable (sys_db s)) k = None \<and> \<not> pending k s"

lemma pending_update:
  assumes "\<not> pending k s" and "logged_by ph = []" and "writers s' = (writers s)[i := (who, ph)]"
  shows "\<not> pending k s'"
proof
  assume "pending k s'"
  then obtain x where "x \<in> set ((writers s)[i := (who, ph)])" "k \<in> fst ` set (logged_by (snd x))"
    by (auto simp: pending_def assms(3))
  then have "x \<in> insert (who, ph) (set (writers s))"
    using set_update_subset_insert by fast
  with \<open>k \<in> fst ` set (logged_by (snd x))\<close> assms(1,2) show False
    by (auto simp: pending_def)
qed

lemma pending_drop:
  assumes "\<not> pending k s" and "writers s' = drop_nth i (writers s)"
  shows "\<not> pending k s'"
  using assms by (auto simp: pending_def drop_nth_def dest: in_set_takeD in_set_dropD)

lemma pending_same: "writers s' = writers s \<Longrightarrow> pending k s' \<longleftrightarrow> pending k s"
  by (simp add: pending_def)

context btree_contract
begin

lemma only_in_tables_step:
  assumes step: "sys_step B rng True s writes s'" and inv: "sys_inv B rng path dir m s"
    and k: "writes k = None" "only_in_tables B k s"
  shows "only_in_tables B k s'"
proof -
  have mt: "mt_inv B (memTable (sys_db s))"
    using inv by (simp add: sys_inv_def)
  have abs: "mt_abs B (memTable (sys_db s)) k = None" and p: "\<not> pending k s"
    using k(2) by (simp_all add: only_in_tables_def)
  show ?thesis
    using step
  proof cases
    case (log_put key val db' w')
    then have "memTable db' = memTable (sys_db s)" "k \<noteq> key"
      using k(1) by (auto simp: writeToWal_def split: prod.splits if_splits)
    then show ?thesis
      using abs p by (auto simp: only_in_tables_def log_put(2) pending_def)
  next
    case (log_commit ord1 txn ord2 db' w')
    then have "memTable db' = memTable (sys_db s)" "k \<notin> fst ` set (range_pairs ord2 (bufferedWriteMap txn))"
      using k(1) by (auto simp: writeSingleWalEntryForCommit_def range_pairs_def range_order_def split: prod.splits)
    then show ?thesis
      using abs p by (auto simp: only_in_tables_def log_commit(2) pending_def)
  next
    case (apply_writes i who kvs mt')
    have "k \<notin> fst ` set kvs"
      using p nth_mem [OF apply_writes(3)] unfolding apply_writes(4) pending_def
      by (auto dest!: bspec [of _ _ "(who, Logged kvs)"])
    then have "mt_abs B mt' k = None"
      using puts_all [OF mt, of kvs] abs
      by (auto simp: apply_writes(5) map_add_None map_of_eq_None_iff)
    then show ?thesis
      using pending_update [OF p, of "if ShouldFlush mt' then Full else Done" s' i who]
      by (simp add: only_in_tables_def apply_writes(2))
  next
    case (create_file i who f st' w')
    then show ?thesis
      using abs pending_update [OF p, of "Created f" s' i who] by (simp add: only_in_tables_def)
  next
    case (write_table i who f st' w')
    then show ?thesis
      using abs pending_update [OF p, of Tabled s' i who] by (simp add: only_in_tables_def)
  next
    case (check_compaction i who n)
    then show ?thesis
      using abs pending_update [OF p, of Checked s' i who] by (simp add: only_in_tables_def)
  next
    case (clear i who wl w')
    then show ?thesis
      using pending_update [OF p, of Done s' i who] by (simp add: only_in_tables_def)
  next
    case (finish_put i)
    then show ?thesis
      using abs pending_drop [OF p, of s' i] by (simp add: only_in_tables_def)
  next
    case (finish_txn i txn txn' db' w')
    then have "memTable db' = memTable (sys_db s)"
      by (auto simp: finish_commit_def split: sum.splits)
    then show ?thesis
      using abs pending_drop [OF p, of s' i] finish_txn(2) by (simp add: only_in_tables_def)
  qed (use abs p pending_same [of s' s k] in \<open>simp_all add: only_in_tables_def\<close>)
qed

lemma only_in_tables_run:
  assumes "sys_run B rng True s1 m s" and rng: "rng_ok rng" and inv: "sys_inv B rng path dir m1 s1"
    and "only_in_tables B k s1" and "m k = None"
  shows "only_in_tables B k s"
  using assms(1,5)
proof induction
  case start
  then show ?case
    using assms(4) by simp
next
  case (step m s writes s')
  then have "m k = None" "writes k = None"
    by simp_all
  then show ?case
    using only_in_tables_step [OF step.hyps(2) sys_run_inv [OF step.hyps(1) rng inv]] step.IH by blast
qed

text \<open>A key that is not being written has its value in the memtable or else in the tables.\<close>

lemma settled_key:
  assumes inv: "sys_inv B rng path dir m s" and "\<not> pending k s"
  obtains tabs where "lsm_inv rng (lsm_of s) tabs"
    and "m k = (sst_map tabs ++ mt_abs B (memTable (sys_db s))) k"
proof -
  obtain tabs cs where i: "length (writers s) \<le> 1" "lsm_inv rng (lsm_of s) tabs"
    "sst_map tabs ++ map_of (rev (log_writes cs)) = m"
    "writer_inv B (writers s) (memTable (sys_db s)) (map_of (rev (log_writes cs))) (sst_map tabs)"
    using inv by (rule sys_invE)
  let ?l = "map_of (rev (log_writes cs))" and ?a = "mt_abs B (memTable (sys_db s))"
  have "?l k = ?a k"
  proof (cases "writers s")
    case Nil
    then show ?thesis
      using i(4) by (simp add: writer_inv_def)
  next
    case (Cons w ws)
    then obtain who ph where w: "writers s = [(who, ph)]"
      using i(1) by (cases w) simp
    have "map_of (rev kvs) k = None" if "ph = Logged kvs" for kvs
      using assms(2) that by (simp add: pending_def w map_of_eq_None_iff image_def)
    moreover have "?a ++ map_of (rev kvs) = ?l" if "ph = Logged kvs" for kvs
      using i(4) that by (simp add: writer_inv_def w)
    ultimately show ?thesis
      using i(4) by (cases ph) (auto simp: writer_inv_def w map_add_def split: option.split dest: fun_cong [of _ _ k])
  qed
  then show ?thesis
    using that [OF i(2)] by (simp add: map_add_def flip: i(3))
qed

end

text \<open>The bytes of the files determine what the tables hold.\<close>

lemma stored_unique:
  assumes "rng_ok rng" and "calm w" and "stored w fs tabs" and "stored w fs tabs'"
  shows "sst_map tabs = sst_map tabs'"
  using compaction_build_stored [OF assms(2,3), of rng] compaction_build_stored [OF assms(2,4), of rng]
    merged_facts(1) [OF assms(1,3)] merged_facts(1) [OF assms(1,4)] by simp

context btree_contract
begin

lemma scan_value:
  assumes inv: "sys_inv B rng path dir m s1" and rng: "rng_ok rng" and run: "sys_run B rng True s1 m2 s2"
    and sst: "sst_inv (sys_world s2) (ssTable (sys_db s2)) tabs2"
    and k: "HasPrefix k p" "m2 k = None" "\<not> pending k s1"
  shows "((sst_map tabs2 |` {k. HasPrefix k p}) ++ Memtable_PrefixScan B (memTable (sys_db s1)) p) k = m k"
proof -
  have scan: "Memtable_PrefixScan B (memTable (sys_db s1)) p = mt_abs B (memTable (sys_db s1)) |` {k. HasPrefix k p}"
    using inv by (simp add: sys_inv_def PrefixScan_abs)
  obtain tabs1 where t1: "m k = (sst_map tabs1 ++ mt_abs B (memTable (sys_db s1))) k"
    using settled_key [OF inv k(3)] by blast
  show ?thesis
  proof (cases "mt_abs B (memTable (sys_db s1)) k")
    case (Some v)
    then show ?thesis
      using t1 k(1) by (simp add: scan map_add_def)
  next
    case None
    then have o: "only_in_tables B k s2"
      using only_in_tables_run [OF run rng inv _ k(2)] k(3) by (simp add: only_in_tables_def)
    obtain tabs where t: "lsm_inv rng (lsm_of s2) tabs"
      "(m ++ m2) k = (sst_map tabs ++ mt_abs B (memTable (sys_db s2))) k"
      using settled_key [OF sys_run_inv [OF run rng inv], of k] o by (auto simp: only_in_tables_def)
    have "disk_inv (sys_world s2) (ssTable (sys_db s2)) tabs"
      using lsm_invD(1) [OF t(1)] by (simp add: lsm_of_def)
    then have "sst_map tabs2 = sst_map tabs"
      using stored_unique [OF rng] sst by (auto simp: sst_inv_def disk_inv_def)
    then show ?thesis
      using t(2) o None k(1,2) by (simp add: scan map_add_def only_in_tables_def split: option.splits)
  qed
qed

end

text \<open>C12: A scan without locks is consistent beside a writer. Take any run of puts and commits with
  their flushes, one writer at a time, and let a scan read the memtable at one moment of it and the
  tables at a later one. For every key that no writer is writing between these moments, the scan sees
  exactly its value in the contents of the first moment: nothing is missed while a flush moves the
  pairs from the memtable to a table, and nothing old comes back. The offsets in memory must be
  those of the files, which a compaction breaks.\<close>

theorem scan_beside_writer:
  assumes "btree_contract B" and "rng_ok rng" and "db_inv B w0 db0 tabs0"
    and "sys_run B rng True (idle db0 w0) m1 s1" and "sys_run B rng True s1 m2 s2"
    and "sst_inv (sys_world s2) (ssTable (sys_db s2)) tabs2"
  shows "\<exists>tableMap. SsTable_PrefixScan (ssTable (sys_db s2)) p (sys_world s2) = Inr tableMap
    \<and> (\<forall>k. HasPrefix k p \<and> m2 k = None \<and> \<not> pending k s1 \<longrightarrow>
        (tableMap ++ Memtable_PrefixScan B (memTable (sys_db s1)) p) k = (db_map B db0 tabs0 ++ m1) k)"
proof -
  note inv = btree_contract.sys_run_inv [OF assms(1,4,2) idle_inv [OF assms(3)]]
  show ?thesis
    by (intro exI conjI allI impI, rule SsTable_PrefixScan_tables [OF assms(6)])
       (elim conjE, rule btree_contract.scan_value [OF assms(1) inv assms(2,5,6)])
qed

text \<open>The memtable is full at the first moment, and the second is after its flush.\<close>

theorem scan_beside_writer_witness:
  "\<exists>s1 s2 tableMap.
    sys_run list_btree ordered_range True (idle (db_on list_btree ''w'' ''d'' one_table) (world_on ''w'' ''d'' one_table))
      [''z'' \<mapsto> big] s1
    \<and> sys_run list_btree ordered_range True s1 Map.empty s2
    \<and> writers s1 = [(None, Full)] \<and> writers s2 = [(None, Done)]
    \<and> mt_abs list_btree (memTable (sys_db s2)) = Map.empty
    \<and> SsTable_PrefixScan (ssTable (sys_db s2)) '''' (sys_world s2) = Inr tableMap
    \<and> (tableMap ++ Memtable_PrefixScan list_btree (memTable (sys_db s1)) '''') ''z'' = Some big
    \<and> (tableMap ++ Memtable_PrefixScan list_btree (memTable (sys_db s1)) '''') ''A'' = Some ''1''"
proof -
  let ?db = "db_on list_btree ''w'' ''d'' one_table" and ?w = "world_on ''w'' ''d'' one_table"
  have inv: "db_inv list_btree ?w ?db one_table" and ix: "indexed (ssTable ?db) one_table"
    using list_db_inv [OF one_table_ok] by simp_all
  obtain cs where log: "files ?w (wal_path (wal ?db)) = Some (log_bytes cs)"
    using db_invD(6) [OF inv] by (auto simp: logged_def)
  obtain wl w1 c where wr: "writeToWal ''z'' big ?db ?w = (Inr (), ?db\<lparr>wal := wl\<rparr>, w1)"
    and w1: "w1 = ?w\<lparr>files := (files ?w)(wal_path (wal ?db) \<mapsto> c)\<rparr>" "wal_path wl = ''w''"
    using WriteEntry_calm [OF disk_invD(1) [OF db_invD(1) [OF inv]] log] by (simp add: writeToWal_def)
  let ?m = "puts list_btree [(''z'', big)] (memTable ?db)" and ?init = "idle ?db ?w"
  let ?s = "?init\<lparr>sys_db := ?db\<lparr>wal := wl\<rparr>, sys_world := w1, writers := [(None, Logged [(''z'', big)])]\<rparr>"
  let ?db1 = "?db\<lparr>wal := wl, memTable := ?m\<rparr>"
  define s1 where "s1 = \<lparr>sys_db = ?db1, sys_world = w1, writers = [(None :: Transaction option, Full)], comps = []\<rparr>"
  have r0: "sys_run list_btree ordered_range True ?init [''z'' \<mapsto> big] ?s"
    using sys_run_one [OF sys_step.log_put [of True ?init "''z''" big "?db\<lparr>wal := wl\<rparr>" w1]] wr
    by (simp add: idle_def)
  have "ShouldFlush ?m"
    by (simp add: db_on_def ShouldFlush_def NewMemtable_def Memtable_Put_def list_btree_def memtableSizeLimit_def)
  then have r1: "sys_run list_btree ordered_range True ?init [''z'' \<mapsto> big] s1"
    using sys_run_silent [OF r0, OF sys_step.apply_writes [of 0 ?s None "[(''z'', big)]" ?m]]
    by (simp add: s1_def idle_def)
  have "sys_inv list_btree ordered_range ''w'' ''d'' (db_map list_btree ?db one_table ++ [''z'' \<mapsto> big]) s1"
    using list_tree.sys_run_inv [OF r1 rng_ok_ordered_range idle_inv [OF inv]] by simp
  then have mt: "mt_inv list_btree ?m" "nonempty_keys (Iterate list_btree ?m)" "msize ?m < 2000000"
    by (auto simp: sys_inv_def writer_inv_def s1_def)
  have disk: "disk_inv w1 (ssTable ?db1) one_table"
    using disk_inv_other [OF db_invD(1,7) [OF inv]] by (simp add: w1(1))
  obtain db2 w2 t where f: "createSsTableAndClearWalAndMemTable list_btree ?db1 w1 = (Inr (), db2, w2)"
    "db_inv list_btree w2 db2 (one_table @ [t])" "mt_abs list_btree (memTable db2) = Map.empty"
    "indexed (ssTable ?db1) one_table \<Longrightarrow> indexed (ssTable db2) (one_table @ [t])"
    by (rule list_tree.flush_calm [of w1 ?db1 one_table])
       (use disk mt table_ok_flush [OF mt] db_invD(7) [OF inv] w1(2) in simp_all)
  define s2 where "s2 = \<lparr>sys_db = db2, sys_world = w2, writers = [(None :: Transaction option, Done)], comps = []\<rparr>"
  have r2: "sys_run list_btree ordered_range True s1 Map.empty s2"
    unfolding s2_def by (rule flush_by_steps [OF sys_run.start s1_def f(1)])
  have sst: "sst_inv (sys_world s2) (ssTable (sys_db s2)) (one_table @ [t])"
    using f(2,4) ix by (simp add: s2_def sst_inv_def db_inv_def)
  from scan_beside_writer [OF list_tree.btree_contract_axioms rng_ok_ordered_range inv r1 r2 sst, of "''''"]
  obtain tm where tm: "SsTable_PrefixScan (ssTable (sys_db s2)) '''' (sys_world s2) = Inr tm"
    "\<And>k. (tm ++ Memtable_PrefixScan list_btree (memTable (sys_db s1)) '''') k =
      (db_map list_btree ?db one_table ++ [''z'' \<mapsto> big]) k"
    by (auto simp: pending_def s1_def)
  have "db_map list_btree ?db one_table ''A'' = Some ''1''"
    by (simp add: db_map_def db_on_def mt_abs_def Iterate_def NewMemtable_def list_btree_def one_table_def sst_map_def)
  then have scan: "(tm ++ Memtable_PrefixScan list_btree (memTable (sys_db s1)) '''') ''z'' = Some big"
    "(tm ++ Memtable_PrefixScan list_btree (memTable (sys_db s1)) '''') ''A'' = Some ''1''"
    by (simp_all add: tm(2))
  have w: "writers s1 = [(None, Full)]" "writers s2 = [(None, Done)]"
    "mt_abs list_btree (memTable (sys_db s2)) = Map.empty"
    using f(3) by (simp_all add: s1_def s2_def)
  show ?thesis
    by (intro exI conjI) (rule r1 r2 w tm(1) scan)+
qed

end
