(* ===== verification/Db_Serial.thy ===== *)
theory Db_Serial
  imports Db_Txn
begin

text \<open>
  Transactions side by side on the whole database: \<open>Begin\<close>, \<open>Put\<close>, \<open>Get\<close>, \<open>Commit\<close> and
  \<open>Rollback\<close> of \<^verbatim>\<open>db/transaction.go\<close> as steps of any number of transactions, each step one call.
  The state also records what every transaction has done and the order of the commits; the
  locks make the calls equivalent to running the committed transactions one after another, in the
  order of their commits.
\<close>

subsection \<open>What transactions do\<close>

datatype txn_op =
    Reads string string
  | Writes string string

text \<open>A missing key reads as the empty string.\<close>

definition value_of :: "(string \<rightharpoonup> string) \<Rightarrow> string \<Rightarrow> string" where
  "value_of m k = (case m k of Some v \<Rightarrow> v | None \<Rightarrow> '''')"

fun written :: "(string \<rightharpoonup> string) \<Rightarrow> txn_op list \<Rightarrow> string \<rightharpoonup> string" where
  "written b [] = b"
| "written b (Reads k v # ops) = written b ops"
| "written b (Writes k v # ops) = written (b(k \<mapsto> v)) ops"

text \<open>Running one transaction alone on contents \<open>m\<close> gives the recorded reads.\<close>

fun plays :: "(string \<rightharpoonup> string) \<Rightarrow> (string \<rightharpoonup> string) \<Rightarrow> txn_op list \<Rightarrow> bool" where
  "plays m b [] \<longleftrightarrow> True"
| "plays m b (Reads k v # ops) \<longleftrightarrow> v = value_of (m ++ b) k \<and> plays m b ops"
| "plays m b (Writes k v # ops) \<longleftrightarrow> plays m (b(k \<mapsto> v)) ops"

text \<open>Running a list of transactions one after another.\<close>

fun serial :: "(string \<rightharpoonup> string) \<Rightarrow> txn_op list list \<Rightarrow> bool" where
  "serial m [] \<longleftrightarrow> True"
| "serial m (ops # h) \<longleftrightarrow> plays m Map.empty ops \<and> serial (m ++ written Map.empty ops) h"

fun contents_after :: "(string \<rightharpoonup> string) \<Rightarrow> txn_op list list \<Rightarrow> string \<rightharpoonup> string" where
  "contents_after m [] = m"
| "contents_after m (ops # h) = contents_after (m ++ written Map.empty ops) h"

lemma written_snoc [simp]:
  "written b (ops @ [Reads k v]) = written b ops"
  "written b (ops @ [Writes k v]) = (written b ops)(k \<mapsto> v)"
  by (induction b ops rule: written.induct) simp_all

lemma plays_snoc [simp]:
  "plays m b (ops @ [Reads k v]) \<longleftrightarrow> plays m b ops \<and> v = value_of (m ++ written b ops) k"
  "plays m b (ops @ [Writes k v]) \<longleftrightarrow> plays m b ops"
  by (induction m b ops rule: plays.induct) auto

lemma serial_snoc [simp]:
  "serial m (h @ [ops]) \<longleftrightarrow> serial m h \<and> plays (contents_after m h) Map.empty ops"
  "contents_after m (h @ [ops]) = contents_after m h ++ written Map.empty ops"
  by (induction m h rule: serial.induct) auto

text \<open>Only the contents of the keys that are read matter.\<close>

lemma plays_other_keys:
  "(\<And>k v. Reads k v \<in> set ops \<Longrightarrow> m' k = m k) \<Longrightarrow> plays m' b ops \<longleftrightarrow> plays m b ops"
proof (induction m b ops rule: plays.induct)
  case (2 m b k v ops)
  have "m' k = m k"
    by (rule "2.prems" [of k v]) simp
  then have "value_of (m' ++ b) k = value_of (m ++ b) k"
    by (cases "b k") (simp_all add: value_of_def map_add_def)
  moreover have "plays m' b ops = plays m b ops"
    by (rule "2.IH") (use "2.prems" in auto)
  ultimately show ?case
    by simp
qed simp_all

subsection \<open>The steps\<close>

record 't txn_sys =
  tdb :: "'t DB"
  tworld :: world
  active :: "64 word \<rightharpoonup> Transaction"
  done_ops :: "64 word \<Rightarrow> txn_op list"
  committed :: "txn_op list list"

text \<open>A \<open>Get\<close> that fails in the tables has taken its lock all the same. Keys and values are not
  empty, and the record of a commit fits the limit of the reader.\<close>

inductive txn_step :: "'t btree \<Rightarrow> 't txn_sys \<Rightarrow> 't txn_sys \<Rightarrow> bool" for B :: "'t btree" where
  begin_txn:
    "nextTransactionId (txnManager (tdb s)) \<noteq> 0 \<Longrightarrow> Begin (txnManager (tdb s)) = (txn, tm) \<Longrightarrow>
     txn_step B s (s\<lparr>tdb := (tdb s)\<lparr>txnManager := tm\<rparr>, active := (active s)(txn_id txn \<mapsto> txn),
       done_ops := (done_ops s)(txn_id txn := [])\<rparr>)"
| put:
    "active s t = Some txn \<Longrightarrow> k \<noteq> '''' \<Longrightarrow> v \<noteq> '''' \<Longrightarrow>
     Txn_Put k v txn (txnManager (tdb s)) = Inr (txn', tm) \<Longrightarrow>
     txn_step B s (s\<lparr>tdb := (tdb s)\<lparr>txnManager := tm\<rparr>, active := (active s)(t \<mapsto> txn'),
       done_ops := (done_ops s)(t := done_ops s t @ [Writes k v])\<rparr>)"
| get:
    "active s t = Some txn \<Longrightarrow> Txn_Get B k txn (tdb s) (tworld s) = (Inr v, txn', db') \<Longrightarrow>
     txn_step B s (s\<lparr>tdb := db', active := (active s)(t \<mapsto> txn'),
       done_ops := (done_ops s)(t := done_ops s t @ [Reads k v])\<rparr>)"
| get_fails:
    "active s t = Some txn \<Longrightarrow> Txn_Get B k txn (tdb s) (tworld s) = (Inl e, txn', db') \<Longrightarrow>
     txn_step B s (s\<lparr>tdb := db', active := (active s)(t \<mapsto> txn')\<rparr>)"
| commit:
    "active s t = Some txn \<Longrightarrow>
     range_order ord1 (bufferedWriteMap txn) \<Longrightarrow> range_order ord2 (bufferedWriteMap txn) \<Longrightarrow>
     length (serialiseTransactionCommitPayload ord1 (bufferedWriteMap txn)) \<le> 1000000 \<Longrightarrow>
     Commit B ord1 ord2 txn (tdb s) (tworld s) = (Inr (), txn', db', w') \<Longrightarrow>
     txn_step B s (s\<lparr>tdb := db', tworld := w', active := (active s)(t \<mapsto> txn'),
       done_ops := (done_ops s)(t := []), committed := committed s @ [done_ops s t]\<rparr>)"
| rollback:
    "active s t = Some txn \<Longrightarrow> Rollback txn (txnManager (tdb s)) = Inr (txn', tm) \<Longrightarrow>
     txn_step B s (s\<lparr>tdb := (tdb s)\<lparr>txnManager := tm\<rparr>, active := (active s)(t \<mapsto> txn'),
       done_ops := (done_ops s)(t := [])\<rparr>)"

inductive txn_run :: "'t btree \<Rightarrow> 't txn_sys \<Rightarrow> 't txn_sys \<Rightarrow> bool" for B :: "'t btree" and s0 :: "'t txn_sys" where
  start: "txn_run B s0 s0"
| step: "txn_run B s0 s \<Longrightarrow> txn_step B s s' \<Longrightarrow> txn_run B s0 s'"

definition no_txns :: "'t DB \<Rightarrow> world \<Rightarrow> 't txn_sys" where
  "no_txns db w = \<lparr>tdb = db, tworld = w, active = Map.empty, done_ops = (\<lambda>_. []), committed = []\<rparr>"

subsection \<open>Locks are kept\<close>

definition holds :: "64 word \<Rightarrow> string \<Rightarrow> transactionManager \<Rightarrow> bool" where
  "holds t k tm \<longleftrightarrow> writerTxnId (locks_of tm k) = t \<or> t \<in> set (readerTxnIds (locks_of tm k))"

lemma holds_put:
  assumes "Txn_Put key v txn tm = Inr (txn', tm')" and "txn_id txn \<noteq> 0" and "holds u k tm" and "u \<noteq> 0"
  shows "holds u k tm'"
proof -
  obtain txn1 where w: "tryAcquireWriteLock key txn tm = Inr (txn1, tm')"
    using assms(1) by (auto simp: Txn_Put_def split: sum.splits)
  note W = write_lock_Inr [OF w assms(2)]
  show ?thesis
  proof (cases "k = key")
    case True
    then show ?thesis
      using assms(3,4) W(1-4) by (auto simp: holds_def)
  next
    case False
    then show ?thesis
      using assms(3) W(5) by (simp add: holds_def)
  qed
qed

lemma holds_read:
  assumes "tryAcquireReadLock key txn tm = Inr (txn', tm')" and "holds u k tm"
  shows "holds u k tm'"
proof (cases "k = key")
  case True
  then show ?thesis
    using assms(2) read_lock_Inr(3,4) [OF assms(1)] by (auto simp: holds_def)
next
  case False
  then show ?thesis
    using assms(2) read_lock_Inr(7) [OF assms(1)] by (simp add: holds_def)
qed

lemma holds_finish:
  assumes "lock_inv \<lparr>manager = tm, txns = ts\<rparr>" and "ts t = Some txn" and "Rollback txn tm = Inr (txn', tm')"
    and "holds u k tm" and "u \<noteq> t"
  shows "holds u k tm'"
proof -
  have "locks_of tm' k = (unlocked t ^^ count_list (lockAcquiredKeys txn) k) (locks_of tm k)"
    using Rollback_Inr [OF assms(1), of t txn] assms(2,3) by auto
  then show ?thesis
    using assms(4,5) unlocked_readers [of "count_list (lockAcquiredKeys txn) k" t "locks_of tm k"]
    by (auto simp: holds_def unlocked_writer)
qed

text \<open>No other transaction holds a lock on a key that one has written.\<close>

lemma holds_excludes:
  assumes inv: "lock_inv \<lparr>manager = tm, txns = ts\<rparr>" and "ts t = Some txn" and "bufferedWriteMap txn k \<noteq> None"
    and "holds u k tm"
  shows "u = t"
proof -
  have "writerTxnId (locks_of tm k) = t" "t \<noteq> 0"
    using lock_invD(1,3) [OF inv] assms(2,3) by auto
  then show ?thesis
    using lock_invD(2) [OF inv, of k] assms(4) by (auto simp: holds_def)
qed

subsection \<open>The invariant\<close>

text \<open>A transaction's buffer is what it has written, everything it has read still holds in the
  committed contents, and it has a lock on every key that it has read.\<close>

definition txn_ok ::
    "(string \<rightharpoonup> string) \<Rightarrow> transactionManager \<Rightarrow> 64 word \<Rightarrow> Transaction \<Rightarrow> txn_op list \<Rightarrow> bool" where
  "txn_ok m tm t txn ops \<longleftrightarrow>
     bufferedWriteMap txn = written Map.empty ops \<and> plays m Map.empty ops
     \<and> (\<forall>k v. Reads k v \<in> set ops \<longrightarrow> holds t k tm)
     \<and> bufferedWriteMap txn '''' = None \<and> '''' \<notin> ran (bufferedWriteMap txn)"

definition txn_inv :: "'t btree \<Rightarrow> (string \<rightharpoonup> string) \<Rightarrow> 't txn_sys \<Rightarrow> bool" where
  "txn_inv B m0 s \<longleftrightarrow>
     (\<exists>tabs. db_inv B (tworld s) (tdb s) tabs \<and> indexed (ssTable (tdb s)) tabs
        \<and> db_map B (tdb s) tabs = contents_after m0 (committed s))
     \<and> '''' \<notin> ran (contents_after m0 (committed s)) \<and> serial m0 (committed s)
     \<and> lock_inv \<lparr>manager = txnManager (tdb s), txns = active s\<rparr>
     \<and> (\<forall>t txn. active s t = Some txn \<longrightarrow>
          txn_ok (contents_after m0 (committed s)) (txnManager (tdb s)) t txn (done_ops s t))"

lemma txn_okD:
  assumes "txn_ok m tm t txn ops"
  shows "bufferedWriteMap txn = written Map.empty ops" and "plays m Map.empty ops"
    and "Reads k v \<in> set ops \<Longrightarrow> holds t k tm"
    and "bufferedWriteMap txn '''' = None" and "'''' \<notin> ran (bufferedWriteMap txn)"
  using assms by (auto simp: txn_ok_def)

lemma txn_ok_fresh: "bufferedWriteMap txn = Map.empty \<Longrightarrow> txn_ok m tm t txn []"
  by (simp add: txn_ok_def)

lemma txn_ok_keep:
  assumes "txn_ok m tm t txn ops" and "\<And>k. holds t k tm \<Longrightarrow> holds t k tm'"
    and "\<And>k. holds t k tm \<Longrightarrow> m' k = m k"
  shows "txn_ok m' tm' t txn ops"
  using assms plays_other_keys [of ops m' m Map.empty] by (auto simp: txn_ok_def)

text \<open>A step of transaction \<open>t\<close>: the contents may change where no other transaction has a lock.\<close>

lemma txn_inv_update:
  assumes inv: "txn_inv B m0 s"
    and db: "db_inv B w' db' tabs'" "indexed (ssTable db') tabs'"
      "db_map B db' tabs' = contents_after m0 h'" "'''' \<notin> ran (contents_after m0 h')" "serial m0 h'"
    and locks: "lock_inv \<lparr>manager = txnManager db', txns = (active s)(t \<mapsto> txn')\<rparr>"
    and own: "txn_ok (contents_after m0 h') (txnManager db') t txn' ops'"
    and others: "\<And>u k. u \<noteq> t \<Longrightarrow> u \<noteq> 0 \<Longrightarrow> holds u k (txnManager (tdb s)) \<Longrightarrow>
      holds u k (txnManager db') \<and> contents_after m0 h' k = contents_after m0 (committed s) k"
    and s': "s' = s\<lparr>tdb := db', tworld := w', active := (active s)(t \<mapsto> txn'),
      done_ops := (done_ops s)(t := ops'), committed := h'\<rparr>"
  shows "txn_inv B m0 s'"
proof -
  have "txn_ok (contents_after m0 h') (txnManager db') u a (done_ops s u)"
    if u: "u \<noteq> t" "active s u = Some a" for u a
  proof -
    have "lock_inv \<lparr>manager = txnManager (tdb s), txns = active s\<rparr>"
      and ok: "txn_ok (contents_after m0 (committed s)) (txnManager (tdb s)) u a (done_ops s u)"
      using inv u by (auto simp: txn_inv_def)
    then have "u \<noteq> 0"
      using lock_invD(1) u(2) by fastforce
    then show ?thesis
      using others [OF u(1)] by (intro txn_ok_keep [OF ok]) auto
  qed
  then show ?thesis
    using db locks own by (auto simp: txn_inv_def s')
qed

lemma Txn_Get_cases:
  assumes "Txn_Get B k txn db w = (r, txn', db')"
  obtains e where "r = Inl e" and "txn' = txn" and "db' = db"
  | tm where "tryAcquireReadLock k txn (txnManager db) = Inr (txn', tm)" and "db' = db\<lparr>txnManager := tm\<rparr>"
      and "r = (case bufferedWriteMap txn' k of Some v \<Rightarrow> Inr v | None \<Rightarrow> DB_Get B k db' w)"
  using assms by (auto simp: Txn_Get_def Let_def split: sum.splits option.splits)

lemma manager_update:
  "db_inv B w db tabs \<Longrightarrow> db_inv B w (db\<lparr>txnManager := tm\<rparr>) tabs"
  "db_map B (db\<lparr>txnManager := tm\<rparr>) tabs = db_map B db tabs"
  by (simp_all add: db_inv_def db_map_def)

text \<open>Steps that leave the contents as they are.\<close>

lemma txn_inv_locks:
  assumes inv: "txn_inv B m0 s"
    and step: "lock_step \<lparr>manager = txnManager (tdb s), txns = active s\<rparr> t
      \<lparr>manager = tm, txns = (active s)(t \<mapsto> txn')\<rparr>"
    and own: "txn_ok (contents_after m0 (committed s)) tm t txn' ops'"
    and others: "\<And>u k. u \<noteq> t \<Longrightarrow> u \<noteq> 0 \<Longrightarrow> holds u k (txnManager (tdb s)) \<Longrightarrow> holds u k tm"
    and s': "s' = s\<lparr>tdb := (tdb s)\<lparr>txnManager := tm\<rparr>, active := (active s)(t \<mapsto> txn'),
      done_ops := (done_ops s)(t := ops')\<rparr>"
  shows "txn_inv B m0 s'"
proof -
  obtain tabs where "db_inv B (tworld s) (tdb s) tabs" "indexed (ssTable (tdb s)) tabs"
    "db_map B (tdb s) tabs = contents_after m0 (committed s)"
    and rest: "'''' \<notin> ran (contents_after m0 (committed s))" "serial m0 (committed s)"
      "lock_inv \<lparr>manager = txnManager (tdb s), txns = active s\<rparr>"
    using inv by (auto simp: txn_inv_def)
  then have d: "db_inv B (tworld s) ((tdb s)\<lparr>txnManager := tm\<rparr>) tabs"
    "indexed (ssTable ((tdb s)\<lparr>txnManager := tm\<rparr>)) tabs"
    "db_map B ((tdb s)\<lparr>txnManager := tm\<rparr>) tabs = contents_after m0 (committed s)"
    by (simp_all add: manager_update)
  show ?thesis
    by (rule txn_inv_update [OF inv d, where t = t and txn' = txn' and ops' = ops'])
       (use lock_step_inv [OF step rest(3)] own others rest(1,2) in \<open>auto simp: s'\<close>)
qed

lemma txn_inv_put:
  assumes inv: "txn_inv B m0 s" and t: "active s t = Some txn" and kv: "k \<noteq> ''''" "v \<noteq> ''''"
    and put: "Txn_Put k v txn (txnManager (tdb s)) = Inr (txn', tm)"
  shows "txn_inv B m0 (s\<lparr>tdb := (tdb s)\<lparr>txnManager := tm\<rparr>, active := (active s)(t \<mapsto> txn'),
    done_ops := (done_ops s)(t := done_ops s t @ [Writes k v])\<rparr>)"
proof -
  have locks: "lock_inv \<lparr>manager = txnManager (tdb s), txns = active s\<rparr>"
    and ok: "txn_ok (contents_after m0 (committed s)) (txnManager (tdb s)) t txn (done_ops s t)"
    using inv t by (auto simp: txn_inv_def)
  have id: "txn_id txn = t" "t \<noteq> 0"
    using lock_invD(1) [OF locks] t by auto
  have step: "lock_step \<lparr>manager = txnManager (tdb s), txns = active s\<rparr> t
      \<lparr>manager = tm, txns = (active s)(t \<mapsto> txn')\<rparr>"
    using lock_step.put [of "\<lparr>manager = txnManager (tdb s), txns = active s\<rparr>" t txn k v txn' tm] t put by simp
  obtain txn1 where w: "tryAcquireWriteLock k txn (txnManager (tdb s)) = Inr (txn1, tm)"
    and txn': "txn' = txn1\<lparr>bufferedWriteMap := (bufferedWriteMap txn1)(k \<mapsto> v)\<rparr>"
    using put by (auto simp: Txn_Put_def split: sum.splits)
  have buf: "bufferedWriteMap txn' = (bufferedWriteMap txn)(k \<mapsto> v)"
    using write_lock_Inr(6) [OF w] id by (simp add: txn')
  have ran: "'''' \<notin> ran ((bufferedWriteMap txn)(k \<mapsto> v))"
    using txn_okD(5) [OF ok] kv(2) by (auto simp: ran_def)
  have kept: "holds u j tm" if "holds u j (txnManager (tdb s))" "u \<noteq> 0" for u j
    using holds_put [OF put _ that] id by simp
  have "txn_ok (contents_after m0 (committed s)) tm t txn' (done_ops s t @ [Writes k v])"
    using txn_okD(1-4) [OF ok] kv(1) kept [of t] id(2) ran by (auto simp: txn_ok_def buf)
  then show ?thesis
    by (rule txn_inv_locks [OF inv step _ _ refl]) (rule kept)
qed

lemma txn_inv_get:
  assumes B: "btree_contract B" and inv: "txn_inv B m0 s" and t: "active s t = Some txn"
    and get: "Txn_Get B k txn (tdb s) (tworld s) = (r, txn', db')"
    and ops': "ops' = (case r of Inl _ \<Rightarrow> done_ops s t | Inr v \<Rightarrow> done_ops s t @ [Reads k v])"
  shows "txn_inv B m0 (s\<lparr>tdb := db', active := (active s)(t \<mapsto> txn'),
    done_ops := (done_ops s)(t := ops')\<rparr>)"
proof -
  let ?m = "contents_after m0 (committed s)"
  have locks: "lock_inv \<lparr>manager = txnManager (tdb s), txns = active s\<rparr>"
    and ok: "txn_ok ?m (txnManager (tdb s)) t txn (done_ops s t)"
    using inv t by (auto simp: txn_inv_def)
  have id: "txn_id txn = t"
    using lock_invD(1) [OF locks] t by auto
  from get show ?thesis
  proof (cases rule: Txn_Get_cases)
    case (1 e)
    then have "s\<lparr>tdb := db', active := (active s)(t \<mapsto> txn'), done_ops := (done_ops s)(t := ops')\<rparr> = s"
      using t by (simp add: ops' fun_upd_idem)
    then show ?thesis
      using inv by simp
  next
    case (2 tm)
    note R = read_lock_Inr [OF 2(1)]
    have step: "lock_step \<lparr>manager = txnManager (tdb s), txns = active s\<rparr> t
        \<lparr>manager = tm, txns = (active s)(t \<mapsto> txn')\<rparr>"
      using lock_step.read [of "\<lparr>manager = txnManager (tdb s), txns = active s\<rparr>" t txn k txn' tm] t 2(1)
      by simp
    obtain tabs where d: "db_inv B (tworld s) (tdb s) tabs" "indexed (ssTable (tdb s)) tabs"
      "db_map B (tdb s) tabs = ?m" "'''' \<notin> ran ?m"
      using inv by (auto simp: txn_inv_def)
    have st: "sst_inv (tworld s) (ssTable db') tabs" and mt: "mt_inv B (memTable db')"
      using db_invD(1,3) [OF d(1)] d(2) by (simp_all add: 2(2) sst_inv_def)
    have read: "v = value_of (?m ++ bufferedWriteMap txn) k" if "r = Inr v" for v
    proof (cases "bufferedWriteMap txn k")
      case None
      then have g: "DB_Get B k db' (tworld s) = Inr v"
        using 2(3) R(8) that by simp
      have "db_map B db' tabs = ?m"
        using d(3) by (simp add: 2(2) manager_update)
      then show ?thesis
        using DB_Get_Inr [OF B mt st g] d(4) None
        by (cases "?m k") (auto simp: value_of_def map_add_def dest: ranI)
    next
      case (Some v')
      then show ?thesis
        using 2(3) R(8) that by (simp add: value_of_def map_add_def)
    qed
    have "holds t j tm" if "Reads j v \<in> set ops'" for j v
      using that txn_okD(3) [OF ok] holds_read [OF 2(1)] R(1) id
      by (auto simp: ops' holds_def split: sum.splits)
    then have "txn_ok ?m tm t txn' ops'"
      using txn_okD(1,2,4,5) [OF ok] R(8) read by (auto simp: txn_ok_def ops' split: sum.splits)
    then show ?thesis
      unfolding 2(2) by (rule txn_inv_locks [OF inv step _ _ refl]) (use holds_read [OF 2(1)] in auto)
  qed
qed

lemma txn_inv_begin:
  assumes inv: "txn_inv B m0 s" and cnt: "nextTransactionId (txnManager (tdb s)) \<noteq> 0"
    and beg: "Begin (txnManager (tdb s)) = (txn, tm)"
  shows "txn_inv B m0 (s\<lparr>tdb := (tdb s)\<lparr>txnManager := tm\<rparr>, active := (active s)(txn_id txn \<mapsto> txn),
    done_ops := (done_ops s)(txn_id txn := [])\<rparr>)"
proof -
  have step: "lock_step \<lparr>manager = txnManager (tdb s), txns = active s\<rparr> (txn_id txn)
      \<lparr>manager = tm, txns = (active s)(txn_id txn \<mapsto> txn)\<rparr>"
    using lock_step.begin_txn [of "\<lparr>manager = txnManager (tdb s), txns = active s\<rparr>" txn tm] cnt beg by simp
  have "txn_ok (contents_after m0 (committed s)) tm (txn_id txn) txn []"
    using beg by (intro txn_ok_fresh) (auto simp: Begin_def)
  then show ?thesis
    by (rule txn_inv_locks [OF inv step _ _ refl]) (use beg in \<open>auto simp: Begin_def holds_def\<close>)
qed

lemma txn_inv_rollback:
  assumes inv: "txn_inv B m0 s" and t: "active s t = Some txn"
    and rb: "Rollback txn (txnManager (tdb s)) = Inr (txn', tm)"
  shows "txn_inv B m0 (s\<lparr>tdb := (tdb s)\<lparr>txnManager := tm\<rparr>, active := (active s)(t \<mapsto> txn'),
    done_ops := (done_ops s)(t := [])\<rparr>)"
proof -
  have locks: "lock_inv \<lparr>manager = txnManager (tdb s), txns = active s\<rparr>"
    using inv by (simp add: txn_inv_def)
  have step: "lock_step \<lparr>manager = txnManager (tdb s), txns = active s\<rparr> t
      \<lparr>manager = tm, txns = (active s)(t \<mapsto> txn')\<rparr>"
    using lock_step.finish [of "\<lparr>manager = txnManager (tdb s), txns = active s\<rparr>" t txn txn' tm] t rb by simp
  have "txn_ok (contents_after m0 (committed s)) tm t txn' []"
    using Rollback_Inr [OF locks, of t txn] t rb by (intro txn_ok_fresh) auto
  then show ?thesis
    by (rule txn_inv_locks [OF inv step _ _ refl]) (rule holds_finish [OF locks t rb])
qed

text \<open>A commit changes only keys on which no other transaction has a lock.\<close>

lemma txn_inv_commit:
  assumes B: "btree_contract B" and inv: "txn_inv B m0 s" and t: "active s t = Some txn"
    and ord: "range_order ord1 (bufferedWriteMap txn)" "range_order ord2 (bufferedWriteMap txn)"
    and fits: "length (serialiseTransactionCommitPayload ord1 (bufferedWriteMap txn)) \<le> 1000000"
    and commit: "Commit B ord1 ord2 txn (tdb s) (tworld s) = (Inr (), txn', db', w')"
  shows "txn_inv B m0 (s\<lparr>tdb := db', tworld := w', active := (active s)(t \<mapsto> txn'),
    done_ops := (done_ops s)(t := []), committed := committed s @ [done_ops s t]\<rparr>)"
proof -
  let ?m = "contents_after m0 (committed s)" and ?buf = "bufferedWriteMap txn"
  have locks: "lock_inv \<lparr>manager = txnManager (tdb s), txns = active s\<rparr>"
    and ok: "txn_ok ?m (txnManager (tdb s)) t txn (done_ops s t)"
    and m: "'''' \<notin> ran ?m" "serial m0 (committed s)"
    using inv t by (auto simp: txn_inv_def)
  obtain tabs where d: "db_inv B (tworld s) (tdb s) tabs" "indexed (ssTable (tdb s)) tabs"
    "db_map B (tdb s) tabs = ?m"
    using inv by (auto simp: txn_inv_def)
  have keys: "\<forall>k \<in> set (lockAcquiredKeys txn). keyVsLocksAcquiredMap (txnManager (tdb s)) k \<noteq> None"
    using lock_invD(4) [OF locks] t by (auto simp: domIff)
  obtain txn2 db2 w2 tabs' where C: "Commit B ord1 ord2 txn (tdb s) (tworld s) = (Inr (), txn2, db2, w2)"
    "db_inv B w2 db2 tabs'" "db_map B db2 tabs' = db_map B (tdb s) tabs ++ ?buf" "bufferedWriteMap txn2 = Map.empty"
    "indexed (ssTable (tdb s)) tabs \<Longrightarrow> indexed (ssTable db2) tabs'"
    "Rollback txn (txnManager (tdb s)) = Inr (txn2, txnManager db2)"
    by (rule Commit_calm [OF B d(1) ord txn_okD(4) [OF ok] fits keys]) blast
  have same: "txn2 = txn'" "db2 = db'" "w2 = w'"
    using C(1) commit by simp_all
  note c = C(2) [unfolded same] C(3) [unfolded same d(3)] C(4) [unfolded same] C(5) [OF d(2), unfolded same]
    C(6) [unfolded same]
  have after: "contents_after m0 (committed s @ [done_ops s t]) = ?m ++ ?buf"
    using txn_okD(1) [OF ok] by simp
  have step: "lock_step \<lparr>manager = txnManager (tdb s), txns = active s\<rparr> t
      \<lparr>manager = txnManager db', txns = (active s)(t \<mapsto> txn')\<rparr>"
    using lock_step.finish [of "\<lparr>manager = txnManager (tdb s), txns = active s\<rparr>" t txn txn' "txnManager db'"] t c(5)
    by simp
  show ?thesis
  proof (rule txn_inv_update [OF inv c(1,4) _ _ _ _ _ _ refl])
    show "db_map B db' tabs' = contents_after m0 (committed s @ [done_ops s t])"
      by (simp only: after c(2))
    show "'''' \<notin> ran (contents_after m0 (committed s @ [done_ops s t]))"
      unfolding after using m(1) txn_okD(5) [OF ok] by (auto simp: ran_def map_add_def split: option.splits)
    show "serial m0 (committed s @ [done_ops s t])"
      using m(2) txn_okD(2) [OF ok] by simp
    show "lock_inv \<lparr>manager = txnManager db', txns = (active s)(t \<mapsto> txn')\<rparr>"
      by (rule lock_step_inv [OF step locks])
    show "txn_ok (contents_after m0 (committed s @ [done_ops s t])) (txnManager db') t txn' []"
      by (rule txn_ok_fresh [OF c(3)])
    fix u k assume u: "u \<noteq> t" "holds u k (txnManager (tdb s))"
    then have "?buf k = None"
      using holds_excludes [OF locks t _ u(2)] by blast
    then show "holds u k (txnManager db')
        \<and> contents_after m0 (committed s @ [done_ops s t]) k = ?m k"
      unfolding after using holds_finish [OF locks t c(5) u(2,1)] by (simp add: map_add_def)
  qed
qed

lemma txn_step_inv:
  assumes "txn_step B s s'" and "btree_contract B" and "txn_inv B m0 s"
  shows "txn_inv B m0 s'"
  using assms(1)
proof cases
  case (begin_txn txn tm)
  then show ?thesis
    using txn_inv_begin [OF assms(3)] by simp
next
  case (put t txn k v txn' tm)
  then show ?thesis
    using txn_inv_put [OF assms(3)] by simp
next
  case (get t txn k v txn' db')
  then show ?thesis
    using txn_inv_get [OF assms(2,3) get(2,3) refl] by simp
next
  case (get_fails t txn k e txn' db')
  then show ?thesis
    using txn_inv_get [OF assms(2,3) get_fails(2,3) refl] by simp
next
  case (commit t txn ord1 ord2 txn' db' w')
  then show ?thesis
    using txn_inv_commit [OF assms(2,3)] by simp
next
  case (rollback t txn txn' tm)
  then show ?thesis
    using txn_inv_rollback [OF assms(3)] by simp
qed

lemma txn_run_inv:
  assumes "txn_run B s0 s" and "btree_contract B" and "txn_inv B m0 s0"
  shows "txn_inv B m0 s"
  using assms(1) by induction (use assms(2,3) txn_step_inv in blast)+

lemma txn_inv_start:
  assumes "db_inv B w db tabs" and "indexed (ssTable db) tabs" and "'''' \<notin> ran (db_map B db tabs)"
    and "txnManager db = manager lock_start"
  shows "txn_inv B (db_map B db tabs) (no_txns db w)"
proof -
  have "lock_inv \<lparr>manager = txnManager db, txns = Map.empty\<rparr>"
    using lock_reachable_inv [OF lock_reachable.start] by (simp add: assms(4) lock_start_def)
  then show ?thesis
    using assms by (auto simp: txn_inv_def no_txns_def)
qed

subsection \<open>Transactions are serializable\<close>

text \<open>C3: Transactions are serializable, in the order of their commits. Let any number of transactions
  interleave their calls in any way, some ending in a rollback. Then the committed ones, run alone
  and one after another in the order of their commits, read exactly what they have read, and
  leave exactly the contents that the database has now. What the unfinished ones have read is
  still true, too. Values must not be empty, since \<open>Get\<close> takes the empty value for a missing one;
  compactions are left out, since their stale offsets break lookups, and so are writes that take no
  locks.\<close>

theorem txns_serializable:
  assumes "btree_contract B" and "db_inv B w0 db0 tabs0" and "indexed (ssTable db0) tabs0"
    and "'''' \<notin> ran (db_map B db0 tabs0)" and "txnManager db0 = manager lock_start"
    and "txn_run B (no_txns db0 w0) s" and "m = contents_after (db_map B db0 tabs0) (committed s)"
  shows "serial (db_map B db0 tabs0) (committed s)
    \<and> (\<exists>tabs. db_inv B (tworld s) (tdb s) tabs \<and> db_map B (tdb s) tabs = m)
    \<and> (\<forall>t txn. active s t = Some txn \<longrightarrow> plays m Map.empty (done_ops s t)
        \<and> bufferedWriteMap txn = written Map.empty (done_ops s t))"
proof -
  have "txn_inv B (db_map B db0 tabs0) s"
    by (rule txn_run_inv [OF assms(6,1) txn_inv_start [OF assms(2-5)]])
  then show ?thesis
    by (auto simp: txn_inv_def txn_ok_def assms(7))
qed

text \<open>Two transactions read \<open>A\<close>; the first one writes \<open>B\<close> and commits while the second is open.\<close>

theorem txns_serializable_witness:
  "\<exists>s. txn_run list_btree (no_txns (db_on list_btree ''w'' ''d'' one_table) (world_on ''w'' ''d'' one_table)) s
    \<and> committed s = [[Reads ''A'' ''1'', Writes ''B'' ''2'']]
    \<and> done_ops s 2 = [Reads ''A'' ''1''] \<and> active s 2 \<noteq> None
    \<and> serial (db_map list_btree (db_on list_btree ''w'' ''d'' one_table) one_table) (committed s)
    \<and> (\<exists>tabs. db_inv list_btree (tworld s) (tdb s) tabs
        \<and> db_map list_btree (tdb s) tabs = [''A'' \<mapsto> ''1'', ''B'' \<mapsto> ''2''])"
proof -
  let ?db = "db_on list_btree ''w'' ''d'' one_table" and ?w = "world_on ''w'' ''d'' one_table"
  let ?read1 = "\<lparr>writerTxnId = 0, readerTxnIds = [1]\<rparr>" and ?read12 = "\<lparr>writerTxnId = 0, readerTxnIds = [1, 2]\<rparr>"
    and ?writes1 = "\<lparr>writerTxnId = 1, readerTxnIds = []\<rparr>"
  let ?on = "\<lambda>n locks. ?db\<lparr>txnManager := \<lparr>nextTransactionId = n, keyVsLocksAcquiredMap = locks\<rparr>\<rparr>"
  let ?txn = "\<lambda>t buf keys. \<lparr>txn_id = t, bufferedWriteMap = buf, lockAcquiredKeys = keys\<rparr> :: Transaction"
  let ?sys = "\<lambda>n locks ts ops. \<lparr>tdb = ?on n locks, tworld = ?w, active = ts, done_ops = ops, committed = []\<rparr>"
  have inv: "db_inv list_btree ?w ?db one_table" and ix: "indexed (ssTable ?db) one_table"
    using list_db_inv [OF one_table_ok] by simp_all
  have contents: "db_map list_btree ?db one_table = [''A'' \<mapsto> ''1'']"
    by (simp add: db_map_def db_on_def mt_abs_def Iterate_def NewMemtable_def list_btree_def one_table_def sst_map_def)
  have mgr: "txnManager ?db = manager lock_start"
    by (simp add: db_on_def lock_start_def)
  have get: "DB_Get list_btree ''A'' (?on n locks) ?w = Inr ''1''" for n locks
  proof -
    have "sst_inv ?w (ssTable (?on n locks)) one_table" "mt_inv list_btree (memTable (?on n locks))"
      using db_invD(1,3) [OF inv] ix by (simp_all add: sst_inv_def)
    then show ?thesis
      using DB_Get_tables [OF list_tree.btree_contract_axioms]
      by (simp add: NewMemtable_def mt_abs_def Iterate_def list_btree_def one_table_def file_get_def)
  qed
  have "?db = ?on 1 Map.empty"
    by (simp add: db_on_def)
  then have r0: "txn_run list_btree (no_txns ?db ?w) (?sys 1 Map.empty Map.empty (\<lambda>_. []))"
    using txn_run.start [of list_btree "no_txns ?db ?w"] by (simp add: no_txns_def)
  let ?ops1 = "(\<lambda>_. [])(1 := [])" and ?ops2 = "(\<lambda>_. [])(1 := [Reads ''A'' ''1''])"
  let ?ops4 = "?ops2(2 := [Reads ''A'' ''1''])"
  let ?ops5 = "?ops4(1 := [Reads ''A'' ''1'', Writes ''B'' ''2''])"
  let ?t1 = "?txn 1 Map.empty [''A'']" and ?t1w = "?txn 1 [''B'' \<mapsto> ''2''] [''A'', ''B'']"
    and ?t2 = "?txn 2 Map.empty [''A'']"
  have r1: "txn_run list_btree (no_txns ?db ?w) (?sys 2 Map.empty [1 \<mapsto> ?txn 1 Map.empty []] ?ops1)"
    using txn_run.step [OF r0 txn_step.begin_txn] by (simp add: Begin_def)
  have r2: "txn_run list_btree (no_txns ?db ?w) (?sys 2 [''A'' \<mapsto> ?read1] [1 \<mapsto> ?t1] ?ops2)"
    using txn_run.step [OF r1 txn_step.get [of _ 1 "?txn 1 Map.empty []" list_btree "''A''"]] get
    by (simp add: Txn_Get_def tryAcquireReadLock_def)
  have r3: "txn_run list_btree (no_txns ?db ?w)
      (?sys 3 [''A'' \<mapsto> ?read1] [1 \<mapsto> ?t1, 2 \<mapsto> ?txn 2 Map.empty []] (?ops2(2 := [])))"
    using txn_run.step [OF r2 txn_step.begin_txn] by (simp add: Begin_def)
  have r4: "txn_run list_btree (no_txns ?db ?w) (?sys 3 [''A'' \<mapsto> ?read12] [1 \<mapsto> ?t1, 2 \<mapsto> ?t2] ?ops4)"
    using txn_run.step [OF r3 txn_step.get [of _ 2 "?txn 2 Map.empty []" list_btree "''A''"]] get
    by (simp add: Txn_Get_def tryAcquireReadLock_def)
  have r5: "txn_run list_btree (no_txns ?db ?w)
      (?sys 3 [''A'' \<mapsto> ?read12, ''B'' \<mapsto> ?writes1] [1 \<mapsto> ?t1w, 2 \<mapsto> ?t2] ?ops5)"
    using txn_run.step [OF r4 txn_step.put [of _ 1 ?t1 "''B''" "''2''"]]
    by (simp add: Txn_Put_def tryAcquireWriteLock_def fun_upd_twist)
  let ?s5 = "?sys 3 [''A'' \<mapsto> ?read12, ''B'' \<mapsto> ?writes1] [1 \<mapsto> ?t1w, 2 \<mapsto> ?t2] ?ops5"
  have order: "range_order [''B''] (bufferedWriteMap ?t1w)"
    by (simp add: range_order_def)
  have fits: "length (serialiseTransactionCommitPayload [''B''] (bufferedWriteMap ?t1w)) \<le> 1000000"
    by (simp add: serialiseTransactionCommitPayload_payload txn_commands_def range_pairs_def put_bytes_def)
  have inv5: "db_inv list_btree ?w (tdb ?s5) one_table"
    using inv by (simp add: manager_update)
  obtain txn' db' w' where commit: "Commit list_btree [''B''] [''B''] ?t1w (tdb ?s5) ?w = (Inr (), txn', db', w')"
    by (rule Commit_calm [OF list_tree.btree_contract_axioms inv5 order order _ fits]) simp_all
  let ?s6 = "?s5\<lparr>tdb := db', tworld := w', active := (active ?s5)(1 \<mapsto> txn'),
    done_ops := (done_ops ?s5)(1 := []), committed := committed ?s5 @ [done_ops ?s5 1]\<rparr>"
  have r6: "txn_run list_btree (no_txns ?db ?w) ?s6"
    by (rule txn_run.step [OF r5 txn_step.commit [OF _ order order fits]]) (use commit in simp_all)
  have done6: "committed ?s6 = [[Reads ''A'' ''1'', Writes ''B'' ''2'']]" "done_ops ?s6 2 = [Reads ''A'' ''1'']"
    "active ?s6 2 \<noteq> None"
    by simp_all
  have "'''' \<notin> ran (db_map list_btree ?db one_table)"
    by (simp add: contents)
  from txns_serializable [OF list_tree.btree_contract_axioms inv ix this mgr r6 refl]
  have "serial (db_map list_btree ?db one_table) (committed ?s6)"
    and "\<exists>tabs. db_inv list_btree (tworld ?s6) (tdb ?s6) tabs
      \<and> db_map list_btree (tdb ?s6) tabs = [''A'' \<mapsto> ''1'', ''B'' \<mapsto> ''2'']"
    unfolding done6(1) contents by simp_all
  then show ?thesis
    by (intro exI [of _ ?s6] conjI r6 done6)
qed

end
