(* ===== verification/Sstable_Linear.thy ===== *)
theory Sstable_Linear
  imports Sstable
begin

text \<open>
  \<^verbatim>\<open>sstable/sstable.go\<close> with the switch \<open>skipIndex\<close>, which the benchmarks turn on: no index
  is written or built, and \<open>Get\<close> searches the files as lines of text. \<open>linearSearchFile\<close> reads
  with \<open>file.Read\<close>, so it matters where the handle stands: at the start after opening, and at the
  end after a write in append mode and after a complete read.
\<close>

record linear_set = SsTable +
  positions :: "string \<Rightarrow> nat"

subsection \<open>Operations\<close>

text \<open>\<open>file.Read\<close> into a buffer of \<open>n\<close> zero bytes: the buffer, the error, and the new position.\<close>

definition file_Read :: "string \<Rightarrow> nat \<Rightarrow> nat \<Rightarrow> world \<Rightarrow> bytes \<times> goerr option \<times> nat" where
  "file_Read path pos n w = (case files w path of
     None \<Rightarrow> (replicate n (CHR 0x00), Some SysErr, pos)
   | Some c \<Rightarrow>
       if n = 0 then ([], None, pos)
       else if unreadable w path then (replicate n (CHR 0x00), Some SysErr, pos)
       else let got = take n (drop pos c) in
         (got @ replicate (n - length got) (CHR 0x00),
          if got = [] then Some EOF else None, pos + length got))"

definition NewSsTable_linear :: "sstable_Config \<Rightarrow> world \<Rightarrow> (goerr + linear_set) \<times> world" where
  "NewSsTable_linear config w =
     (let dir = (if DataFilesDirectory config = '''' then ''data_files_sstable''
                 else DataFilesDirectory config);
          bl = (if BlockLength config = 0 then 100 else BlockLength config) in
      case getDirectoryMetadata dir w of
        (Inl e, w') \<Rightarrow> (Inl e, w')
      | (Inr (fs, m), w') \<Rightarrow>
          (Inr \<lparr>dataFilesDirectory = dir, firstLevelFiles = fs, indexOffsets = [],
                blockLength = bl, indexBlocks = [], st_manifest = m,
                compacting = False, positions = (\<lambda>_. 0)\<rparr>, w'))"

definition writeToFile_linear ::
    "string \<Rightarrow> int \<Rightarrow> (string \<times> string) list \<Rightarrow> world \<Rightarrow> (goerr + nat) \<times> world" where
  "writeToFile_linear file stBlockLength kvs w =
     (case writeDataBlocks file stBlockLength kvs w of
        ((indexOffset, _, Some e), w') \<Rightarrow> (Inl e, w')
      | ((indexOffset, _, None), w') \<Rightarrow> (Inr indexOffset, w'))"

text \<open>Where the handle stands after the writes; a file that did not grow was not written.\<close>

definition moved :: "string \<Rightarrow> world \<Rightarrow> world \<Rightarrow> (string \<Rightarrow> nat) \<Rightarrow> string \<Rightarrow> nat" where
  "moved file w w' pos =
     (case files w' file of
        Some c \<Rightarrow> if files w file = Some c then pos else pos(file := length c)
      | None \<Rightarrow> pos)"

definition Write_linear ::
    "string \<Rightarrow> (string \<times> string) list \<Rightarrow> linear_set \<Rightarrow> world \<Rightarrow> (goerr + unit) \<times> linear_set \<times> world" where
  "Write_linear file kvs st w =
     (case writeToFile_linear file (blockLength st) kvs w of
        (Inl e, w') \<Rightarrow> (Inl e, st\<lparr>positions := moved file w w' (positions st)\<rparr>, w')
      | (Inr indexOffset, w') \<Rightarrow>
          let st' = st\<lparr>firstLevelFiles := firstLevelFiles st @ [file],
                       st_manifest := (st_manifest st)
                         \<lparr>FileNames := FileNames (st_manifest st) @ [file]\<rparr>,
                       indexOffsets := indexOffsets st @ [indexOffset],
                       positions := moved file w w' (positions st)\<rparr>;
              (_, w'') = saveManifest (dataFilesDirectory st') (st_manifest st') w'
          in (Inr (), st', w''))"

fun search_entries :: "string \<Rightarrow> string list \<Rightarrow> goerr + string" where
  "search_entries key [] = Inr ''''"
| "search_entries key (payload # entries) =
     (let cmds = Split payload (CHR '' '') in
      if length cmds \<le> 1 then Inl index_panic
      else if cmds ! 1 = key then
        (if length cmds \<le> 2 then Inl index_panic else Inr (cmds ! 2))
      else search_entries key entries)"

definition linearSearchFile ::
    "string \<Rightarrow> string \<Rightarrow> (string \<Rightarrow> nat) \<Rightarrow> world \<Rightarrow> (goerr + string) \<times> (string \<Rightarrow> nat)" where
  "linearSearchFile file key pos w =
     (case Stat_Size file w of
        Inl _ \<Rightarrow> (Inl nil_panic, pos)
      | Inr fileSize \<Rightarrow>
          (case file_Read file (pos file) fileSize w of
             (buf, err, at') \<Rightarrow>
               (if err \<noteq> None \<and> err \<noteq> Some EOF then Inl (the err)
                else search_entries key (Split buf (CHR 0x0A)),
                pos(file := at'))))"

text \<open>The loop over the files, newest first.\<close>

fun linearSearch_files ::
    "string list \<Rightarrow> string \<Rightarrow> (string \<Rightarrow> nat) \<Rightarrow> world \<Rightarrow> (goerr + string) \<times> (string \<Rightarrow> nat)" where
  "linearSearch_files [] key pos w = (Inr '''', pos)"
| "linearSearch_files (file # fs) key pos w =
     (case linearSearchFile file key pos w of
        (Inl e, pos') \<Rightarrow> (Inl e, pos')
      | (Inr val, pos') \<Rightarrow>
          if val \<noteq> '''' then (Inr val, pos') else linearSearch_files fs key pos' w)"

definition linearSearch :: "string \<Rightarrow> linear_set \<Rightarrow> world \<Rightarrow> (goerr + string) \<times> linear_set" where
  "linearSearch key st w =
     (case linearSearch_files (rev (firstLevelFiles st)) key (positions st) w of
        (r, pos') \<Rightarrow> (r, st\<lparr>positions := pos'\<rparr>))"

subsection \<open>No table can be searched this way\<close>

lemma search_zeros: "search_entries key (Split (replicate n (CHR 0x00)) (CHR 0x0A)) = Inl index_panic"
  by (simp add: Split_free)

lemma Write_linear_calm:
  assumes "calm w" and "files w file = Some c" and "nonempty_keys kvs" and "kvs \<noteq> []"
    and "file \<noteq> manifestPath (dataFilesDirectory st)"
  obtains st' w' where "Write_linear file kvs st w = (Inr (), st', w')" and "calm w'"
    and "files w' file = Some (c @ data_bytes kvs)"
    and "positions st' file = length (c @ data_bytes kvs)"
    and "firstLevelFiles st' = firstLevelFiles st @ [file]"
proof -
  have "data_bytes kvs \<noteq> []"
    using assms(4) by (cases kvs) simp_all
  then show ?thesis
    using assms that
    by (simp add: Write_linear_def writeToFile_linear_def writeDataBlocks_calm saveManifest_calm moved_def)
qed

text \<open>The table files are binary, and their handles stand at the end: a lookup after a flush
  reads no byte, takes the zeros of its buffer for a line of one word, and panics at the missing
  second word, whatever the key.\<close>

theorem linear_search_panics:
  assumes "calm w" and "files w file = Some c" and "nonempty_keys kvs" and "kvs \<noteq> []"
    and "file \<noteq> manifestPath (dataFilesDirectory st)"
  shows "\<exists>st' w'. Write_linear file kvs st w = (Inr (), st', w')
    \<and> linearSearch key st' w' = (Inl index_panic, st')"
proof -
  obtain st' w' where W: "Write_linear file kvs st w = (Inr (), st', w')" "calm w'"
    "files w' file = Some (c @ data_bytes kvs)" "positions st' file = length (c @ data_bytes kvs)"
    "firstLevelFiles st' = firstLevelFiles st @ [file]"
    by (rule Write_linear_calm [OF assms])
  have ne: "data_bytes kvs \<noteq> []"
    using assms(4) by (cases kvs) simp_all
  let ?n = "length (c @ data_bytes kvs)"
  have "file_Read file ?n ?n w' = (replicate ?n (CHR 0x00), Some EOF, ?n)"
    using W(2,3) ne by (simp add: file_Read_def)
  then have "linearSearchFile file key (positions st') w' = (Inl index_panic, positions st')"
    using W(3,4) search_zeros [of key ?n]
    by (simp add: linearSearchFile_def Stat_Size_def fun_upd_idem)
  with W(1,5) show ?thesis
    by (simp add: linearSearch_def)
qed

theorem linear_search_panics_witness:
  "\<exists>st' w'. Write_linear ''d/0.log'' [(''a'', ''1'')]
      \<lparr>dataFilesDirectory = ''d'', firstLevelFiles = [], indexOffsets = [], blockLength = 100,
        indexBlocks = [], st_manifest = \<lparr>NextFileId = 1, FileNames = []\<rparr>, compacting = False,
        positions = (\<lambda>_. 0)\<rparr> (one_file ''d/0.log'' []) = (Inr (), st', w')
    \<and> linearSearch ''a'' st' w' = (Inl index_panic, st')"
  by (rule linear_search_panics) (simp_all add: nonempty_keys_def manifestPath_def)

end
