(* ===== verification/Sql_Tokens.thy ===== *)
theory Sql_Tokens
  imports Go_Prelude
begin

text \<open>
  \<^verbatim>\<open>sql_parser/tokeniser.go\<close>. The model is for queries in ASCII: then \<open>[]rune(input)\<close> has
  one rune for every byte, and \<open>unicode.IsSpace\<close>, \<open>IsDigit\<close> and \<open>IsLetter\<close> are the tests
  below. On other text the code reads runes of several bytes, some of which are letters, digits or
  spaces for it and none of which are here; a statement about characters that are not supported has
  the hypothesis \<open>ascii\<close>. \<open>spells\<close> says which tokens a text consists of; the lemmas show that the tokens of
  a printed list of tokens are that list again.
\<close>

datatype TokenType = IDENTIFIER | KEYWORD | SYMBOL | CONDITIONAL_OPERATOR | EOF_TOKEN

record Token =
  token_type :: TokenType
  token_value :: string

record Tokeniser =
  tinput :: string
  tpos :: nat

subsection \<open>Characters\<close>

definition IsSpace :: "char \<Rightarrow> bool" where
  "IsSpace c \<longleftrightarrow> c \<in> {CHR 0x09, CHR 0x0A, CHR 0x0B, CHR 0x0C, CHR 0x0D, CHR '' ''}"

abbreviation in_range :: "char \<Rightarrow> char \<Rightarrow> char \<Rightarrow> bool" where
  "in_range lo hi c \<equiv> lo \<le> c \<and> c \<le> hi"

abbreviation lower_case :: "char \<Rightarrow> bool" where
  "lower_case \<equiv> in_range (CHR ''a'') (CHR ''z'')"

definition IsLetter :: "char \<Rightarrow> bool" where
  "IsLetter c \<longleftrightarrow> lower_case c \<or> in_range (CHR ''A'') (CHR ''Z'') c"

definition alnum :: "char \<Rightarrow> bool" where
  "alnum c \<longleftrightarrow> is_digit c \<or> IsLetter c"

definition ToUpper :: "string \<Rightarrow> string" where
  "ToUpper s = map (\<lambda>c. if lower_case c then char_of (of_char c - 32 :: nat) else c) s"

text \<open>The characters on which the tests above are those of the package \<^verbatim>\<open>unicode\<close>.\<close>

definition ascii :: "char \<Rightarrow> bool" where
  "ascii c \<longleftrightarrow> (of_char c :: nat) < 128"

definition symbols :: string where
  "symbols = ''(),;*''"

definition conditionalOperators :: string where
  "conditionalOperators = ''<>=''"

definition sql_keywords :: "string list" where
  "sql_keywords = [''CREATE'', ''TABLE'', ''PRIMARY'', ''KEY'', ''INSERT'', ''INTO'', ''VALUES'',
     ''SELECT'', ''FROM'', ''WHERE'', ''AND'']"

subsection \<open>The next token\<close>

text \<open>The token at the start of an ASCII text that does not start with a space.\<close>

definition scan_token :: "string \<Rightarrow> Token" where
  "scan_token s =
     (if s = [] then \<lparr>token_type = EOF_TOKEN, token_value = ''''\<rparr>
      else if hd s \<in> set symbols then \<lparr>token_type = SYMBOL, token_value = [hd s]\<rparr>
      else if hd s \<in> set conditionalOperators
      then \<lparr>token_type = CONDITIONAL_OPERATOR,
            token_value = takeWhile (\<lambda>c. c \<in> set conditionalOperators) s\<rparr>
      else let val = takeWhile alnum s in
        \<lparr>token_type = (if ToUpper val \<in> set sql_keywords then KEYWORD else IDENTIFIER),
         token_value = val\<rparr>)"

definition NextToken :: "Tokeniser \<Rightarrow> Token \<times> Tokeniser" where
  "NextToken t =
     (let start = tpos t + length (takeWhile IsSpace (drop (tpos t) (tinput t)));
          token = scan_token (drop start (tinput t))
      in (token, t\<lparr>tpos := start + length (token_value token)\<rparr>))"

definition NewTokeniser :: "string \<Rightarrow> Tokeniser" where
  "NewTokeniser input = \<lparr>tinput = input, tpos = 0\<rparr>"

subsection \<open>Tokens and the text that is left\<close>

definition left :: "Tokeniser \<Rightarrow> string" where
  "left t = drop (tpos t) (tinput t)"

definition next_token :: "string \<Rightarrow> Token" where
  "next_token s = scan_token (dropWhile IsSpace s)"

definition rest_after :: "string \<Rightarrow> string" where
  "rest_after s = drop (length (token_value (next_token s))) (dropWhile IsSpace s)"

lemma NextToken_left:
  "fst (NextToken t) = next_token (left t)" "left (snd (NextToken t)) = rest_after (left t)"
  by (simp_all add: NextToken_def Let_def left_def next_token_def rest_after_def dropWhile_eq_drop
      add.commute add.left_commute)

lemma left_NewTokeniser [simp]: "left (NewTokeniser input) = input"
  by (simp add: left_def NewTokeniser_def)

lemma scan_token_prefix: "prefix (token_value (scan_token s)) s"
proof (cases s)
  case (Cons c cs)
  then show ?thesis
    by (auto simp: scan_token_def Let_def takeWhile_is_prefix)
qed (simp add: scan_token_def)

lemma length_rest_after: "length (rest_after s) + length (token_value (next_token s)) \<le> length s"
  using prefix_length_le [OF scan_token_prefix [of "dropWhile IsSpace s"]]
    length_dropWhile_le [of IsSpace s]
  by (simp add: rest_after_def next_token_def)

text \<open>\<open>spells s ts\<close>: the tokens of \<open>s\<close> begin with \<open>ts\<close>.\<close>

fun spells :: "string \<Rightarrow> Token list \<Rightarrow> bool" where
  "spells s [] \<longleftrightarrow> True"
| "spells s (t # ts) \<longleftrightarrow> next_token s = t \<and> spells (rest_after s) ts"

subsection \<open>Printing tokens\<close>

abbreviation Sym :: "string \<Rightarrow> Token" where
  "Sym v \<equiv> \<lparr>token_type = SYMBOL, token_value = v\<rparr>"

abbreviation Kw :: "string \<Rightarrow> Token" where
  "Kw v \<equiv> \<lparr>token_type = KEYWORD, token_value = v\<rparr>"

abbreviation Ident :: "string \<Rightarrow> Token" where
  "Ident v \<equiv> \<lparr>token_type = IDENTIFIER, token_value = v\<rparr>"

abbreviation Op :: "string \<Rightarrow> Token" where
  "Op v \<equiv> \<lparr>token_type = CONDITIONAL_OPERATOR, token_value = v\<rparr>"

definition is_identifier :: "string \<Rightarrow> bool" where
  "is_identifier v \<longleftrightarrow> v \<noteq> '''' \<and> (\<forall>c \<in> set v. alnum c) \<and> ToUpper v \<notin> set sql_keywords"

text \<open>The tokens that have a text.\<close>

fun lexeme :: "Token \<Rightarrow> bool" where
  "lexeme t = (case token_type t of
     IDENTIFIER \<Rightarrow> is_identifier (token_value t)
   | KEYWORD \<Rightarrow> (\<forall>c \<in> set (token_value t). alnum c) \<and> ToUpper (token_value t) \<in> set sql_keywords
   | SYMBOL \<Rightarrow> (\<exists>c \<in> set symbols. token_value t = [c])
   | CONDITIONAL_OPERATOR \<Rightarrow> token_value t \<noteq> '''' \<and> (\<forall>c \<in> set (token_value t). c \<in> set conditionalOperators)
   | EOF_TOKEN \<Rightarrow> False)"

definition print_tokens :: "Token list \<Rightarrow> string" where
  "print_tokens ts = concat (map (\<lambda>t. token_value t @ '' '') ts)"

lemma char_classes [simp]:
  "\<not> alnum (CHR '' '')" "CHR '' '' \<notin> set conditionalOperators" "IsSpace (CHR '' '')"
  by (simp_all add: alnum_def is_digit_def IsLetter_def conditionalOperators_def IsSpace_def less_eq_char_def)

lemma alnum_classes:
  assumes "alnum c"
  shows "\<not> IsSpace c" "c \<notin> set symbols" "c \<notin> set conditionalOperators"
  using assms
  by (auto simp: alnum_def is_digit_def IsLetter_def conditionalOperators_def symbols_def IsSpace_def less_eq_char_def)

lemma symbol_classes:
  "c \<in> set symbols \<Longrightarrow> \<not> IsSpace c"
  "c \<in> set conditionalOperators \<Longrightarrow> \<not> IsSpace c \<and> c \<notin> set symbols"
  by (auto simp: conditionalOperators_def symbols_def IsSpace_def)

lemma takeWhile_all_stop: "\<forall>c \<in> set v. P c \<Longrightarrow> \<not> P x \<Longrightarrow> takeWhile P (v @ x # s) = v"
  by (induction v) auto

text \<open>A token that is followed by a space is read back, whatever comes then.\<close>

lemma next_token_lexeme:
  assumes "lexeme t"
  shows "next_token (token_value t @ CHR '' '' # s) = t"
    and "rest_after (token_value t @ CHR '' '' # s) = CHR '' '' # s"
proof -
  let ?s = "token_value t @ CHR '' '' # s"
  have scan: "\<not> IsSpace (hd ?s) \<and> scan_token ?s = t"
  proof (cases "token_type t")
    case IDENTIFIER
    then obtain c v where v: "token_value t = c # v" "\<forall>x \<in> set (c # v). alnum x"
      "ToUpper (token_value t) \<notin> set sql_keywords"
      using assms by (cases "token_value t") (auto simp: is_identifier_def)
    moreover have "takeWhile alnum ?s = token_value t"
      by (rule takeWhile_all_stop) (use v in simp_all)
    ultimately show ?thesis
      using alnum_classes [of c] IDENTIFIER by (cases t) (auto simp: scan_token_def)
  next
    case KEYWORD
    then have "token_value t \<noteq> ''''"
      using assms by (auto simp: sql_keywords_def ToUpper_def)
    with KEYWORD obtain c v where v: "token_value t = c # v" "\<forall>x \<in> set (c # v). alnum x"
      "ToUpper (token_value t) \<in> set sql_keywords"
      using assms by (cases "token_value t") auto
    moreover have "takeWhile alnum ?s = token_value t"
      by (rule takeWhile_all_stop) (use v in simp_all)
    ultimately show ?thesis
      using alnum_classes [of c] KEYWORD by (cases t) (auto simp: scan_token_def)
  next
    case SYMBOL
    with assms obtain c where "c \<in> set symbols" "token_value t = [c]"
      by auto
    with SYMBOL show ?thesis
      using symbol_classes(1) by (cases t) (simp add: scan_token_def)
  next
    case CONDITIONAL_OPERATOR
    then obtain c v where v: "token_value t = c # v" "\<forall>x \<in> set (c # v). x \<in> set conditionalOperators"
      using assms by (cases "token_value t") auto
    moreover have "takeWhile (\<lambda>x. x \<in> set conditionalOperators) ?s = token_value t"
      by (rule takeWhile_all_stop) (use v in simp_all)
    ultimately show ?thesis
      using symbol_classes(2) [of c] CONDITIONAL_OPERATOR by (cases t) (auto simp: scan_token_def)
  qed (use assms in simp)
  then have "dropWhile IsSpace ?s = ?s"
    by (cases ?s) auto
  with scan show "next_token ?s = t" "rest_after ?s = CHR '' '' # s"
    by (simp_all add: next_token_def rest_after_def)
qed

lemma space_skipped [simp]:
  "next_token (CHR '' '' # s) = next_token s" "rest_after (CHR '' '' # s) = rest_after s"
  "spells (CHR '' '' # s) ts = spells s ts"
  by (simp_all add: next_token_def rest_after_def, cases ts, simp_all add: next_token_def rest_after_def)

lemma spells_append: "\<forall>t \<in> set ts. lexeme t \<Longrightarrow> spells (print_tokens ts @ s) (ts @ us) = spells s us"
proof (induction ts)
  case Nil
  then show ?case by (simp add: print_tokens_def)
next
  case (Cons t ts)
  then show ?case
    using next_token_lexeme [of t "print_tokens ts @ s"] by (simp add: print_tokens_def)
qed

lemma spells_print: "\<forall>t \<in> set ts. lexeme t \<Longrightarrow> spells (print_tokens ts) ts"
  using spells_append [of ts "[]" "[]"] by simp

end
