(* ===== verification/Sql_Parser.thy ===== *)
theory Sql_Parser
  imports Sql_Tokens Catalog
begin

text \<open>
  \<^verbatim>\<open>sql_parser/parser.go\<close> and the query types of \<^verbatim>\<open>sql_parser/ast.go\<close>. The parser holds the
  tokeniser and one token; a failed \<open>consume\<close> leaves it as it was. The loop of
  \<open>ParseInsertIntoTable\<close> may run for ever, so it is a partial function whose value \<open>None\<close>
  is not returning; all other loops end.
\<close>

record InsertIntoTable =
  ins_TableName :: string
  ColumnValues :: "string list"

record QueryCondition =
  qc_ColumnName :: string
  QueryType :: string
  qc_Value :: string

record SelectFromTable =
  sel_TableName :: string
  ColumnsRequired :: "string list"
  QueryConditions :: "QueryCondition list"

record Parser =
  tokeniser :: Tokeniser
  currentToken :: Token

abbreviation cur_value :: "Parser \<Rightarrow> string" where
  "cur_value p \<equiv> token_value (currentToken p)"

subsection \<open>One token\<close>

definition advance :: "Tokeniser \<Rightarrow> Parser" where
  "advance t = (case NextToken t of (token, t') \<Rightarrow> \<lparr>tokeniser = t', currentToken = token\<rparr>)"

definition NewParser :: "string \<Rightarrow> Parser" where
  "NewParser input = advance (NewTokeniser input)"

fun type_name :: "TokenType \<Rightarrow> string" where
  "type_name IDENTIFIER = ''IDENTIFIER''"
| "type_name KEYWORD = ''KEYWORD''"
| "type_name SYMBOL = ''SYMBOL''"
| "type_name CONDITIONAL_OPERATOR = ''CONDITIONAL_OPERATOR''"
| "type_name EOF_TOKEN = ''EOF''"

text \<open>The verb \<open>%q\<close> for the values that tokens have: nothing in them needs an escape.\<close>

definition quoted :: "string \<Rightarrow> string" where
  "quoted s = [CHR 0x22] @ s @ [CHR 0x22]"

definition syntax_error :: "TokenType \<Rightarrow> string \<Rightarrow> string \<Rightarrow> Token \<Rightarrow> string" where
  "syntax_error tt expectedVal identifierType tok =
     (let got = '', got '' @ type_name (token_type tok) @ '' '' @ quoted (token_value tok) in
      ''syntax error: expected '' @
      (if expectedVal = '''' \<and> tt = CONDITIONAL_OPERATOR then type_name tt @ got
       else if tt = IDENTIFIER \<and> identifierType \<noteq> '''' then
         if expectedVal = '''' then ''IDENTIFIER '' @ quoted identifierType @ got
         else ''IDENTIFIER '' @ identifierType @ '' '' @ quoted expectedVal @ got
       else type_name tt @ '' '' @ quoted expectedVal @ got))"

definition consume :: "TokenType \<Rightarrow> string \<Rightarrow> string \<Rightarrow> Parser \<Rightarrow> goerr + Parser" where
  "consume tt expectedVal identifierType p =
     (if token_type (currentToken p) \<noteq> tt \<or> (expectedVal \<noteq> '''' \<and> cur_value p \<noteq> expectedVal)
      then Inl (Errorf (syntax_error tt expectedVal identifierType (currentToken p)))
      else Inr (advance (tokeniser p)))"

text \<open>\<open>if err := ...; err != nil { return nil, err }\<close> before the rest.\<close>

definition then_ok :: "goerr + 'a \<Rightarrow> ('a \<Rightarrow> goerr + 'b) \<Rightarrow> goerr + 'b" where
  "then_ok r f = (case r of Inl e \<Rightarrow> Inl e | Inr x \<Rightarrow> f x)"

text \<open>A comma is skipped; the error of this \<open>consume\<close> is dropped.\<close>

definition skip_comma :: "Parser \<Rightarrow> Parser" where
  "skip_comma p =
     (if cur_value p = '','' then (case consume SYMBOL '','' '''' p of Inl _ \<Rightarrow> p | Inr p' \<Rightarrow> p') else p)"

subsection \<open>\<open>CREATE TABLE\<close>\<close>

definition getDataTypeFromString :: "string \<Rightarrow> goerr + 8 word" where
  "getDataTypeFromString columnType =
     (if columnType = ''INT'' then Inr Int_type
      else if columnType = ''STRING'' then Inr String_type
      else if columnType = ''BOOL'' then Inr Bool_type
      else Inl (Errorf (''data type '' @ [CHR 0x27] @ columnType @ [CHR 0x27]
             @ '' not found. expected one of INT, STRING, BOOL'')))"

definition parsePrimaryKeyColumn :: "Parser \<Rightarrow> goerr + string \<times> Parser" where
  "parsePrimaryKeyColumn p =
     then_ok (consume KEYWORD ''PRIMARY'' '''' p) (\<lambda>p.
     then_ok (consume KEYWORD ''KEY'' '''' p) (\<lambda>p.
     then_ok (consume SYMBOL ''('' '''' p) (\<lambda>p.
     let pkColumn = cur_value p in
     then_ok (consume IDENTIFIER '''' '''' p) (\<lambda>p.
     then_ok (consume SYMBOL '')'' '''' p) (\<lambda>p. Inr (pkColumn, p))))))"

text \<open>The text that is left, with the current token: what the loops use up.\<close>

definition input_left :: "Parser \<Rightarrow> nat" where
  "input_left p = length (left (tokeniser p)) + length (cur_value p)"

lemma advance_simps:
  "currentToken (advance t) = next_token (left t)" "left (tokeniser (advance t)) = rest_after (left t)"
  by (simp_all add: advance_def NextToken_left [symmetric] split: prod.split)

lemma consume_left: "consume tt v i p = Inr p' \<Longrightarrow> input_left p' + length (cur_value p) \<le> input_left p"
  using length_rest_after [of "left (tokeniser p)"]
  by (auto simp: consume_def input_left_def advance_simps split: if_splits)

lemma skip_comma_left: "input_left (skip_comma p) \<le> input_left p"
  by (auto simp: skip_comma_def dest!: consume_left split: sum.split)

lemma parsePrimaryKeyColumn_left:
  "parsePrimaryKeyColumn p = Inr (pk, p') \<Longrightarrow> 2 \<le> length (cur_value p) \<Longrightarrow> input_left p' < input_left p"
  by (auto simp: parsePrimaryKeyColumn_def then_ok_def Let_def
      dest!: consume_left split: sum.splits)

lemma getDataTypeFromString_Nil: "getDataTypeFromString '''' = Inr d \<Longrightarrow> False"
  by (simp add: getDataTypeFromString_def)

function create_columns :: "Parser \<Rightarrow> Column list \<Rightarrow> string \<Rightarrow> goerr + Column list \<times> string \<times> Parser" where
  "create_columns p columnDetails pkColumn =
     (if cur_value p = '')'' then Inr (columnDetails, pkColumn, p)
      else let p1 = skip_comma p in
        if cur_value p1 = ''PRIMARY''
        then (case parsePrimaryKeyColumn p1 of
                Inl e \<Rightarrow> Inl e
              | Inr (pk, p2) \<Rightarrow> create_columns p2 columnDetails pk)
        else (case consume IDENTIFIER '''' '''' p1 of
                Inl e \<Rightarrow> Inl e
              | Inr p2 \<Rightarrow> (case consume IDENTIFIER '''' '''' p2 of
                  Inl e \<Rightarrow> Inl e
                | Inr p3 \<Rightarrow> (case getDataTypeFromString (cur_value p2) of
                    Inl e \<Rightarrow> Inl e
                  | Inr dataType \<Rightarrow>
                      create_columns p3
                        (columnDetails @ [\<lparr>ColumnName = cur_value p1, DataType = dataType\<rparr>]) pkColumn))))"
  by pat_completeness auto
termination
proof (relation "measure (\<lambda>(p, cols, pk). input_left p)", goal_cases)
  case (2 p cols pk p1 x pk' p2)
  then show ?case
    using parsePrimaryKeyColumn_left [of p1 pk' p2] skip_comma_left [of p] by simp
next
  case (3 p cols pk p1 p2 p3 dataType)
  then have "cur_value p2 \<noteq> ''''"
    using getDataTypeFromString_Nil by metis
  then show ?case
    using consume_left [OF 3(4)] consume_left [OF 3(5)] skip_comma_left [of p] 3(2)
    by (cases "cur_value p2") simp_all
qed simp

declare create_columns.simps [simp del]

text \<open>The last column with the name of the primary key; 0 when there is none.\<close>

definition pk_position :: "Column list \<Rightarrow> string \<Rightarrow> int" where
  "pk_position columnDetails pkColumn =
     foldl (\<lambda>pos (i, col). if ColumnName col = pkColumn then int i else pos) 0 (enumerate 0 columnDetails)"

definition ParseCreateTable :: "Parser \<Rightarrow> goerr + CreateTable" where
  "ParseCreateTable p =
     then_ok (consume KEYWORD ''CREATE'' '''' p) (\<lambda>p.
     then_ok (consume KEYWORD ''TABLE'' '''' p) (\<lambda>p.
     let tableName = cur_value p in
     then_ok (consume IDENTIFIER '''' '''' p) (\<lambda>p.
     then_ok (consume SYMBOL ''('' '''' p) (\<lambda>p.
     then_ok (create_columns p [] '''') (\<lambda>(columnDetails, pkColumn, p).
     if columnDetails = [] then Inl (Errorf ''expected atleast one column detail, found none'')
     else let pkColumnPosition = (if pkColumn \<noteq> '''' then pk_position columnDetails pkColumn else 0) in
       if pkColumn \<noteq> '''' \<and> pkColumnPosition = 0
       then Inl (Errorf (''primary key column '' @ [CHR 0x27] @ pkColumn @ [CHR 0x27] @ '' not found''))
       else then_ok (consume SYMBOL '')'' '''' p) (\<lambda>_.
         Inr \<lparr>TableName = tableName, ColumnDetails = columnDetails,
              PrimaryKeyColumnPosition = pkColumnPosition, SecondaryIndexes = []\<rparr>))))))"

subsection \<open>\<open>INSERT INTO\<close>\<close>

partial_function (option) insert_values ::
    "Parser \<Rightarrow> string list \<Rightarrow> (goerr + string list \<times> Parser) option" where
  "insert_values p columnValues =
     (if cur_value p = '')'' then Some (Inr (columnValues, p))
      else let p1 = skip_comma p in
        (case consume IDENTIFIER '''' '''' p1 of
           Inl e \<Rightarrow> Some (Inl e)
         | Inr p2 \<Rightarrow> insert_values p2 (columnValues @ [cur_value p1])))"

definition ParseInsertIntoTable :: "Parser \<Rightarrow> (goerr + InsertIntoTable) option" where
  "ParseInsertIntoTable p =
     (case then_ok (consume KEYWORD ''INSERT'' '''' p) (\<lambda>p. consume KEYWORD ''INTO'' '''' p) of
        Inl e \<Rightarrow> Some (Inl e)
      | Inr p \<Rightarrow> let tableName = cur_value p in
          (case then_ok (consume IDENTIFIER '''' '''' p) (\<lambda>p.
                then_ok (consume KEYWORD ''VALUES'' '''' p) (\<lambda>p. consume SYMBOL ''('' '''' p)) of
             Inl e \<Rightarrow> Some (Inl e)
           | Inr p \<Rightarrow>
               map_option (\<lambda>r. then_ok r (\<lambda>(columnValues, p).
                   then_ok (consume SYMBOL '')'' '''' p) (\<lambda>_.
                     Inr \<lparr>ins_TableName = tableName, ColumnValues = columnValues\<rparr>)))
                 (insert_values p [])))"

subsection \<open>\<open>SELECT\<close>\<close>

text \<open>The argument \<open>n\<close> is \<open>ColumnsSelectLimit - i\<close>.\<close>

fun select_columns :: "nat \<Rightarrow> Parser \<Rightarrow> string list \<Rightarrow> goerr + string list \<times> Parser" where
  "select_columns n p columnsRequired =
     (if cur_value p = ''FROM'' then Inr (columnsRequired, p)
      else then_ok (if cur_value p = '','' then consume SYMBOL '','' '''' p else Inr p) (\<lambda>p.
        case n of
          0 \<Rightarrow> Inl (Errorf ''maximum 10 columns supported in SELECT query'')
        | Suc n \<Rightarrow>
            if cur_value p = ''*''
            then then_ok (consume SYMBOL ''*'' '''' p) (\<lambda>p. select_columns n p (columnsRequired @ [''*'']))
            else then_ok (consume IDENTIFIER '''' '''' p) (\<lambda>p'.
                   select_columns n p' (columnsRequired @ [cur_value p]))))"

declare select_columns.simps [simp del]

definition parseColumnsFromSelectQuery :: "Parser \<Rightarrow> goerr + string list \<times> Parser" where
  "parseColumnsFromSelectQuery p =
     then_ok (select_columns 10 p []) (\<lambda>(columnsRequired, p).
       if columnsRequired = [] then Inl (Errorf ''expected atleast 1 column in SELECT query'')
       else Inr (columnsRequired, p))"

text \<open>The argument \<open>n\<close> is \<open>11 - i\<close>.\<close>

fun select_conditions :: "nat \<Rightarrow> Parser \<Rightarrow> QueryCondition list \<Rightarrow> goerr + QueryCondition list \<times> Parser" where
  "select_conditions n p queryConditions =
     (if cur_value p = '';'' then Inr (queryConditions, p)
      else then_ok (if n < 11 then consume KEYWORD ''AND'' '''' p else Inr p) (\<lambda>p.
        case n of
          0 \<Rightarrow> Inl (Errorf ''maximum 10 AND conditions supported'')
        | Suc n \<Rightarrow>
            then_ok (consume IDENTIFIER '''' ''column name'' p) (\<lambda>p2.
            then_ok (consume CONDITIONAL_OPERATOR '''' '''' p2) (\<lambda>p3.
            then_ok (consume IDENTIFIER '''' ''query value'' p3) (\<lambda>p4.
              select_conditions n p4 (queryConditions @
                [\<lparr>qc_ColumnName = cur_value p, QueryType = cur_value p2, qc_Value = cur_value p3\<rparr>]))))))"

declare select_conditions.simps [simp del]

definition parseQueryConditionsFromSelectQuery :: "Parser \<Rightarrow> goerr + QueryCondition list \<times> Parser" where
  "parseQueryConditionsFromSelectQuery p =
     then_ok (consume KEYWORD ''WHERE'' '''' p) (\<lambda>p.
     then_ok (select_conditions 11 p []) (\<lambda>(queryConditions, p).
       if queryConditions = []
       then Inl (Errorf ''expected atleast 1 condition within WHERE clause of SELECT query'')
       else Inr (queryConditions, p)))"

definition ParseSelectFromTable :: "Parser \<Rightarrow> goerr + SelectFromTable" where
  "ParseSelectFromTable p =
     then_ok (consume KEYWORD ''SELECT'' '''' p) (\<lambda>p.
     then_ok (parseColumnsFromSelectQuery p) (\<lambda>(columnsRequired, p).
     then_ok (consume KEYWORD ''FROM'' '''' p) (\<lambda>p.
     let tableName = cur_value p in
     then_ok (consume IDENTIFIER '''' '''' p) (\<lambda>p.
     then_ok (if cur_value p = ''WHERE'' then parseQueryConditionsFromSelectQuery p else Inr ([], p))
       (\<lambda>(queryConditions, p).
     then_ok (consume SYMBOL '';'' '''' p) (\<lambda>_.
       Inr \<lparr>sel_TableName = tableName, ColumnsRequired = columnsRequired,
            QueryConditions = queryConditions\<rparr>))))))"

subsection \<open>A parser in front of known tokens\<close>

fun at :: "Parser \<Rightarrow> Token list \<Rightarrow> bool" where
  "at p [] \<longleftrightarrow> True"
| "at p (t # ts) \<longleftrightarrow> currentToken p = t \<and> spells (left (tokeniser p)) ts"

declare at.simps [simp del]

lemma at_Nil [simp]: "at p []"
  by (simp add: at.simps)

lemma at_cur: "at p (t # ts) \<Longrightarrow> currentToken p = t"
  by (simp add: at.simps)

lemma at_advance: "spells (left t) ts \<Longrightarrow> at (advance t) ts"
  by (cases ts) (simp_all add: advance_simps at.simps)

lemma at_NewParser: "spells input ts \<Longrightarrow> at (NewParser input) ts"
  by (simp add: NewParser_def at_advance)

lemma consume_at:
  assumes "at p (t # ts)" and "token_type t = tt" and "v = '''' \<or> token_value t = v"
  shows "consume tt v i p = Inr (advance (tokeniser p)) \<and> at (advance (tokeniser p)) ts"
  using assms by (auto simp: consume_def at.simps intro: at_advance)

lemma then_ok_simps [simp]: "then_ok (Inr x) f = f x" "then_ok (Inl e) f = Inl e"
  by (simp_all add: then_ok_def)

text \<open>Items with commas between them; in the loops every item but the first has one before it.\<close>

fun comma_sep :: "Token list list \<Rightarrow> Token list" where
  "comma_sep [] = []"
| "comma_sep (x # xs) = x @ concat (map (\<lambda>y. Sym '','' # y) xs)"

definition separator :: "Token list \<Rightarrow> bool" where
  "separator sep \<longleftrightarrow> sep = [] \<or> sep = [Sym '','']"

lemma skip_comma_at:
  assumes "separator sep" and "at p (sep @ t # ts)" and "token_value t \<noteq> '',''"
  shows "at (skip_comma p) (t # ts)"
proof (cases "sep = []")
  case True
  then have "at p (t # ts)"
    using assms(2) by simp
  with assms(3) at_cur [OF this] show ?thesis
    by (simp add: skip_comma_def)
next
  case False
  then have p: "at p (Sym '','' # t # ts)"
    using assms(1,2) by (simp add: separator_def)
  show ?thesis
    using consume_at [OF p, of SYMBOL "'',''" "''''"] at_cur [OF p] by (simp add: skip_comma_def)
qed

lemma is_identifier_not:
  assumes "is_identifier v"
  shows "v \<notin> {'')'', '','', '';'', ''*'', ''FROM'', ''PRIMARY'', ''WHERE''}"
proof -
  have "\<not> alnum (CHR '')'')" "\<not> alnum (CHR '','')" "\<not> alnum (CHR '';'')" "\<not> alnum (CHR ''*'')"
    by (simp_all add: alnum_def is_digit_def IsLetter_def less_eq_char_def)
  moreover have "ToUpper ''FROM'' = ''FROM''" "ToUpper ''PRIMARY'' = ''PRIMARY''" "ToUpper ''WHERE'' = ''WHERE''"
    by (simp_all add: ToUpper_def less_eq_char_def)
  ultimately show ?thesis
    using assms by (auto simp: is_identifier_def sql_keywords_def)
qed

subsection \<open>Tokens of a \<open>CREATE TABLE\<close> statement\<close>

definition type_text :: "8 word \<Rightarrow> string" where
  "type_text d = (if d = Int_type then ''INT'' else if d = String_type then ''STRING'' else ''BOOL'')"

definition column_item :: "Column \<Rightarrow> Token list" where
  "column_item col = [Ident (ColumnName col), Ident (type_text (DataType col))]"

definition pk_item :: "string \<Rightarrow> Token list" where
  "pk_item pk = [Kw ''PRIMARY'', Kw ''KEY'', Sym ''('', Ident pk, Sym '')'']"

definition good_column :: "Column \<Rightarrow> bool" where
  "good_column col \<longleftrightarrow> is_identifier (ColumnName col)
     \<and> DataType col \<in> {Int_type, String_type, Bool_type}"

definition create_tokens :: "string \<Rightarrow> Column list \<Rightarrow> string \<Rightarrow> Token list" where
  "create_tokens name cols pk =
     [Kw ''CREATE'', Kw ''TABLE'', Ident name, Sym ''(''] @
     comma_sep (map column_item cols @ (if pk = '''' then [] else [pk_item pk])) @ [Sym '')'']"

lemma type_text_read: "d \<in> {Int_type, String_type, Bool_type} \<Longrightarrow> getDataTypeFromString (type_text d) = Inr d"
  by (auto simp: type_text_def getDataTypeFromString_def)

lemma create_columns_column:
  assumes "separator sep" and "at p (sep @ column_item col @ ts)" and "good_column col"
  obtains p' where "create_columns p acc pk = create_columns p' (acc @ [col]) pk" and "at p' ts"
proof -
  let ?p1 = "skip_comma p"
  have name: "ColumnName col \<notin> {'')'', '','', '';'', ''*'', ''FROM'', ''PRIMARY'', ''WHERE''}"
    using assms(3) by (intro is_identifier_not) (simp add: good_column_def)
  have p1: "at ?p1 (Ident (ColumnName col) # Ident (type_text (DataType col)) # ts)"
    using assms name by (intro skip_comma_at) (simp_all add: column_item_def)
  note c2 = consume_at [OF p1, of IDENTIFIER "''''" "''''"]
  let ?p2 = "advance (tokeniser ?p1)"
  have p2: "at ?p2 (Ident (type_text (DataType col)) # ts)"
    using c2 by simp
  note c3 = consume_at [OF p2, of IDENTIFIER "''''" "''''"]
  have first: "cur_value p \<noteq> '')''"
    using assms(1,2) name by (auto simp: separator_def column_item_def dest!: at_cur)
  have eq: "\<lparr>ColumnName = ColumnName col, DataType = DataType col\<rparr> = col"
    by simp
  have "create_columns p acc pk = create_columns (advance (tokeniser ?p2)) (acc @ [col]) pk"
    using first name at_cur [OF p1] at_cur [OF p2] c2 c3 assms(3)
    by (subst create_columns.simps)
       (simp add: Let_def type_text_read good_column_def eq)
  then show ?thesis
    using that c3 by simp
qed

lemma create_columns_pk:
  assumes "separator sep" and "at p (sep @ pk_item pk @ ts)" and "is_identifier pk"
  obtains p' where "create_columns p acc pk0 = create_columns p' acc pk" and "at p' ts"
proof -
  let ?p1 = "skip_comma p"
  have p1: "at ?p1 (pk_item pk @ ts)"
    using assms skip_comma_at [of sep p] by (simp add: pk_item_def)
  note c1 = consume_at [OF p1 [unfolded pk_item_def append.simps], of KEYWORD "''PRIMARY''" "''''", simplified]
  note c2 = consume_at [OF c1 [THEN conjunct2], of KEYWORD "''KEY''" "''''", simplified]
  note c3 = consume_at [OF c2 [THEN conjunct2], of SYMBOL "''(''" "''''", simplified]
  note c4 = consume_at [OF c3 [THEN conjunct2], of IDENTIFIER "''''" "''''", simplified]
  note c5 = consume_at [OF c4 [THEN conjunct2], of SYMBOL "'')''" "''''", simplified]
  have pk: "cur_value (advance (tokeniser (advance (tokeniser (advance (tokeniser ?p1)))))) = pk"
    using at_cur [OF c3 [THEN conjunct2]] by simp
  have first: "cur_value p \<noteq> '')''" "cur_value ?p1 = ''PRIMARY''"
    using assms(1,2) at_cur [OF p1 [unfolded pk_item_def append.simps]]
    by (auto simp: separator_def pk_item_def dest!: at_cur)
  have "parsePrimaryKeyColumn ?p1 = Inr (pk, advance (tokeniser (advance (tokeniser (advance (tokeniser
      (advance (tokeniser (advance (tokeniser ?p1))))))))))"
    using c1 c2 c3 c4 c5 pk by (simp add: parsePrimaryKeyColumn_def)
  then show ?thesis
    using that c5 first by (subst (asm) create_columns.simps) (simp add: Let_def)
qed

lemma create_columns_after_first:
  assumes "at p (concat (map (\<lambda>col. Sym '','' # column_item col) cols)
      @ (if pk = '''' then [] else Sym '','' # pk_item pk) @ [Sym '')''])"
    and "\<forall>col \<in> set cols. good_column col" and "pk = '''' \<or> is_identifier pk"
  shows "\<exists>p'. create_columns p acc '''' = Inr (acc @ cols, pk, p') \<and> at p' [Sym '')'']"
  using assms(1,2)
proof (induction cols arbitrary: p acc)
  case Nil
  have close: "\<exists>p'. create_columns p acc pk = Inr (acc, pk, p') \<and> at p' [Sym '')'']"
    if "at p [Sym '')'']" for p
    using that at_cur [OF that] by (subst create_columns.simps) simp
  show ?case
  proof (cases "pk = ''''")
    case True
    then show ?thesis
      using Nil.prems(1) close [of p] by simp
  next
    case False
    have "at p ([Sym '',''] @ pk_item pk @ [Sym '')''])"
      using Nil.prems(1) False by simp
    then obtain p' where "create_columns p acc '''' = create_columns p' acc pk" "at p' [Sym '')'']"
      using create_columns_pk [of "[Sym '','']" p pk "[Sym '')'']" acc "''''"] assms(3) False
      by (auto simp: separator_def)
    then show ?thesis
      using close [of p'] by simp
  qed
next
  case (Cons col cols)
  let ?ts = "concat (map (\<lambda>col. Sym '','' # column_item col) cols)
      @ (if pk = '''' then [] else Sym '','' # pk_item pk) @ [Sym '')'']"
  have "at p ([Sym '',''] @ column_item col @ ?ts)"
    using Cons.prems(1) by simp
  then obtain p' where "create_columns p acc '''' = create_columns p' (acc @ [col]) ''''" "at p' ?ts"
    using create_columns_column [of "[Sym '','']" p col ?ts acc "''''"] Cons.prems(2)
    by (auto simp: separator_def)
  then show ?case
    using Cons.IH [of p' "acc @ [col]"] Cons.prems(2) by simp
qed

lemma parse_create_columns:
  assumes "spells input (create_tokens name cols pk)" and "is_identifier name"
    and "cols \<noteq> []" and "\<forall>col \<in> set cols. good_column col" and "pk = '''' \<or> is_identifier pk"
  shows "ParseCreateTable (NewParser input) =
     (let i = (if pk \<noteq> '''' then pk_position cols pk else 0) in
      if pk \<noteq> '''' \<and> i = 0
      then Inl (Errorf (''primary key column '' @ [CHR 0x27] @ pk @ [CHR 0x27] @ '' not found''))
      else Inr \<lparr>TableName = name, ColumnDetails = cols, PrimaryKeyColumnPosition = i, SecondaryIndexes = []\<rparr>)"
proof -
  obtain col cols' where cols: "cols = col # cols'"
    using assms(3) by (cases cols) auto
  let ?ts = "concat (map (\<lambda>col. Sym '','' # column_item col) cols')
      @ (if pk = '''' then [] else Sym '','' # pk_item pk) @ [Sym '')'']"
  have p: "at (NewParser input) (Kw ''CREATE'' # Kw ''TABLE'' # Ident name # Sym ''('' # column_item col @ ?ts)"
    using at_NewParser [OF assms(1)] by (cases "pk = ''''") (simp_all add: create_tokens_def cols o_def)
  note c1 = consume_at [OF p, of KEYWORD "''CREATE''" "''''", simplified]
  note c2 = consume_at [OF c1 [THEN conjunct2], of KEYWORD "''TABLE''" "''''", simplified]
  note c3 = consume_at [OF c2 [THEN conjunct2], of IDENTIFIER "''''" "''''", simplified]
  note c4 = consume_at [OF c3 [THEN conjunct2], of SYMBOL "''(''" "''''", simplified]
  let ?q = "NewParser input"
  let ?q' = "advance (tokeniser (advance (tokeniser (advance (tokeniser (advance (tokeniser ?q)))))))"
  obtain r where r: "create_columns ?q' [] '''' = create_columns r [col] ''''" "at r ?ts"
    using create_columns_column [of "[]" ?q' col ?ts "[]" "''''"] c4 assms(4) cols
    by (auto simp: separator_def)
  obtain r' where r': "create_columns ?q' [] '''' = Inr (cols, pk, r')" "at r' [Sym '')'']"
    using create_columns_after_first [OF r(2), of "[col]"] assms(4,5) cols r(1) by auto
  show ?thesis
    using c1 c2 c3 c4 r' at_cur [OF c2 [THEN conjunct2]] assms(3)
      consume_at [OF r'(2), of SYMBOL "'')''" "''''", simplified]
    by (simp add: ParseCreateTable_def Let_def)
qed

lemma pk_position_unique:
  assumes "distinct (map ColumnName cols)" and "i < length cols"
  shows "pk_position cols (ColumnName (cols ! i)) = int i"
proof -
  let ?f = "\<lambda>pos (j, col). if ColumnName col = ColumnName (cols ! i) then int j else pos"
  have keep: "foldl ?f pos xs = pos" if "\<forall>(j, col) \<in> set xs. ColumnName col \<noteq> ColumnName (cols ! i)" for pos xs
    using that by (induction xs arbitrary: pos) auto
  have others: "\<forall>(j, col) \<in> set (drop (Suc i) (enumerate 0 cols)). ColumnName col \<noteq> ColumnName (cols ! i)"
  proof (clarify)
    fix j col assume "(j, col) \<in> set (drop (Suc i) (enumerate 0 cols))" "ColumnName col = ColumnName (cols ! i)"
    then obtain k where "Suc (i + k) < length cols" "ColumnName (cols ! Suc (i + k)) = ColumnName (cols ! i)"
      by (auto simp: in_set_conv_nth nth_enumerate_eq less_diff_conv add.commute [of _ i])
    then show False
      using nth_eq_iff_index_eq [OF assms(1), of "Suc (i + k)" i] assms(2) by simp
  qed
  have "enumerate 0 cols = take i (enumerate 0 cols) @ (i, cols ! i) # drop (Suc i) (enumerate 0 cols)"
    using assms(2) id_take_nth_drop [of i "enumerate 0 cols"] by (simp add: nth_enumerate_eq)
  then have "pk_position cols (ColumnName (cols ! i)) =
      foldl ?f 0 (take i (enumerate 0 cols) @ (i, cols ! i) # drop (Suc i) (enumerate 0 cols))"
    by (simp add: pk_position_def)
  also have "\<dots> = int i"
    using keep [OF others] by simp
  finally show ?thesis .
qed

text \<open>C27: The schema that a \<open>CREATE TABLE\<close> statement describes is read back from any text with
  the tokens of the statement: all columns with their types in order, and as primary key the
  position of the named column. This needs different column names and a key that is not the
  first column; without a key clause the position is 0.\<close>

theorem parse_create_table:
  assumes "spells input (create_tokens name cols (if i = 0 then '''' else ColumnName (cols ! i)))"
    and "is_identifier name" and "\<forall>col \<in> set cols. good_column col"
    and "distinct (map ColumnName cols)" and "i < length cols"
  shows "ParseCreateTable (NewParser input) =
    Inr \<lparr>TableName = name, ColumnDetails = cols, PrimaryKeyColumnPosition = int i, SecondaryIndexes = []\<rparr>"
proof -
  have "is_identifier (ColumnName (cols ! i))"
    using assms(3,5) by (simp add: good_column_def)
  then show ?thesis
    using parse_create_columns [OF assms(1,2) _ assms(3)] assms(5) pk_position_unique [OF assms(4,5)]
    by (cases "i = 0"; cases "cols = []") (auto simp: is_identifier_def)
qed

definition example_columns :: "Column list" where
  "example_columns = [\<lparr>ColumnName = ''name'', DataType = String_type\<rparr>, \<lparr>ColumnName = ''id'', DataType = Int_type\<rparr>]"

lemma example_columns_good: "\<forall>col \<in> set example_columns. good_column col"
  by code_simp

theorem parse_create_table_witness:
  "ParseCreateTable (NewParser ''CREATE TABLE users (name STRING, id INT, PRIMARY KEY(id))'') =
    Inr \<lparr>TableName = ''users'', ColumnDetails = example_columns, PrimaryKeyColumnPosition = 1, SecondaryIndexes = []\<rparr>"
proof -
  have "spells ''CREATE TABLE users (name STRING, id INT, PRIMARY KEY(id))''
      (create_tokens ''users'' example_columns ''id'')" "is_identifier ''users''"
    by code_simp+
  then show ?thesis
    using parse_create_table [of _ "''users''" example_columns 1] example_columns_good
    by (simp add: example_columns_def)
qed

text \<open>C31: A primary key that is the first column is refused: the position 0 stands for ``no such
  column'', so the error says that the key column was not found.\<close>

theorem first_column_key_rejected:
  assumes "spells input (create_tokens name cols (ColumnName (hd cols)))"
    and "is_identifier name" and "\<forall>col \<in> set cols. good_column col"
    and "distinct (map ColumnName cols)" and "cols \<noteq> []"
  shows "ParseCreateTable (NewParser input) =
    Inl (Errorf (''primary key column '' @ [CHR 0x27] @ ColumnName (hd cols) @ [CHR 0x27] @ '' not found''))"
proof -
  have "is_identifier (ColumnName (hd cols))"
    using assms(3,5) by (simp add: good_column_def)
  then show ?thesis
    using parse_create_columns [OF assms(1,2,5,3)] pk_position_unique [OF assms(4), of 0] assms(5)
    by (auto simp: is_identifier_def hd_conv_nth)
qed

theorem first_column_key_rejected_witness:
  "ParseCreateTable (NewParser ''CREATE TABLE users (name STRING, id INT, PRIMARY KEY(name))'') =
    Inl (Errorf (''primary key column '' @ [CHR 0x27] @ ''name'' @ [CHR 0x27] @ '' not found''))"
proof -
  have "spells ''CREATE TABLE users (name STRING, id INT, PRIMARY KEY(name))''
      (create_tokens ''users'' example_columns ''name'')" "is_identifier ''users''"
    by code_simp+
  then show ?thesis
    using first_column_key_rejected [of _ "''users''" example_columns] example_columns_good
    by (simp add: example_columns_def)
qed

subsection \<open>\<open>INSERT INTO\<close> statements\<close>

definition insert_prefix :: "string \<Rightarrow> Token list" where
  "insert_prefix name = [Kw ''INSERT'', Kw ''INTO'', Ident name, Kw ''VALUES'', Sym ''('']"

definition value_items :: "string list \<Rightarrow> Token list" where
  "value_items vs = comma_sep (map (\<lambda>v. [Ident v]) vs)"

text \<open>The end of the statement, after its values.\<close>

abbreviation finish_insert :: "string \<Rightarrow> goerr + string list \<times> Parser \<Rightarrow> goerr + InsertIntoTable" where
  "finish_insert name r \<equiv> then_ok r (\<lambda>(columnValues, p).
     then_ok (consume SYMBOL '')'' '''' p) (\<lambda>_.
       Inr \<lparr>ins_TableName = name, ColumnValues = columnValues\<rparr>))"

lemma insert_prefix_parsed:
  assumes "spells input (insert_prefix name)"
  obtains p where "\<And>ts. spells input (insert_prefix name @ ts) \<Longrightarrow> at p ts" and
    "ParseInsertIntoTable (NewParser input) =
       map_option (finish_insert name) (insert_values p [])"
proof -
  have start: "at (NewParser input) (Kw ''INSERT'' # Kw ''INTO'' # Ident name # Kw ''VALUES'' # Sym ''('' # ts)"
    if "spells input (insert_prefix name @ ts)" for ts
    using at_NewParser [OF that] by (simp add: insert_prefix_def)
  let ?p5 = "advance (tokeniser (advance (tokeniser (advance (tokeniser (advance (tokeniser
      (advance (tokeniser (NewParser input))))))))))"
  have goal: "at ?p5 ts
    \<and> ParseInsertIntoTable (NewParser input) = map_option (finish_insert name) (insert_values ?p5 [])"
    if ts: "spells input (insert_prefix name @ ts)" for ts
  proof -
    note p = start [OF ts]
    note c1 = consume_at [OF p, of KEYWORD "''INSERT''" "''''", simplified]
    note c2 = consume_at [OF c1 [THEN conjunct2], of KEYWORD "''INTO''" "''''", simplified]
    note c3 = consume_at [OF c2 [THEN conjunct2], of IDENTIFIER "''''" "''''", simplified]
    note c4 = consume_at [OF c3 [THEN conjunct2], of KEYWORD "''VALUES''" "''''", simplified]
    note c5 = consume_at [OF c4 [THEN conjunct2], of SYMBOL "''(''" "''''", simplified]
    show ?thesis
      using c1 c2 c3 c4 c5 at_cur [OF c2 [THEN conjunct2]]
      by (simp add: ParseInsertIntoTable_def Let_def)
  qed
  show ?thesis
    using that goal goal [of "[]"] assms by (simp only: append_Nil2) blast
qed

lemma insert_values_item:
  assumes "separator sep" and "at p (sep @ [Ident v])" and "is_identifier v"
  obtains p' where "insert_values p acc = insert_values p' (acc @ [v])"
    and "\<And>ts. at p (sep @ Ident v # ts) \<Longrightarrow> at p' ts"
proof -
  have v: "v \<notin> {'')'', '','', '';'', ''*'', ''FROM'', ''PRIMARY'', ''WHERE''}"
    using assms(3) by (rule is_identifier_not)
  have p1: "at (skip_comma p) (Ident v # ts)" if "at p (sep @ Ident v # ts)" for ts
    using assms(1) v that by (intro skip_comma_at) simp_all
  note c = consume_at [OF p1, of _ IDENTIFIER "''''" "''''", simplified]
  have first: "cur_value p \<noteq> '')''"
    using assms(1,2) v by (auto simp: separator_def dest!: at_cur)
  have "insert_values p acc = insert_values (advance (tokeniser (skip_comma p))) (acc @ [v])"
    using c [OF assms(2)] at_cur [OF p1 [OF assms(2)]] first
    by (subst insert_values.simps) (simp add: Let_def)
  then show ?thesis
    using that c by blast
qed

lemma insert_values_after_first:
  assumes "at p (concat (map (\<lambda>v. [Sym '','', Ident v]) vs))" and "\<forall>v \<in> set vs. is_identifier v"
  shows "\<exists>p'. insert_values p acc = insert_values p' (acc @ vs)
    \<and> (\<forall>ts. at p (concat (map (\<lambda>v. [Sym '','', Ident v]) vs) @ ts) \<longrightarrow> at p' ts)"
  using assms
proof (induction vs arbitrary: p acc)
  case (Cons v vs)
  let ?vs = "concat (map (\<lambda>v. [Sym '','', Ident v]) vs)"
  have "at p ([Sym '',''] @ [Ident v])"
    using Cons.prems(1) by (simp add: at.simps)
  then obtain p1 where p1: "insert_values p acc = insert_values p1 (acc @ [v])"
    "\<And>ts. at p ([Sym '',''] @ Ident v # ts) \<Longrightarrow> at p1 ts"
    using insert_values_item [of "[Sym '','']" p v acc] Cons.prems(2)
    by (auto simp: separator_def)
  moreover have "at p1 ?vs"
    using Cons.prems(1) by (intro p1(2)) simp
  ultimately show ?case
    using Cons.IH [of p1 "acc @ [v]"] Cons.prems(2) by auto
qed auto

lemma insert_values_items:
  assumes "at p (value_items vs)" and "\<forall>v \<in> set vs. is_identifier v"
  shows "\<exists>p'. insert_values p acc = insert_values p' (acc @ vs)
    \<and> (\<forall>ts. at p (value_items vs @ ts) \<longrightarrow> at p' ts)"
proof (cases vs)
  case Nil
  then show ?thesis
    by (auto simp: value_items_def)
next
  case (Cons v vs')
  let ?vs = "concat (map (\<lambda>v. [Sym '','', Ident v]) vs')"
  have p: "at p (Ident v # ?vs)"
    using assms(1) Cons by (simp add: value_items_def o_def)
  then have "at p ([] @ [Ident v])"
    by (simp add: at.simps)
  then obtain p1 where p1: "insert_values p acc = insert_values p1 (acc @ [v])"
    "\<And>ts. at p ([] @ Ident v # ts) \<Longrightarrow> at p1 ts"
    using insert_values_item [of "[]" p v acc] assms(2) Cons
    by (auto simp: separator_def)
  have "at p1 ?vs"
    using p by (intro p1(2)) simp
  then show ?thesis
    using insert_values_after_first [of p1 vs' "acc @ [v]"] assms(2) p1 Cons
    by (auto simp: value_items_def o_def)
qed

lemma spells_take: "spells s (ts @ us) \<Longrightarrow> spells s ts"
  by (induction ts arbitrary: s) auto

lemma at_take: "at p (ts @ us) \<Longrightarrow> at p ts"
  by (cases ts) (auto simp: at.simps intro: spells_take)

text \<open>The statement up to and with its values: the rest of the text decides what comes of it.\<close>

lemma insert_values_parsed:
  assumes "spells input (insert_prefix name @ value_items vs)" and "\<forall>v \<in> set vs. is_identifier v"
  obtains p where "\<And>ts. spells input (insert_prefix name @ value_items vs @ ts) \<Longrightarrow> at p ts" and
    "ParseInsertIntoTable (NewParser input) =
       map_option (finish_insert name) (insert_values p vs)"
proof -
  obtain p where p: "\<And>ts. spells input (insert_prefix name @ ts) \<Longrightarrow> at p ts" "ParseInsertIntoTable (NewParser input) =
       map_option (finish_insert name) (insert_values p [])"
    using insert_prefix_parsed [OF spells_take [OF assms(1)]] by metis
  obtain p' where "insert_values p [] = insert_values p' vs"
    "\<And>ts. at p (value_items vs @ ts) \<Longrightarrow> at p' ts"
    using insert_values_items [OF p(1) [OF assms(1)] assms(2), of "[]"] by auto
  then show ?thesis
    using that [of p'] p by simp
qed

text \<open>An \<open>INSERT INTO\<close> statement is read back from any text with its tokens: the table and
  all values in order, a list without values included.\<close>

theorem parse_insert:
  assumes "spells input (insert_prefix name @ value_items vs @ [Sym '')''])"
    and "\<forall>v \<in> set vs. is_identifier v"
  shows "ParseInsertIntoTable (NewParser input) =
    Some (Inr \<lparr>ins_TableName = name, ColumnValues = vs\<rparr>)"
proof -
  have "spells input (insert_prefix name @ value_items vs)"
    using spells_take [of input "insert_prefix name @ value_items vs"] assms(1) by simp
  then obtain p where p: "\<And>ts. spells input (insert_prefix name @ value_items vs @ ts) \<Longrightarrow> at p ts"
    "ParseInsertIntoTable (NewParser input) =
       map_option (finish_insert name) (insert_values p vs)"
    using insert_values_parsed [OF _ assms(2)] by metis
  note close = p(1) [OF assms(1)]
  have "insert_values p vs = Some (Inr (vs, p))"
    using at_cur [OF close] by (subst insert_values.simps) simp
  then show ?thesis
    using p(2) consume_at [OF close, of SYMBOL "'')''" "''''"] by simp
qed

theorem parse_insert_witness:
  "ParseInsertIntoTable (NewParser ''INSERT INTO users VALUES(Ann, 42)'') =
    Some (Inr \<lparr>ins_TableName = ''users'', ColumnValues = [''Ann'', ''42'']\<rparr>)"
  by (rule parse_insert, code_simp, code_simp)

subsection \<open>When the parser of \<open>INSERT INTO\<close> returns\<close>

text \<open>The characters that some token or the space between tokens can hold.\<close>

definition supported :: "char \<Rightarrow> bool" where
  "supported c \<longleftrightarrow> IsSpace c \<or> alnum c \<or> c \<in> set symbols \<or> c \<in> set conditionalOperators"

definition moving :: "Parser \<Rightarrow> bool" where
  "moving p \<longleftrightarrow> (token_type (currentToken p) = IDENTIFIER \<longrightarrow> cur_value p \<noteq> '''')
     \<and> (\<forall>c \<in> set (left (tokeniser p)). supported c)"

lemma rest_after_subset: "set (rest_after s) \<subseteq> set s"
  using set_drop_subset [of "length (token_value (next_token s))" "dropWhile IsSpace s"]
  by (auto simp: rest_after_def dest: set_dropWhileD)

lemma next_token_nonempty:
  assumes "\<forall>c \<in> set s. supported c" and "token_type (next_token s) = IDENTIFIER"
  shows "token_value (next_token s) \<noteq> ''''"
proof (cases "dropWhile IsSpace s")
  case Nil
  then show ?thesis
    using assms(2) by (simp add: next_token_def scan_token_def)
next
  case (Cons c cs)
  then have "\<not> IsSpace c" "supported c"
    using assms(1) hd_dropWhile [of IsSpace s] set_dropWhileD [of c IsSpace s] by auto
  with assms(2) Cons show ?thesis
    by (auto simp: next_token_def scan_token_def Let_def supported_def split: if_splits)
qed

lemma moving_advance: "\<forall>c \<in> set (left t). supported c \<Longrightarrow> moving (advance t)"
  using next_token_nonempty [of "left t"] rest_after_subset [of "left t"]
  by (auto simp: moving_def advance_simps)

lemma moving_consume: "moving p \<Longrightarrow> consume tt v i p = Inr p' \<Longrightarrow> moving p'"
  by (auto simp: moving_def consume_def intro!: moving_advance [unfolded moving_def] split: if_splits)

lemma moving_then_ok:
  "then_ok (consume tt v i p) f = Inr p' \<Longrightarrow> moving p \<Longrightarrow> (\<And>q. moving q \<Longrightarrow> f q = Inr p' \<Longrightarrow> moving p') \<Longrightarrow> moving p'"
  by (cases "consume tt v i p") (auto intro: moving_consume)

lemma moving_skip_comma: "moving p \<Longrightarrow> moving (skip_comma p)"
  by (auto simp: skip_comma_def moving_consume split: sum.split)

lemma insert_values_returns: "moving p \<Longrightarrow> \<exists>r. insert_values p acc = Some r"
proof (induction "input_left p" arbitrary: p acc rule: less_induct)
  case less
  let ?p1 = "skip_comma p"
  show ?case
  proof (cases "cur_value p = '')''")
    case False
    show ?thesis
    proof (cases "consume IDENTIFIER '''' '''' ?p1")
      case (Inr p2)
      have "cur_value ?p1 \<noteq> ''''"
        using Inr moving_skip_comma [OF less.prems] by (simp add: consume_def moving_def split: if_splits)
      then have "input_left p2 < input_left p"
        using consume_left [OF Inr] skip_comma_left [of p] by (cases "cur_value ?p1") simp_all
      then show ?thesis
        using less.hyps [of p2] moving_consume [OF moving_skip_comma [OF less.prems] Inr] Inr False
        by (subst insert_values.simps) (simp add: Let_def)
    qed (subst insert_values.simps, simp add: Let_def)
  qed (subst insert_values.simps, simp)
qed

text \<open>C29: The parser of \<open>INSERT INTO\<close> returns a statement or an error on every text whose
  characters are all supported: letters, digits, spaces, symbols and comparison operators.\<close>

theorem insert_returns:
  assumes "\<forall>c \<in> set input. supported c"
  shows "\<exists>r. ParseInsertIntoTable (NewParser input) = Some r"
proof -
  have start: "moving (NewParser input)"
    using assms by (simp add: NewParser_def moving_advance)
  show ?thesis
  proof (cases "then_ok (consume KEYWORD ''INSERT'' '''' (NewParser input)) (\<lambda>p. consume KEYWORD ''INTO'' '''' p)")
    case (Inr p)
    then have p: "moving p"
      by (rule moving_then_ok [OF _ start]) (rule moving_consume)
    let ?r = "then_ok (consume IDENTIFIER '''' '''' p) (\<lambda>p.
      then_ok (consume KEYWORD ''VALUES'' '''' p) (\<lambda>p. consume SYMBOL ''('' '''' p))"
    have "moving p'" if "?r = Inr p'" for p'
    proof (rule moving_then_ok [OF that p])
      fix q assume q: "moving q" "then_ok (consume KEYWORD ''VALUES'' '''' q) (\<lambda>p. consume SYMBOL ''('' '''' p) = Inr p'"
      from q(2) show "moving p'"
        by (rule moving_then_ok [OF _ q(1)]) (rule moving_consume)
    qed
    then show ?thesis
      using Inr insert_values_returns
      by (cases ?r) (auto simp: ParseInsertIntoTable_def Let_def)
  qed (simp add: ParseInsertIntoTable_def)
qed

theorem insert_returns_witness:
  "\<exists>r. ParseInsertIntoTable (NewParser ''INSERT INTO users VALUES(1, <'') = Some r"
  by (rule insert_returns) code_simp

definition stuck :: "Parser \<Rightarrow> bool" where
  "stuck p \<longleftrightarrow> (\<forall>n. at p (replicate n (Ident '''')))"

lemma stuck_text:
  assumes "\<not> supported c"
  shows "next_token (c # s) = Ident ''''" and "rest_after (c # s) = c # s"
proof -
  show "next_token (c # s) = Ident ''''"
    using assms by (simp add: next_token_def scan_token_def supported_def ToUpper_def sql_keywords_def)
  then show "rest_after (c # s) = c # s"
    using assms by (simp add: rest_after_def supported_def)
qed

lemma spells_stuck: "\<not> supported c \<Longrightarrow> spells (c # s) (replicate n (Ident ''''))"
  by (induction n) (simp_all add: stuck_text)

lemma stuck_next:
  assumes "stuck p"
  shows "currentToken p = Ident ''''" and "stuck (advance (tokeniser p))"
proof -
  have at: "at p (Ident '''' # replicate n (Ident ''''))" for n
    using assms by (metis stuck_def replicate_Suc)
  show "currentToken p = Ident ''''"
    using at_cur [OF at] .
  show "stuck (advance (tokeniser p))"
    using consume_at [OF at, of IDENTIFIER "''''" "''''"] by (auto simp: stuck_def)
qed

lemma insert_values_stuck: "stuck p \<Longrightarrow> insert_values p acc = None"
proof -
  have "\<not> stuck p" if "insert_values p acc = Some r" for r
  proof (rule insert_values.raw_induct [where P = "\<lambda>p acc r. \<not> stuck p", OF _ that], goal_cases)
    case (1 run p acc r)
    show ?case
    proof
      assume "stuck p"
      note next_p = stuck_next [OF this]
      have "skip_comma p = p" "consume IDENTIFIER '''' '''' p = Inr (advance (tokeniser p))"
        using next_p(1) by (simp_all add: skip_comma_def consume_def)
      then show False
        using 1(1) [of "advance (tokeniser p)" "acc @ ['''']" r] 1(2) next_p
        by (simp add: Let_def)
    qed
  qed
  then show "stuck p \<Longrightarrow> insert_values p acc = None"
    by (cases "insert_values p acc") auto
qed

text \<open>C30: On an unsupported ASCII character, such as an underscore, among the values, the parser of
  \<open>INSERT INTO\<close> does not return: the tokeniser gives empty identifiers for ever, and each is
  taken as one more value. (Letters, digits and spaces outside ASCII are supported by the code and
  are not the subject of this statement.)\<close>

theorem insert_diverges:
  assumes "is_identifier name" and "\<forall>v \<in> set vs. is_identifier v" and "\<not> supported c"
    and "\<forall>x \<in> set (c # s). ascii x"
  shows "ParseInsertIntoTable (NewParser (print_tokens (insert_prefix name @ value_items vs) @ c # s)) = None"
proof -
  let ?ts = "insert_prefix name @ value_items vs"
  have lex: "\<forall>t \<in> set ?ts. lexeme t"
  proof
    fix t assume "t \<in> set ?ts"
    then have "t \<in> set (insert_prefix name) \<or> t = Sym '','' \<or> t \<in> Ident ` set vs"
      by (cases vs) (auto simp: value_items_def split: if_splits)
    then show "lexeme t"
      using assms(1,2)
      by (auto simp: insert_prefix_def symbols_def sql_keywords_def ToUpper_def alnum_def IsLetter_def
          less_eq_char_def)
  qed
  have spell: "spells (print_tokens ?ts @ c # s) (insert_prefix name @ value_items vs @ replicate n (Ident ''''))" for n
    using spells_append [OF lex, of "c # s" "replicate n (Ident '''')"] spells_stuck [OF assms(3)] by simp
  obtain p where p: "\<And>ts. spells (print_tokens ?ts @ c # s) (insert_prefix name @ value_items vs @ ts) \<Longrightarrow> at p ts"
    "ParseInsertIntoTable (NewParser (print_tokens ?ts @ c # s)) =
       map_option (finish_insert name) (insert_values p vs)"
    using insert_values_parsed [OF _ assms(2), of "print_tokens ?ts @ c # s" name] spell [of 0]
    unfolding replicate_0 append_Nil2 by metis
  have "stuck p"
    using p(1) [OF spell] by (simp add: stuck_def)
  then show ?thesis
    using p(2) insert_values_stuck by simp
qed

theorem insert_diverges_witness:
  "ParseInsertIntoTable (NewParser ''INSERT INTO users VALUES ( Ann , 42 _1)'') = None"
proof -
  have "is_identifier ''users''" "\<forall>v \<in> set [''Ann'', ''42'']. is_identifier v" "\<not> supported (CHR ''_'')"
    by code_simp+
  moreover have "print_tokens (insert_prefix ''users'' @ value_items [''Ann'', ''42'']) @ ''_1)''
      = ''INSERT INTO users VALUES ( Ann , 42 _1)''" "\<forall>x \<in> set ''_1)''. ascii x"
    by code_simp+
  ultimately show ?thesis
    using insert_diverges [of "''users''" "[''Ann'', ''42'']" "CHR ''_''" "''1)''"] by simp
qed

subsection \<open>\<open>SELECT\<close> statements\<close>

definition column_token :: "string \<Rightarrow> Token" where
  "column_token col = (if col = ''*'' then Sym ''*'' else Ident col)"

definition condition_tokens :: "QueryCondition \<Rightarrow> Token list" where
  "condition_tokens qc = [Ident (qc_ColumnName qc), Op (QueryType qc), Ident (qc_Value qc)]"

fun and_sep :: "Token list list \<Rightarrow> Token list" where
  "and_sep [] = []"
| "and_sep (x # xs) = x @ concat (map (\<lambda>y. Kw ''AND'' # y) xs)"

definition select_tokens :: "string \<Rightarrow> string list \<Rightarrow> QueryCondition list \<Rightarrow> Token list" where
  "select_tokens name cols conds =
     [Kw ''SELECT''] @ comma_sep (map (\<lambda>col. [column_token col]) cols) @ [Kw ''FROM'', Ident name] @
     (if conds = [] then [] else Kw ''WHERE'' # and_sep (map condition_tokens conds)) @ [Sym '';'']"

definition good_condition :: "QueryCondition \<Rightarrow> bool" where
  "good_condition qc \<longleftrightarrow> is_identifier (qc_ColumnName qc) \<and> is_identifier (qc_Value qc)"

lemma column_token_not:
  assumes "col = ''*'' \<or> is_identifier col"
  shows "token_value (column_token col) = col" "col \<noteq> '',''" "col \<noteq> ''FROM''"
  using assms is_identifier_not [of col] by (auto simp: column_token_def)

lemma select_columns_item:
  assumes "separator sep" and "at p (sep @ column_token col # ts)" and "col = ''*'' \<or> is_identifier col"
  shows "case n of 0 \<Rightarrow> select_columns n p acc = Inl (Errorf ''maximum 10 columns supported in SELECT query'')
    | Suc m \<Rightarrow> \<exists>p'. select_columns n p acc = select_columns m p' (acc @ [col]) \<and> at p' ts"
proof -
  obtain q where q: "(if cur_value p = '','' then consume SYMBOL '','' '''' p else Inr p) = Inr q"
    "at q (column_token col # ts)" "cur_value p \<noteq> ''FROM''"
  proof (cases "sep = []")
    case True
    then have "at p (column_token col # ts)"
      using assms(2) by simp
    then show ?thesis
      using that [of p] at_cur [of p "column_token col" ts] column_token_not [OF assms(3)] by simp
  next
    case False
    then have p: "at p (Sym '','' # column_token col # ts)"
      using assms(1,2) by (simp add: separator_def)
    show ?thesis
      using that [of "advance (tokeniser p)"] consume_at [OF p, of SYMBOL "'',''" "''''"] at_cur [OF p] by simp
  qed
  have item: "(if cur_value q = ''*'' then consume SYMBOL ''*'' '''' q else consume IDENTIFIER '''' '''' q)
      = Inr (advance (tokeniser q)) \<and> at (advance (tokeniser q)) ts"
    using consume_at [OF q(2), of SYMBOL "''*''" "''''"] consume_at [OF q(2), of IDENTIFIER "''''" "''''"]
      at_cur [OF q(2)] column_token_not(1) [OF assms(3)]
    by (auto simp: column_token_def)
  show ?thesis
    using q item at_cur [OF q(2)] column_token_not(1) [OF assms(3)]
    by (subst (1 2) select_columns.simps) (auto split: nat.split if_splits)
qed

lemma select_columns_after_first:
  assumes "at p (concat (map (\<lambda>col. [Sym '','', column_token col]) cols) @ Kw ''FROM'' # ts)"
    and "\<forall>col \<in> set cols. col = ''*'' \<or> is_identifier col"
  shows "if n < length cols
    then select_columns n p acc = Inl (Errorf ''maximum 10 columns supported in SELECT query'')
    else \<exists>p'. select_columns n p acc = Inr (acc @ cols, p') \<and> at p' (Kw ''FROM'' # ts)"
  using assms
proof (induction cols arbitrary: n p acc)
  case Nil
  then show ?case
    using at_cur [of p "Kw ''FROM''" ts] by (subst (1 2) select_columns.simps) simp
next
  case (Cons col cols)
  let ?ts = "concat (map (\<lambda>col. [Sym '','', column_token col]) cols) @ Kw ''FROM'' # ts"
  have item: "case n of 0 \<Rightarrow> select_columns n p acc = Inl (Errorf ''maximum 10 columns supported in SELECT query'')
    | Suc m \<Rightarrow> \<exists>p'. select_columns n p acc = select_columns m p' (acc @ [col]) \<and> at p' ?ts"
    using select_columns_item [of "[Sym '','']" p col ?ts n acc] Cons.prems by (simp add: separator_def)
  show ?case
  proof (cases n)
    case (Suc m)
    with item obtain p' where "select_columns n p acc = select_columns m p' (acc @ [col])" "at p' ?ts"
      by auto
    then show ?thesis
      using Cons.IH [of p' m "acc @ [col]"] Cons.prems(2) Suc by auto
  qed (use item in simp)
qed

lemma select_conditions_item:
  assumes "at p ((if n < 11 then [Kw ''AND''] else []) @ condition_tokens qc @ ts)" and "good_condition qc"
  shows "case n of 0 \<Rightarrow> select_conditions n p acc = Inl (Errorf ''maximum 10 AND conditions supported'')
    | Suc m \<Rightarrow> \<exists>p'. select_conditions n p acc = select_conditions m p' (acc @ [qc]) \<and> at p' ts"
proof -
  have qc: "qc_ColumnName qc \<notin> {'')'', '','', '';'', ''*'', ''FROM'', ''PRIMARY'', ''WHERE''}"
    using assms(2) by (intro is_identifier_not) (simp add: good_condition_def)
  obtain q where q: "(if n < 11 then consume KEYWORD ''AND'' '''' p else Inr p) = Inr q"
    "at q (condition_tokens qc @ ts)" "cur_value p \<noteq> '';''"
  proof (cases "n < 11")
    case True
    then have p: "at p (Kw ''AND'' # condition_tokens qc @ ts)"
      using assms(1) by simp
    show ?thesis
      using that [of "advance (tokeniser p)"] consume_at [OF p, of KEYWORD "''AND''" "''''"] at_cur [OF p] True by simp
  next
    case False
    then have "at p (condition_tokens qc @ ts)"
      using assms(1) by simp
    then show ?thesis
      using that [of p] at_cur [of p] qc False by (auto simp: condition_tokens_def)
  qed
  note c1 = consume_at [OF q(2) [unfolded condition_tokens_def append.simps], of IDENTIFIER "''''", simplified]
  note c2 = consume_at [OF c1 [THEN conjunct2], of CONDITIONAL_OPERATOR "''''", simplified]
  note c3 = consume_at [OF c2 [THEN conjunct2], of IDENTIFIER "''''", simplified]
  have eq: "\<lparr>qc_ColumnName = qc_ColumnName qc, QueryType = QueryType qc, qc_Value = qc_Value qc\<rparr> = qc"
    by simp
  show ?thesis
    using q(1,3) c1 c2 c3 at_cur [OF q(2) [unfolded condition_tokens_def append.simps]]
      at_cur [OF c1 [THEN conjunct2]] at_cur [OF c2 [THEN conjunct2]]
    by (subst (1 2) select_conditions.simps) (auto simp: eq split: nat.split if_splits)
qed

lemma select_conditions_after_first:
  assumes "at p (concat (map (\<lambda>qc. Kw ''AND'' # condition_tokens qc) conds) @ Sym '';'' # ts)"
    and "\<forall>qc \<in> set conds. good_condition qc" and "n < 11"
  shows "if n < length conds
    then select_conditions n p acc = Inl (Errorf ''maximum 10 AND conditions supported'')
    else \<exists>p'. select_conditions n p acc = Inr (acc @ conds, p') \<and> at p' (Sym '';'' # ts)"
  using assms
proof (induction conds arbitrary: n p acc)
  case Nil
  then show ?case
    using at_cur [of p "Sym '';''" ts] by (subst (1 2) select_conditions.simps) simp
next
  case (Cons qc conds)
  let ?ts = "concat (map (\<lambda>qc. Kw ''AND'' # condition_tokens qc) conds) @ Sym '';'' # ts"
  have item: "case n of 0 \<Rightarrow> select_conditions n p acc = Inl (Errorf ''maximum 10 AND conditions supported'')
    | Suc m \<Rightarrow> \<exists>p'. select_conditions n p acc = select_conditions m p' (acc @ [qc]) \<and> at p' ?ts"
    using Cons.prems by (intro select_conditions_item) simp_all
  show ?case
  proof (cases n)
    case (Suc m)
    with item obtain p' where "select_conditions n p acc = select_conditions m p' (acc @ [qc])" "at p' ?ts"
      by auto
    then show ?thesis
      using Cons.IH [of p' m "acc @ [qc]"] Cons.prems(2,3) Suc by auto
  qed (use item in simp)
qed

lemma parse_columns:
  assumes "at p (comma_sep (map (\<lambda>col. [column_token col]) cols) @ Kw ''FROM'' # ts)"
    and "cols \<noteq> []" and "\<forall>col \<in> set cols. col = ''*'' \<or> is_identifier col"
  shows "if 10 < length cols
    then parseColumnsFromSelectQuery p = Inl (Errorf ''maximum 10 columns supported in SELECT query'')
    else \<exists>p'. parseColumnsFromSelectQuery p = Inr (cols, p') \<and> at p' (Kw ''FROM'' # ts)"
proof -
  obtain col cols' where cols: "cols = col # cols'"
    using assms(2) by (cases cols) auto
  let ?ts = "concat (map (\<lambda>col. [Sym '','', column_token col]) cols') @ Kw ''FROM'' # ts"
  have "at p ([] @ column_token col # ?ts)"
    using assms(1) cols by (simp add: o_def)
  then obtain p1 where p1: "select_columns 10 p [] = select_columns 9 p1 [col]" "at p1 ?ts"
    using select_columns_item [of "[]" p col ?ts 10 "[]"] assms(3) cols
    by (auto simp: separator_def numeral_eq_Suc)
  show ?thesis
    using select_columns_after_first [OF p1(2), of 9 "[col]"] p1(1) assms(3) cols
    by (auto simp: parseColumnsFromSelectQuery_def)
qed

lemma parse_conditions:
  assumes "at p (Kw ''WHERE'' # and_sep (map condition_tokens conds) @ [Sym '';''])"
    and "conds \<noteq> []" and "\<forall>qc \<in> set conds. good_condition qc"
  shows "if 11 < length conds
    then parseQueryConditionsFromSelectQuery p = Inl (Errorf ''maximum 10 AND conditions supported'')
    else \<exists>p'. parseQueryConditionsFromSelectQuery p = Inr (conds, p') \<and> at p' [Sym '';'']"
proof -
  obtain qc conds' where conds: "conds = qc # conds'"
    using assms(2) by (cases conds) auto
  let ?ts = "concat (map (\<lambda>qc. Kw ''AND'' # condition_tokens qc) conds') @ [Sym '';'']"
  note c1 = consume_at [OF assms(1), of KEYWORD "''WHERE''" "''''", simplified]
  let ?q = "advance (tokeniser p)"
  have "at ?q ((if (11::nat) < 11 then [Kw ''AND''] else []) @ condition_tokens qc @ ?ts)"
    using c1 conds by (simp add: o_def)
  from select_conditions_item [OF this, of "[]"]
  obtain p1 where p1: "select_conditions 11 ?q [] = select_conditions 10 p1 [qc]" "at p1 ?ts"
    using assms(3) conds by (auto simp: numeral_eq_Suc)
  show ?thesis
    using select_conditions_after_first [OF p1(2), of 10 "[qc]"] p1(1) assms(3) conds c1
    by (auto simp: parseQueryConditionsFromSelectQuery_def)
qed

text \<open>C28: A \<open>SELECT\<close> statement is read back from any text with its tokens, with at most 10
  columns and at most 11 conditions; with more of either the parser reports that error.\<close>

theorem parse_select:
  assumes "spells input (select_tokens name cols conds)"
    and "is_identifier name" and "cols \<noteq> []"
    and "\<forall>col \<in> set cols. col = ''*'' \<or> is_identifier col" and "\<forall>qc \<in> set conds. good_condition qc"
  shows "ParseSelectFromTable (NewParser input) =
    (if 10 < length cols then Inl (Errorf ''maximum 10 columns supported in SELECT query'')
     else if 11 < length conds then Inl (Errorf ''maximum 10 AND conditions supported'')
     else Inr \<lparr>sel_TableName = name, ColumnsRequired = cols, QueryConditions = conds\<rparr>)"
proof -
  let ?rest = "(if conds = [] then [] else Kw ''WHERE'' # and_sep (map condition_tokens conds)) @ [Sym '';'']"
  let ?cols = "comma_sep (map (\<lambda>col. [column_token col]) cols)"
  have p: "at (NewParser input) (Kw ''SELECT'' # ?cols @ Kw ''FROM'' # Ident name # ?rest)"
    using at_NewParser [OF assms(1)] by (simp add: select_tokens_def)
  note c1 = consume_at [OF p, of KEYWORD "''SELECT''" "''''", simplified]
  note columns = parse_columns [OF c1 [THEN conjunct2] assms(3,4)]
  show ?thesis
  proof (cases "10 < length cols")
    case True
    then show ?thesis
      using columns c1 by (simp add: ParseSelectFromTable_def)
  next
    case False
    then obtain p1 where p1: "parseColumnsFromSelectQuery (advance (tokeniser (NewParser input))) = Inr (cols, p1)"
      "at p1 (Kw ''FROM'' # Ident name # ?rest)"
      using columns by auto
    note c2 = consume_at [OF p1(2), of KEYWORD "''FROM''" "''''", simplified]
    note c3 = consume_at [OF c2 [THEN conjunct2], of IDENTIFIER "''''" "''''", simplified]
    let ?p3 = "advance (tokeniser (advance (tokeniser p1)))"
    have start: "ParseSelectFromTable (NewParser input) =
      then_ok (if cur_value ?p3 = ''WHERE'' then parseQueryConditionsFromSelectQuery ?p3 else Inr ([], ?p3))
       (\<lambda>(queryConditions, p). then_ok (consume SYMBOL '';'' '''' p) (\<lambda>_.
         Inr \<lparr>sel_TableName = name, ColumnsRequired = cols, QueryConditions = queryConditions\<rparr>))"
      using c1 p1(1) c2 c3 at_cur [OF c2 [THEN conjunct2]]
      by (simp add: ParseSelectFromTable_def Let_def del: prod.case split: prod.splits)
    show ?thesis
    proof (cases "conds = []")
      case True
      then have p3: "at ?p3 [Sym '';'']"
        using c3 by simp
      show ?thesis
        using start True False at_cur [OF p3] consume_at [OF p3, of SYMBOL "'';''" "''''"] by simp
    next
      case conds: False
      then have p3: "at ?p3 (Kw ''WHERE'' # and_sep (map condition_tokens conds) @ [Sym '';''])"
        using c3 by simp
      show ?thesis
        using start False parse_conditions [OF p3 conds assms(5)] at_cur [OF p3]
          consume_at [of _ "Sym '';''" "[]" SYMBOL "'';''" "''''"]
        by (auto split: if_splits)
    qed
  qed
qed

theorem parse_select_witness:
  "ParseSelectFromTable (NewParser ''SELECT id, name FROM users WHERE age>=18 AND name = Ann;'') =
    Inr \<lparr>sel_TableName = ''users'', ColumnsRequired = [''id'', ''name''],
      QueryConditions = [\<lparr>qc_ColumnName = ''age'', QueryType = ''>='', qc_Value = ''18''\<rparr>,
        \<lparr>qc_ColumnName = ''name'', QueryType = ''='', qc_Value = ''Ann''\<rparr>]\<rparr>"
proof -
  let ?conds = "[\<lparr>qc_ColumnName = ''age'', QueryType = ''>='', qc_Value = ''18''\<rparr>,
        \<lparr>qc_ColumnName = ''name'', QueryType = ''='', qc_Value = ''Ann''\<rparr>]"
  have "spells ''SELECT id, name FROM users WHERE age>=18 AND name = Ann;''
      (select_tokens ''users'' [''id'', ''name''] ?conds)"
    by code_simp
  moreover have "is_identifier ''users''" "\<forall>col \<in> set [''id'', ''name'']. col = ''*'' \<or> is_identifier col"
    "\<forall>qc \<in> set ?conds. good_condition qc"
    by code_simp+
  ultimately show ?thesis
    using parse_select [of _ "''users''" "[''id'', ''name'']" ?conds] by simp
qed

end
