(* ===== verification/Sql_Rows.thy ===== *)
theory Sql_Rows
  imports Sql_Parser
begin

text \<open>
  How a row becomes a key and a value (\<^verbatim>\<open>db/db.go\<close>) and how a value becomes a row again
  (\<^verbatim>\<open>db/select.go\<close>), and the keys of secondary indexes. The encoder checks its input; the
  decoder trusts its bytes, so its failures are panics.
\<close>

subsection \<open>Numbers\<close>

text \<open>\<open>strconv.Atoi\<close>: an optional sign and decimal digits, in the range of a 64-bit integer.\<close>

definition atoi_error :: "string \<Rightarrow> string \<Rightarrow> goerr" where
  "atoi_error s reason = Errorf (''strconv.Atoi: parsing '' @ quoted s @ '': '' @ reason)"

definition Atoi :: "string \<Rightarrow> goerr + int" where
  "Atoi s =
     (let digits = (if s \<noteq> [] \<and> hd s \<in> {CHR ''-'', CHR ''+''} then tl s else s) in
      if digits = [] \<or> \<not> list_all is_digit digits then Inl (atoi_error s ''invalid syntax'')
      else let n = (if hd s = CHR ''-'' then - int (dec_value digits) else int (dec_value digits)) in
        if n < - 9223372036854775808 \<or> 9223372036854775807 < n
        then Inl (atoi_error s ''value out of range'')
        else Inr n)"

text \<open>\<open>strconv.FormatUint(v, 2)\<close> on a byte.\<close>

fun nat_bin :: "nat \<Rightarrow> string" where
  "nat_bin n = (if n < 2 then [char_of (48 + n)] else nat_bin (n div 2) @ [char_of (48 + n mod 2)])"

declare nat_bin.simps [simp del]

subsection \<open>Writing a row\<close>

text \<open>One turn of the switch on the type of a column; other types write nothing.\<close>

definition column_field :: "8 word \<Rightarrow> string \<Rightarrow> goerr + bytes" where
  "column_field dataType columnValue =
     (if dataType = Int_type then
        (case Atoi columnValue of
           Inl e \<Rightarrow> Inl e
         | Inr valueInt \<Rightarrow> Inr (be32 (word_of_int valueInt)))
      else if dataType = String_type then Inr (len32 columnValue @ columnValue)
      else if dataType = Bool_type then
        (case Atoi columnValue of
           Inl e \<Rightarrow> Inl e
         | Inr valueInt \<Rightarrow>
             if valueInt \<noteq> 0 \<and> valueInt \<noteq> 1
             then Inl (Errorf ''only 0 and 1 values supported for BOOL data type'')
             else Inr [byte_of (word_of_int valueInt)])
      else Inr [])"

fun row_fields :: "Column list \<Rightarrow> string list \<Rightarrow> bytes \<Rightarrow> goerr + bytes" where
  "row_fields cols [] valueSchemaBuf = Inr valueSchemaBuf"
| "row_fields [] (columnValue # vs) valueSchemaBuf = Inl index_panic"
| "row_fields (col # cols) (columnValue # vs) valueSchemaBuf =
     (case column_field (DataType col) columnValue of
        Inl e \<Rightarrow> Inl e
      | Inr field \<Rightarrow> row_fields cols vs (valueSchemaBuf @ field))"

text \<open>The value at the position of the primary key; empty when there is none.\<close>

definition primary_key_value :: "CreateTable \<Rightarrow> string list \<Rightarrow> string" where
  "primary_key_value table vs =
     (let i = PrimaryKeyColumnPosition table in
      if 0 \<le> i \<and> nat i < length vs then vs ! nat i else '''')"

definition row_key :: "string \<Rightarrow> string \<Rightarrow> string" where
  "row_key tableName primaryKeyValue = tableName @ '':'' @ primaryKeyValue"

definition serialiseInsertIntoTableInput ::
    "(string \<rightharpoonup> CreateTable) \<Rightarrow> InsertIntoTable \<Rightarrow> goerr + string \<times> bytes" where
  "serialiseInsertIntoTableInput schemas inp =
     (let table = schema_of schemas (ins_TableName inp) in
      case row_fields (ColumnDetails table) (ColumnValues inp) [] of
        Inl e \<Rightarrow> Inl e
      | Inr valueSchemaBuf \<Rightarrow>
          Inr (row_key (ins_TableName inp) (primary_key_value table (ColumnValues inp)), valueSchemaBuf))"

subsection \<open>Reading a row\<close>

text \<open>One turn of the loop of \<open>deserializeRowValues\<close>: the value at \<open>i\<close>, if the column has one,
  and the next \<open>i\<close>. Slice expressions panic beyond the capacity of \<open>[]byte(value)\<close>, which is the
  length of the string: Go does not copy a string into a slice that is only read.\<close>

definition read_field :: "8 word \<Rightarrow> bytes \<Rightarrow> nat \<Rightarrow> goerr + string list \<times> nat" where
  "read_field dataType buf i =
     (if dataType = Int_type then
        if i + 4 > length buf then Inl slice_panic
        else Inr ([nat_dec (unat (Uint32 (slice buf i (i + 4))))], i + 4)
      else if dataType = String_type then
        if i + 4 > length buf then Inl slice_panic
        else let len = unat (Uint32 (slice buf i (i + 4))); i = i + 4 in
          if i + len > length buf then Inl slice_panic
          else Inr ([slice buf i (i + len)], i + len)
      else if dataType = Bool_type then
        if i \<ge> length buf then Inl index_panic
        else Inr ([nat_bin (of_char (buf ! i))], i + 1)
      else Inr ([], i))"

fun read_row :: "Column list \<Rightarrow> bytes \<Rightarrow> nat \<Rightarrow> string list \<Rightarrow> goerr + string list" where
  "read_row [] buf i rowValues = Inr rowValues"
| "read_row (col # cols) buf i rowValues =
     (case read_field (DataType col) buf i of
        Inl e \<Rightarrow> Inl e
      | Inr (vals, j) \<Rightarrow> read_row cols buf j (rowValues @ vals))"

definition deserializeRowValues ::
    "(string \<rightharpoonup> CreateTable) \<Rightarrow> string \<Rightarrow> bytes \<Rightarrow> goerr + string list" where
  "deserializeRowValues schemas tableName value =
     read_row (ColumnDetails (schema_of schemas tableName)) value 0 []"

subsection \<open>Keys of secondary indexes\<close>

definition getSecondaryIndexKeyOrPrefix :: "string \<Rightarrow> string \<Rightarrow> string list \<Rightarrow> string \<Rightarrow> string" where
  "getSecondaryIndexKeyOrPrefix tableName indexName columnValues primaryKeyValue =
     (let indexKey = ''index:'' @ tableName @ '':'' @ indexName;
          indexColValues = foldl (\<lambda>acc colValue. acc @ ('':'' @ colValue)) '''' columnValues;
          indexKey = indexKey @ indexColValues in
      if primaryKeyValue \<noteq> '''' then indexKey @ ('':'' @ primaryKeyValue) else indexKey @ '':'')"

text \<open>The inner loop over the columns of the table, from position \<open>i\<close>.\<close>

fun index_column ::
    "string \<Rightarrow> int \<Rightarrow> string list \<Rightarrow> Column list \<Rightarrow> nat \<Rightarrow> string list \<times> string
       \<Rightarrow> goerr + string list \<times> string" where
  "index_column name pkPos vs [] i acc = Inr acc"
| "index_column name pkPos vs (col # cols) i (colValues, pkColValue) =
     (if (ColumnName col = name \<or> int i = pkPos) \<and> i \<ge> length vs then Inl index_panic
      else index_column name pkPos vs cols (Suc i)
        (if ColumnName col = name then colValues @ [vs ! i] else colValues,
         if int i = pkPos then vs ! i else pkColValue))"

fun index_columns ::
    "string list \<Rightarrow> int \<Rightarrow> string list \<Rightarrow> Column list \<Rightarrow> string list \<times> string
       \<Rightarrow> goerr + string list \<times> string" where
  "index_columns [] pkPos vs cols acc = Inr acc"
| "index_columns (name # names) pkPos vs cols acc =
     (case index_column name pkPos vs cols 0 acc of
        Inl e \<Rightarrow> Inl e
      | Inr acc' \<Rightarrow> index_columns names pkPos vs cols acc')"

definition getIndexAndPrimaryKeyColumnValuesInIndexSequence ::
    "(string \<rightharpoonup> CreateTable) \<Rightarrow> string list \<Rightarrow> InsertIntoTable \<Rightarrow> goerr + string list \<times> string" where
  "getIndexAndPrimaryKeyColumnValuesInIndexSequence schemas indexColumnNames inp =
     (let table = schema_of schemas (ins_TableName inp) in
      case index_columns indexColumnNames (PrimaryKeyColumnPosition table) (ColumnValues inp)
             (ColumnDetails table) ([], '''') of
        Inl e \<Rightarrow> Inl e
      | Inr (colValues, pkColValue) \<Rightarrow>
          if length colValues \<noteq> length indexColumnNames
          then Inl (Errorf ''all column values not found'')
          else if pkColValue = '''' then Inl (Errorf ''primary key column value not found'')
          else Inr (colValues, pkColValue))"

subsection \<open>Numbers are read back\<close>

lemma list_all_digits: "list_all is_digit (nat_dec n)"
  using nat_dec_digits by (auto simp: list_all_iff)

lemma nat_dec_hd: "hd (nat_dec n) \<notin> {CHR ''-'', CHR ''+''}"
proof -
  have "is_digit (hd (nat_dec n))"
    by (rule nat_dec_digits [of _ n]) simp
  then show ?thesis
    by (auto simp: is_digit_def)
qed

lemma Atoi_nat_dec: "n \<le> 9223372036854775807 \<Longrightarrow> Atoi (nat_dec n) = Inr (int n)"
  using nat_dec_hd [of n] by (auto simp: Atoi_def Let_def list_all_digits dec_value_nat_dec)

lemma Atoi_minus_nat_dec:
  "n \<le> 9223372036854775808 \<Longrightarrow> Atoi (CHR ''-'' # nat_dec n) = Inr (- int n)"
  by (simp add: Atoi_def Let_def list_all_digits dec_value_nat_dec)

subsection \<open>Rows are read back\<close>

text \<open>What the decoder makes of a value that the encoder accepted.\<close>

definition stored_value :: "8 word \<Rightarrow> string \<Rightarrow> string" where
  "stored_value dataType v =
     (if dataType = String_type then v
      else case Atoi v of Inr n \<Rightarrow> nat_dec (nat (n mod 4294967296)) | Inl _ \<Rightarrow> v)"

definition known_type :: "Column \<Rightarrow> bool" where
  "known_type col \<longleftrightarrow> DataType col \<in> {Int_type, String_type, Bool_type}"

lemma read_field_column:
  assumes "column_field d v = Inr field" and "d \<in> {Int_type, String_type, Bool_type}"
    and "fits32 (length (pre @ field @ post))"
  shows "read_field d (pre @ field @ post) (length pre) = Inr ([stored_value d v], length pre + length field)"
proof -
  consider "d = Int_type" | "d = String_type" | "d = Bool_type"
    using assms(2) by auto
  then show ?thesis
  proof cases
    case 1
    then obtain n where n: "Atoi v = Inr n" "field = be32 (word_of_int n)"
      using assms(1) by (auto simp: column_field_def split: sum.splits)
    have "slice (pre @ field @ post) (length pre) (length pre + 4) = field"
      by (rule slice_at) (simp_all add: n)
    moreover have "unat (word_of_int n :: 32 word) = nat (n mod 4294967296)"
      by (simp add: unat_eq_nat_uint uint_word_of_int)
    ultimately show ?thesis
      using 1 n by (simp add: read_field_def stored_value_def)
  next
    case 2
    then have f: "field = len32 v @ v"
      using assms(1) by (simp add: column_field_def)
    have "unat (word_of_nat (length v) :: 32 word) = length v"
      using assms(3) f by simp
    moreover have "slice (pre @ field @ post) (length pre) (length pre + 4) = len32 v"
      using slice_at [of "length pre" pre "length pre + 4" "len32 v" "v @ post"] by (simp add: f)
    moreover have "slice (pre @ field @ post) (length pre + 4) (length pre + 4 + length v) = v"
      using slice_at [of "length pre + 4" "pre @ len32 v" "length pre + 4 + length v" v post] by (simp add: f)
    ultimately show ?thesis
      using 2 f by (simp add: read_field_def stored_value_def Let_def)
  next
    case 3
    then obtain n where n: "Atoi v = Inr n" "n = 0 \<or> n = 1" "field = [byte_of (word_of_int n)]"
      using assms(1) by (auto simp: column_field_def split: sum.splits if_splits)
    then have "nat_bin (of_char ((pre @ field @ post) ! length pre)) = nat_dec (nat n)"
      by (auto simp: nth_append byte_of_def nat_bin.simps [of 0] nat_bin.simps [of "Suc 0"]
          nat_dec.simps [of 0] nat_dec.simps [of "Suc 0"])
    then show ?thesis
      using 3 n by (auto simp: read_field_def stored_value_def)
  qed
qed

definition stored_row :: "Column list \<Rightarrow> string list \<Rightarrow> string list" where
  "stored_row cols vs = map2 (\<lambda>col v. stored_value (DataType col) v) cols vs"

lemma row_fields_prefix: "row_fields cols vs buf = Inr out \<Longrightarrow> prefix buf out"
  by (induction cols vs buf rule: row_fields.induct) (auto split: sum.splits dest: append_prefixD)

lemma read_row_fields:
  assumes "row_fields cols vs buf = Inr out" and "length vs = length cols"
    and "\<forall>col \<in> set cols. known_type col" and "fits32 (length out)"
  shows "read_row cols out (length buf) acc = Inr (acc @ stored_row cols vs)"
  using assms
proof (induction cols vs buf arbitrary: acc rule: row_fields.induct)
  case (3 col cols v vs buf)
  obtain field where f: "column_field (DataType col) v = Inr field" "row_fields cols vs (buf @ field) = Inr out"
    using "3.prems"(1) by (auto split: sum.splits)
  obtain post where out: "out = buf @ field @ post"
    using row_fields_prefix [OF f(2)] by (auto simp: prefix_def)
  have "read_field (DataType col) out (length buf) =
      Inr ([stored_value (DataType col) v], length (buf @ field))"
    using read_field_column [OF f(1), of buf post] "3.prems"(3,4) out by (simp add: known_type_def)
  then show ?case
    using "3.IH" [OF f] "3.prems"(2-4) by (simp add: stored_row_def)
qed (simp_all add: stored_row_def)

lemma small_numbers: "nat_dec 0 = ''0''" "nat_dec 1 = ''1''" "nat_dec 42 = ''42''"
  by code_simp+

text \<open>The values that a column gives back as they were written.\<close>

definition canonical :: "Column \<Rightarrow> string \<Rightarrow> bool" where
  "canonical col v \<longleftrightarrow> known_type col
     \<and> (DataType col = Int_type \<longrightarrow> (\<exists>n < 4294967296. v = nat_dec n))
     \<and> (DataType col = Bool_type \<longrightarrow> v = ''0'' \<or> v = ''1'')"

lemma canonical_column:
  assumes "canonical col v"
  shows "\<exists>field. column_field (DataType col) v = Inr field" and "stored_value (DataType col) v = v"
proof -
  have "v = ''0'' \<or> v = ''1'' \<Longrightarrow> \<exists>n < 2. v = nat_dec n"
    by (auto simp: less_2_cases_iff ex_disj_distrib small_numbers simp flip: One_nat_def)
  then consider n where "DataType col = Int_type" "n < 4294967296" "v = nat_dec n" | "DataType col = String_type"
    | n where "DataType col = Bool_type" "n < 2" "v = nat_dec n"
    using assms by (auto simp: canonical_def known_type_def)
  then have "(\<exists>field. column_field (DataType col) v = Inr field) \<and> stored_value (DataType col) v = v"
    by cases (auto simp: column_field_def stored_value_def Atoi_nat_dec less_2_cases_iff)
  then show "\<exists>field. column_field (DataType col) v = Inr field" and "stored_value (DataType col) v = v"
    by blast+
qed

lemma row_fields_canonical:
  assumes "list_all2 canonical cols vs"
  shows "\<exists>out. row_fields cols vs buf = Inr out" and "stored_row cols vs = vs"
proof -
  show "\<exists>out. row_fields cols vs buf = Inr out"
    using assms
  proof (induction arbitrary: buf)
    case (Cons col cols v vs)
    then show ?case
      using canonical_column(1) [OF Cons.hyps(1)] by auto
  qed simp
  show "stored_row cols vs = vs"
    using assms by induction (simp_all add: stored_row_def canonical_column(2))
qed

lemma row_read_back:
  assumes "schemas tableName = Some t" and "list_all2 canonical (ColumnDetails t) vs"
    and "row_fields (ColumnDetails t) vs [] = Inr buf" and "fits32 (length buf)"
  shows "deserializeRowValues schemas tableName buf = Inr vs"
proof -
  have "\<forall>col \<in> set (ColumnDetails t). known_type col"
    using assms(2) by (auto simp: list_all2_conv_all_nth canonical_def in_set_conv_nth)
  from read_row_fields [OF assms(3) _ this assms(4), of "[]"] show ?thesis
    using list_all2_lengthD [OF assms(2)] row_fields_canonical(2) [OF assms(2)] assms(1)
    by (simp add: deserializeRowValues_def schema_of_def)
qed

subsection \<open>Properties of rows\<close>

text \<open>C24: A row is read back from its value as it was inserted, when its strings are arbitrary, its
  BOOL values are 0 or 1 and its INT values are decimal numbers of 32 bits; its key is the name of
  the table with the value of the primary key.\<close>

theorem row_roundtrip:
  assumes "schemas tableName = Some t" and "list_all2 canonical (ColumnDetails t) vs"
  shows "\<exists>buf. serialiseInsertIntoTableInput schemas \<lparr>ins_TableName = tableName, ColumnValues = vs\<rparr> =
      Inr (tableName @ '':'' @ primary_key_value t vs, buf)
    \<and> (fits32 (length buf) \<longrightarrow> deserializeRowValues schemas tableName buf = Inr vs)"
proof -
  obtain buf where buf: "row_fields (ColumnDetails t) vs [] = Inr buf"
    using row_fields_canonical(1) [OF assms(2)] by blast
  then show ?thesis
    using row_read_back [of schemas tableName t vs buf] buf assms by (simp add: serialiseInsertIntoTableInput_def schema_of_def row_key_def)
qed

definition example_table :: CreateTable where
  "example_table = \<lparr>TableName = ''users'', ColumnDetails = [\<lparr>ColumnName = ''name'', DataType = 1\<rparr>,
     \<lparr>ColumnName = ''id'', DataType = 0\<rparr>, \<lparr>ColumnName = ''ok'', DataType = 2\<rparr>],
     PrimaryKeyColumnPosition = 1, SecondaryIndexes = [\<lparr>Columns = [''ok'', ''name''], IndexName = ''byok''\<rparr>]\<rparr>"


lemma example_row: "list_all2 canonical (ColumnDetails example_table) [''Ann'', ''42'', ''1'']"
  using small_numbers(3) [symmetric] by (auto simp: example_table_def canonical_def known_type_def)

theorem row_roundtrip_witness:
  "\<exists>buf. serialiseInsertIntoTableInput [''users'' \<mapsto> example_table]
      \<lparr>ins_TableName = ''users'', ColumnValues = [''Ann'', ''42'', ''1'']\<rparr> = Inr (''users:42'', buf)
    \<and> (fits32 (length buf) \<longrightarrow>
        deserializeRowValues [''users'' \<mapsto> example_table] ''users'' buf = Inr [''Ann'', ''42'', ''1''])"
  using row_roundtrip [of "[''users'' \<mapsto> example_table]" "''users''", OF _ example_row]
  by (simp add: primary_key_value_def example_table_def)

subsection \<open>Properties of index keys\<close>

definition colon_free :: "string \<Rightarrow> bool" where
  "colon_free s \<longleftrightarrow> CHR '':'' \<notin> set s"

definition colon_join :: "string list \<Rightarrow> string" where
  "colon_join parts = concat (map (\<lambda>p. p @ '':'') parts)"

lemma prefix_colon:
  assumes "colon_free x" and "colon_free y"
  shows "prefix (x @ CHR '':'' # a) (y @ CHR '':'' # b) \<longleftrightarrow> x = y \<and> prefix a b"
  using assms
proof (induction x arbitrary: y)
  case Nil
  then show ?case
    by (cases y) (auto simp: colon_free_def)
next
  case (Cons c x)
  then show ?case
    by (cases y) (auto simp: colon_free_def)
qed

lemma prefix_colon_join:
  assumes "\<forall>x \<in> set xs. colon_free x" and "\<forall>y \<in> set ys. colon_free y" and "colon_free z"
  shows "prefix (colon_join xs) (colon_join ys @ z) \<longleftrightarrow> prefix xs ys"
  using assms
proof (induction xs arbitrary: ys)
  case Nil
  then show ?case
    by (simp add: colon_join_def)
next
  case (Cons x xs)
  show ?case
  proof (cases ys)
    case Nil
    have "\<not> prefix (x @ CHR '':'' # a) z" for a
      using Cons.prems(3) by (auto simp: colon_free_def prefix_def)
    then show ?thesis
      by (simp add: Nil colon_join_def)
  next
    case (Cons y ys')
    then show ?thesis
      using Cons.IH [of ys'] Cons.prems prefix_colon [of x y]
      by (simp add: colon_join_def)
  qed
qed

lemma index_key_parts:
  "getSecondaryIndexKeyOrPrefix tableName indexName vs pk =
     (if pk = '''' then colon_join ([''index'', tableName, indexName] @ vs)
      else colon_join ([''index'', tableName, indexName] @ vs) @ pk)"
proof -
  have "foldl (\<lambda>acc colValue. acc @ ('':'' @ colValue)) acc vs = acc @ concat (map (\<lambda>v. '':'' @ v) vs)" for acc
    by (induction vs arbitrary: acc) simp_all
  moreover have "concat (map (\<lambda>v. '':'' @ v) vs) @ '':'' = '':'' @ colon_join vs"
    by (induction vs) (simp_all add: colon_join_def)
  ultimately show ?thesis
    by (simp add: getSecondaryIndexKeyOrPrefix_def Let_def colon_join_def)
qed

text \<open>The prefix that a query builds for an index selects exactly the entries of that index of
  that table whose first columns have the given values: no entry of another table or index and none
  with a value that only starts alike. Names and values must not contain a colon, and an entry needs
  a primary key.\<close>

lemma index_prefix_iff:
  assumes "\<forall>s \<in> set (tableName # indexName # vs). colon_free s"
    and "\<forall>s \<in> set (tableName' # indexName' # us). colon_free s"
    and "colon_free pk" and "pk \<noteq> ''''"
  shows "HasPrefix (getSecondaryIndexKeyOrPrefix tableName' indexName' us pk)
      (getSecondaryIndexKeyOrPrefix tableName indexName vs '''') \<longleftrightarrow>
    tableName = tableName' \<and> indexName = indexName' \<and> prefix vs us"
proof -
  have "colon_free ''index''"
    by (simp add: colon_free_def)
  then show ?thesis
    using prefix_colon_join [of "[''index'', tableName, indexName] @ vs"
        "[''index'', tableName', indexName'] @ us" pk] assms
    by (auto simp: index_key_parts)
qed

lemma index_prefix_example:
  "HasPrefix (getSecondaryIndexKeyOrPrefix ''users'' ''byok'' [''1'', ''Ann''] ''42'')
      (getSecondaryIndexKeyOrPrefix ''users'' ''byok'' [''1''] '''')
   \<and> \<not> HasPrefix (getSecondaryIndexKeyOrPrefix ''users'' ''byok'' [''1'', ''Ann''] ''42'')
      (getSecondaryIndexKeyOrPrefix ''users'' ''byok'' [''1'', ''A''] '''')"
  using index_prefix_iff [of "''users''" "''byok''" "[''1'']" "''users''" "''byok''" "[''1'', ''Ann'']" "''42''"]
    index_prefix_iff [of "''users''" "''byok''" "[''1'', ''A'']" "''users''" "''byok''" "[''1'', ''Ann'']" "''42''"]
  by (simp add: colon_free_def)

end
