(* ===== verification/Sql_Types.thy ===== *)
theory Sql_Types
  imports Sql_Rows
begin

text \<open>
  The types of SQL values across \<^verbatim>\<open>sql_parser/parser.go\<close>, \<^verbatim>\<open>db/db.go\<close> and \<^verbatim>\<open>db/select.go\<close>. A
  schema is well typed when its columns have the three types of the language and its key position
  is one of them; the parser builds no other schema, whatever its input. For such a schema the
  encoder accepts the rows of the right types and no other, and its bytes are decoded to a row of
  the same types.
\<close>

definition has_type :: "8 word \<Rightarrow> string \<Rightarrow> bool" where
  "has_type d v \<longleftrightarrow>
     (if d = Int_type then (case Atoi v of Inl _ \<Rightarrow> False | Inr _ \<Rightarrow> True)
      else if d = Bool_type then (case Atoi v of Inl _ \<Rightarrow> False | Inr n \<Rightarrow> n = 0 \<or> n = 1)
      else d = String_type)"

definition row_typed :: "Column list \<Rightarrow> string list \<Rightarrow> bool" where
  "row_typed cols vs \<longleftrightarrow> list_all2 (\<lambda>col v. has_type (DataType col) v) cols vs"

definition schema_typed :: "CreateTable \<Rightarrow> bool" where
  "schema_typed t \<longleftrightarrow> (\<forall>col \<in> set (ColumnDetails t). known_type col)
     \<and> 0 \<le> PrimaryKeyColumnPosition t \<and> PrimaryKeyColumnPosition t < int (length (ColumnDetails t))"

subsection \<open>The parser builds well-typed schemas\<close>

lemma getDataTypeFromString_known:
  "getDataTypeFromString s = Inr d \<Longrightarrow> known_type \<lparr>ColumnName = n, DataType = d\<rparr>"
  by (auto simp: getDataTypeFromString_def known_type_def split: if_splits)

lemma create_columns_known:
  assumes "create_columns p cols pk = Inr (cols', pk', p')" and "\<forall>col \<in> set cols. known_type col"
  shows "\<forall>col \<in> set cols'. known_type col"
  using assms
proof (induction p cols pk rule: create_columns.induct)
  case (1 p cols pk)
  note result = "1.prems"(1) [unfolded create_columns.simps [of p cols pk]]
  show ?case
  proof (cases "cur_value p = '')''")
    case True
    then show ?thesis
      using result "1.prems"(2) by simp
  next
    case open_list: False
    show ?thesis
    proof (cases "cur_value (skip_comma p) = ''PRIMARY''")
      case True
      then obtain q pk2 where "parsePrimaryKeyColumn (skip_comma p) = Inr (pk2, q)"
          "create_columns q cols pk2 = Inr (cols', pk', p')"
        using result open_list by (auto simp: Let_def split: sum.splits)
      then show ?thesis
        using "1.IH"(1) [OF open_list refl True] "1.prems"(2) by blast
    next
      case False
      then obtain p2 p3 d where "consume IDENTIFIER '''' '''' (skip_comma p) = Inr p2"
          "consume IDENTIFIER '''' '''' p2 = Inr p3" and d: "getDataTypeFromString (cur_value p2) = Inr d"
          "create_columns p3 (cols @ [\<lparr>ColumnName = cur_value (skip_comma p), DataType = d\<rparr>]) pk
             = Inr (cols', pk', p')"
        using result open_list by (auto simp: Let_def split: sum.splits)
      then show ?thesis
        using "1.IH"(2) [OF open_list refl False] "1.prems"(2) getDataTypeFromString_known [OF d(1)] by simp
    qed
  qed
qed

lemma pk_position_bounds:
  assumes "cols \<noteq> []"
  shows "0 \<le> pk_position cols pk \<and> pk_position cols pk < int (length cols)"
proof -
  have "0 \<le> foldl (\<lambda>pos (i, col). if ColumnName col = pk then int i else pos) pos xs
      \<and> foldl (\<lambda>pos (i, col). if ColumnName col = pk then int i else pos) pos xs < int n"
    if "\<forall>x \<in> set xs. fst x < n" and "0 \<le> pos" and "pos < int n" for n pos and xs :: "(nat \<times> Column) list"
    using that by (induction xs arbitrary: pos) auto
  from this [of "enumerate 0 cols" "length cols" 0] show ?thesis
    using assms by (auto simp: pk_position_def in_set_enumerate_eq)
qed

lemma ParseCreateTable_typed: "ParseCreateTable p = Inr t \<Longrightarrow> schema_typed t"
  using pk_position_bounds
  by (auto simp: ParseCreateTable_def then_ok_def schema_typed_def Let_def
      dest!: create_columns_known split: sum.splits prod.splits if_splits)

subsection \<open>Typed rows and their bytes\<close>

lemma column_field_typed:
  assumes "known_type col"
  shows "case column_field (DataType col) v of
      Inl e \<Rightarrow> \<not> is_panic e \<and> \<not> has_type (DataType col) v | Inr field \<Rightarrow> has_type (DataType col) v"
  using assms
  by (auto simp: column_field_def has_type_def known_type_def Atoi_def atoi_error_def Let_def split: sum.splits)

lemma row_fields_typed:
  assumes "\<forall>col \<in> set cols. known_type col" and "length vs = length cols"
  shows "case row_fields cols vs buf of
      Inl e \<Rightarrow> \<not> is_panic e \<and> \<not> row_typed cols vs | Inr out \<Rightarrow> row_typed cols vs"
  using assms
proof (induction cols vs buf rule: row_fields.induct)
  case (3 col cols v vs buf)
  then show ?case
    using column_field_typed [of col v] by (auto simp: row_typed_def split: sum.splits)
qed (simp_all add: row_typed_def)

lemma stored_value_typed: "has_type d v \<Longrightarrow> has_type d (stored_value d v)"
  using Atoi_nat_dec
  by (fastforce simp: has_type_def stored_value_def split: sum.splits if_splits)

lemma stored_row_typed:
  assumes "row_typed cols vs"
  shows "row_typed cols (stored_row cols vs)"
  using assms unfolding row_typed_def
  by (induction) (simp_all add: stored_row_def stored_value_typed)

subsection \<open>Type safety\<close>

text \<open>C16: Types are safe. Take any table description that the parser accepts, from any ASCII input. Its
  columns have the three known types and its key position is the position of a column, so a row
  always has a key value. A row with a value for every column is written exactly when every value
  has the type of its column (an INT is a number of 64 bits, a BOOL is 0 or 1); otherwise there is an
  error and no panic. And the bytes written are read without a panic as a row of the same types,
  with one value for every column.\<close>

theorem rows_are_typed:
  assumes "ParseCreateTable p = Inr t" and "schemas (ins_TableName inp) = Some t"
    and "length (ColumnValues inp) = length (ColumnDetails t)"
  shows "schema_typed t
    \<and> (case serialiseInsertIntoTableInput schemas inp of
         Inl e \<Rightarrow> \<not> is_panic e \<and> \<not> row_typed (ColumnDetails t) (ColumnValues inp)
       | Inr (key, value) \<Rightarrow>
           row_typed (ColumnDetails t) (ColumnValues inp)
           \<and> key = ins_TableName inp @ '':'' @ ColumnValues inp ! nat (PrimaryKeyColumnPosition t)
           \<and> (fits32 (length value) \<longrightarrow>
                (\<exists>row. deserializeRowValues schemas (ins_TableName inp) value = Inr row
                  \<and> row_typed (ColumnDetails t) row)))"
proof -
  have t: "schema_typed t" "\<forall>col \<in> set (ColumnDetails t). known_type col"
    using ParseCreateTable_typed [OF assms(1)] by (simp_all add: schema_typed_def)
  have s: "schema_of schemas (ins_TableName inp) = t"
    using assms(2) by (simp add: schema_of_def)
  have pk: "primary_key_value t (ColumnValues inp) = ColumnValues inp ! nat (PrimaryKeyColumnPosition t)"
    using t(1) assms(3) by (auto simp: primary_key_value_def schema_typed_def Let_def)
  show ?thesis
    using t(1) row_fields_typed [OF t(2) assms(3), of "[]"] stored_row_typed
      read_row_fields [OF _ assms(3) t(2), of "[]" _ "[]"]
    by (auto simp: serialiseInsertIntoTableInput_def s pk row_key_def deserializeRowValues_def
        split: sum.splits)
qed

definition two_columns :: CreateTable where
  "two_columns = \<lparr>TableName = ''users'', ColumnDetails = [\<lparr>ColumnName = ''name'', DataType = String_type\<rparr>,
     \<lparr>ColumnName = ''id'', DataType = Int_type\<rparr>], PrimaryKeyColumnPosition = 1, SecondaryIndexes = []\<rparr>"

text \<open>The number \<open>-5\<close> is an INT, and what it is read back as is one too; \<open>x\<close> is none.\<close>

theorem rows_are_typed_witness:
  "ParseCreateTable (NewParser ''CREATE TABLE users (name STRING, id INT, PRIMARY KEY(id))'') = Inr two_columns
    \<and> schema_typed two_columns
    \<and> (\<exists>value row. serialiseInsertIntoTableInput [''users'' \<mapsto> two_columns]
            \<lparr>ins_TableName = ''users'', ColumnValues = [''Ann'', ''-5'']\<rparr> = Inr (''users:-5'', value)
         \<and> deserializeRowValues [''users'' \<mapsto> two_columns] ''users'' value = Inr row
         \<and> row_typed (ColumnDetails two_columns) row)
    \<and> (\<exists>e. serialiseInsertIntoTableInput [''users'' \<mapsto> two_columns]
            \<lparr>ins_TableName = ''users'', ColumnValues = [''Ann'', ''x'']\<rparr> = Inl e \<and> \<not> is_panic e)"
proof -
  have p: "ParseCreateTable (NewParser ''CREATE TABLE users (name STRING, id INT, PRIMARY KEY(id))'') = Inr two_columns"
    unfolding two_columns_def by code_simp
  have good: "row_typed (ColumnDetails two_columns) [''Ann'', ''-5'']"
    and bad: "\<not> row_typed (ColumnDetails two_columns) [''Ann'', ''x'']"
    unfolding two_columns_def by code_simp+
  have "Atoi ''-5'' = Inr (- 5)"
    by code_simp
  then have len: "case serialiseInsertIntoTableInput [''users'' \<mapsto> two_columns]
       \<lparr>ins_TableName = ''users'', ColumnValues = [''Ann'', ''-5'']\<rparr> of Inl e \<Rightarrow> True | Inr (k, v) \<Rightarrow> length v = 11"
    by (simp add: serialiseInsertIntoTableInput_def schema_of_def two_columns_def column_field_def)
  have schema: "[''users'' \<mapsto> two_columns] ''users'' = Some two_columns" "length (ColumnDetails two_columns) = 2"
      "nat (PrimaryKeyColumnPosition two_columns) = 1"
    by (simp_all add: two_columns_def)
  note use = rows_are_typed [OF p, of "[''users'' \<mapsto> two_columns]" "\<lparr>ins_TableName = ''users'', ColumnValues = vs\<rparr>" for vs,
      simplified schema InsertIntoTable.simps, OF refl]
  have accepted: "\<exists>value row. serialiseInsertIntoTableInput [''users'' \<mapsto> two_columns]
          \<lparr>ins_TableName = ''users'', ColumnValues = [''Ann'', ''-5'']\<rparr> = Inr (''users:-5'', value)
       \<and> deserializeRowValues [''users'' \<mapsto> two_columns] ''users'' value = Inr row
       \<and> row_typed (ColumnDetails two_columns) row"
    using use [of "[''Ann'', ''-5'']"] good len by (simp split: sum.splits prod.splits)
  have refused: "\<exists>e. serialiseInsertIntoTableInput [''users'' \<mapsto> two_columns]
          \<lparr>ins_TableName = ''users'', ColumnValues = [''Ann'', ''x'']\<rparr> = Inl e \<and> \<not> is_panic e"
    using use [of "[''Ann'', ''x'']"] bad by (simp split: sum.splits prod.splits)
  show ?thesis
    using p use [of "[''Ann'', ''x'']"] accepted refused by simp
qed

subsection \<open>Numbers out of range\<close>

text \<open>The decimal digits of a number, with its sign.\<close>

definition int_text :: "int \<Rightarrow> string" where
  "int_text n = (if n < 0 then CHR ''-'' # nat_dec (nat (- n)) else nat_dec (nat n))"

lemma Atoi_int_text:
  assumes "- 9223372036854775808 \<le> n" and "n \<le> 9223372036854775807"
  shows "Atoi (int_text n) = Inr n"
  using assms Atoi_minus_nat_dec [of "nat (- n)"] Atoi_nat_dec [of "nat n"] by (simp add: int_text_def)

lemma stored_int_text:
  assumes "- 9223372036854775808 \<le> n" and "n \<le> 9223372036854775807"
  shows "stored_value Int_type (int_text n) = nat_dec (nat (n mod 4294967296))"
  using Atoi_int_text [OF assms] by (simp add: stored_value_def)

lemma int_text_kept:
  "nat_dec (nat (n mod 4294967296)) = int_text n \<longleftrightarrow> 0 \<le> n \<and> n < 4294967296"
proof (cases "n < 0")
  case True
  have "nat_dec k \<noteq> CHR ''-'' # s" for k s
    using nat_dec_hd [of k] by auto
  then show ?thesis
    using True by (simp add: int_text_def)
next
  case False
  have "nat (n mod 4294967296) = nat n \<longleftrightarrow> n < 4294967296"
    using False pos_mod_bound [of 4294967296 n] by (auto simp: nat_eq_iff)
  then show ?thesis
    using False by (simp add: int_text_def nat_dec_inject)
qed

text \<open>C25: An INT value is kept modulo \<open>2 ^ 32\<close>. Put the decimal text of any number of 64 bits in an
  INT column of a row whose values have the types of their columns: the row is accepted, without an
  error, and reading it back (a row below the 32-bit limit) gives the number modulo \<open>2 ^ 32\<close>. The
  text read back is the one that was written exactly for the numbers from 0 to \<open>2 ^ 32 - 1\<close>: a
  negative number or a larger one silently becomes another one.\<close>

theorem row_int_wraps:
  assumes "schemas tableName = Some t" and "\<forall>col \<in> set (ColumnDetails t). known_type col"
    and "row_typed (ColumnDetails t) vs" and "i < length vs" and "DataType (ColumnDetails t ! i) = Int_type"
    and "- 9223372036854775808 \<le> n" and "n \<le> 9223372036854775807"
  shows "\<exists>key buf. serialiseInsertIntoTableInput schemas
        \<lparr>ins_TableName = tableName, ColumnValues = vs[i := int_text n]\<rparr> = Inr (key, buf)
    \<and> (fits32 (length buf) \<longrightarrow>
        (\<exists>row. deserializeRowValues schemas tableName buf = Inr row \<and> length row = length vs
          \<and> row ! i = nat_dec (nat (n mod 4294967296))
          \<and> (row ! i = int_text n \<longleftrightarrow> 0 \<le> n \<and> n < 4294967296)))"
proof -
  let ?vs = "vs[i := int_text n]" and ?cols = "ColumnDetails t"
  note a = Atoi_int_text [OF assms(6,7)]
  have len: "length vs = length ?cols"
    using assms(3) by (simp add: row_typed_def list_all2_lengthD)
  have typed: "row_typed ?cols ?vs"
    using assms(3-5) a by (auto simp: row_typed_def list_all2_conv_all_nth nth_list_update has_type_def)
  then obtain buf where buf: "row_fields ?cols ?vs [] = Inr buf"
    using row_fields_typed [OF assms(2), of ?vs "[]"] len by (auto split: sum.splits)
  have at_i: "stored_row ?cols ?vs ! i = nat_dec (nat (n mod 4294967296))"
    using assms(4,5) len by (simp add: stored_row_def stored_int_text [OF assms(6,7)])
  have "deserializeRowValues schemas tableName buf = Inr (stored_row ?cols ?vs)" if "fits32 (length buf)"
    using read_row_fields [OF buf _ assms(2) that, of "[]"] assms(1) len
    by (simp add: deserializeRowValues_def schema_of_def)
  moreover have "length (stored_row ?cols ?vs) = length vs"
    using len by (simp add: stored_row_def)
  moreover have "serialiseInsertIntoTableInput schemas \<lparr>ins_TableName = tableName, ColumnValues = ?vs\<rparr> =
      Inr (row_key tableName (primary_key_value t ?vs), buf)"
    using assms(1) buf by (simp add: serialiseInsertIntoTableInput_def schema_of_def)
  ultimately show ?thesis
    using at_i int_text_kept [of n] by auto
qed

theorem row_int_wraps_witness:
  "\<exists>key buf row. serialiseInsertIntoTableInput [''users'' \<mapsto> two_columns]
      \<lparr>ins_TableName = ''users'', ColumnValues = [''Ann'', ''-1'']\<rparr> = Inr (key, buf)
    \<and> deserializeRowValues [''users'' \<mapsto> two_columns] ''users'' buf = Inr row \<and> length row = 2
    \<and> row ! 1 = nat_dec 4294967295"
proof -
  have num: "int_text (- 1) = ''-1''" "Atoi ''-1'' = Inr (- 1)"
    by code_simp+
  have typed: "row_typed (ColumnDetails two_columns) [''Ann'', ''5'']"
    unfolding two_columns_def by code_simp
  have ser: "serialiseInsertIntoTableInput [''users'' \<mapsto> two_columns]
      \<lparr>ins_TableName = ''users'', ColumnValues = [''Ann'', ''-1'']\<rparr> =
    Inr (''users:-1'', len32 ''Ann'' @ ''Ann'' @ be32 (word_of_int (- 1)))"
    by (simp add: serialiseInsertIntoTableInput_def schema_of_def two_columns_def column_field_def num
        row_key_def primary_key_value_def)
  have "\<exists>key buf. serialiseInsertIntoTableInput [''users'' \<mapsto> two_columns]
        \<lparr>ins_TableName = ''users'', ColumnValues = [''Ann'', ''5''][1 := int_text (- 1)]\<rparr> = Inr (key, buf)
    \<and> (fits32 (length buf) \<longrightarrow>
        (\<exists>row. deserializeRowValues [''users'' \<mapsto> two_columns] ''users'' buf = Inr row
          \<and> length row = length [''Ann'', ''5'']
          \<and> row ! 1 = nat_dec (nat (- 1 mod 4294967296))
          \<and> (row ! 1 = int_text (- 1) \<longleftrightarrow> 0 \<le> (- 1 :: int) \<and> (- 1 :: int) < 4294967296)))"
    by (rule row_int_wraps [OF _ _ typed]) (simp_all add: two_columns_def known_type_def)
  then show ?thesis
    by (auto simp: num ser)
qed

end
