(* ===== verification/Sql_Tables.thy ===== *)
theory Sql_Tables
  imports Sql_Rows Db_Txn
begin

text \<open>
  The SQL statements that write: \<^verbatim>\<open>createTable\<close> of \<^verbatim>\<open>db/create.go\<close> and \<^verbatim>\<open>insertIntoTable\<close>,
  \<^verbatim>\<open>ShowTables\<close> and \<^verbatim>\<open>ShowCreateTable\<close> of \<^verbatim>\<open>db/db.go\<close>. The code drops most of the errors on
  the way; the model drops them at the same places, but a panic ends the operation. Ranges over
  maps take their order as an argument, as elsewhere.
\<close>

subsection \<open>\<open>INSERT INTO\<close>\<close>

text \<open>\<open>if err := ...; err != nil { txn.Rollback() }\<close>\<close>

definition or_rollback ::
    "goerr + Transaction \<times> transactionManager \<Rightarrow> Transaction \<Rightarrow> transactionManager
       \<Rightarrow> goerr + Transaction \<times> transactionManager" where
  "or_rollback r txn tm =
     (case r of Inr s \<Rightarrow> Inr s | Inl e \<Rightarrow> if is_panic e then Inl e else Rollback txn tm)"

text \<open>The loop of \<open>updateSecondaryIndexes\<close>; the error of \<open>Put\<close> is dropped.\<close>

fun update_indexes ::
    "(string \<rightharpoonup> CreateTable) \<Rightarrow> InsertIntoTable \<Rightarrow> SecondaryIndex list \<Rightarrow> Transaction \<Rightarrow> transactionManager
       \<Rightarrow> (goerr + unit) \<times> Transaction \<times> transactionManager" where
  "update_indexes schemas inp [] txn tm = (Inr (), txn, tm)"
| "update_indexes schemas inp (secondaryIndex # idxs) txn tm =
     (case getIndexAndPrimaryKeyColumnValuesInIndexSequence schemas (Columns secondaryIndex) inp of
        Inl e \<Rightarrow> (Inl e, txn, tm)
      | Inr (colValues, pkColValue) \<Rightarrow>
          let secondaryIndexKey = getSecondaryIndexKeyOrPrefix (ins_TableName inp)
                (IndexName secondaryIndex) colValues pkColValue in
          (case Txn_Put secondaryIndexKey '''' txn tm of
             Inl _ \<Rightarrow> update_indexes schemas inp idxs txn tm
           | Inr (txn', tm') \<Rightarrow> update_indexes schemas inp idxs txn' tm'))"

definition updateSecondaryIndexes ::
    "(string \<rightharpoonup> CreateTable) \<Rightarrow> InsertIntoTable \<Rightarrow> Transaction \<Rightarrow> transactionManager
       \<Rightarrow> (goerr + unit) \<times> Transaction \<times> transactionManager" where
  "updateSecondaryIndexes schemas inp txn tm =
     update_indexes schemas inp (SecondaryIndexes (schema_of schemas (ins_TableName inp))) txn tm"

text \<open>The row, then its index entries, then the commit, whatever happened before.\<close>

definition insertIntoTable ::
    "'t btree \<Rightarrow> string list \<Rightarrow> string list \<Rightarrow> InsertIntoTable \<Rightarrow> 't DB \<Rightarrow> world
       \<Rightarrow> (goerr + unit) \<times> 't DB \<times> world" where
  "insertIntoTable B ord1 ord2 inp db w =
     (case Begin (txnManager db) of (txn, tm) \<Rightarrow>
        let db = db\<lparr>txnManager := tm\<rparr>;
            schemas = tableNameVsSchemaMap db;
            table = schema_of schemas (ins_TableName inp) in
        if length (ColumnValues inp) \<noteq> length (ColumnDetails table)
        then (Inl (Errorf ''INSERT INTO requires all columns to be present. ''), db, w)
        else (case serialiseInsertIntoTableInput schemas inp of
            Inl e \<Rightarrow> (Inl e, db, w)
          | Inr (key, valueSchemaBuf) \<Rightarrow>
              (case or_rollback (Txn_Put key valueSchemaBuf txn tm) txn tm of
                 Inl e \<Rightarrow> (Inl e, db, w)
               | Inr (txn, tm) \<Rightarrow>
                   (case updateSecondaryIndexes schemas inp txn tm of (r, txn, tm) \<Rightarrow>
                      (case or_rollback (map_sum id (\<lambda>_. (txn, tm)) r) txn tm of
                         Inl e \<Rightarrow> (Inl e, db\<lparr>txnManager := tm\<rparr>, w)
                       | Inr (txn, tm) \<Rightarrow>
                           (case Commit B ord1 ord2 txn (db\<lparr>txnManager := tm\<rparr>) w of (r, _, db, w) \<Rightarrow>
                              (case r of
                                 Inl e \<Rightarrow> (if is_panic e then Inl e else Inr (), db, w)
                               | Inr _ \<Rightarrow> (Inr (), db, w))))))))"

text \<open>\<open>DB.InsertIntoTable\<close>; \<open>None\<close>: the parser does not return.\<close>

definition DB_InsertIntoTable ::
    "'t btree \<Rightarrow> string list \<Rightarrow> string list \<Rightarrow> string \<Rightarrow> 't DB \<Rightarrow> world
       \<Rightarrow> ((goerr + unit) \<times> 't DB \<times> world) option" where
  "DB_InsertIntoTable B ord1 ord2 query db w =
     map_option (\<lambda>r. case r of Inl e \<Rightarrow> (Inl e, db, w) | Inr inp \<Rightarrow> insertIntoTable B ord1 ord2 inp db w)
       (ParseInsertIntoTable (NewParser query))"

subsection \<open>\<open>CREATE TABLE\<close>\<close>

text \<open>A call whose error is dropped.\<close>

definition drop_error ::
    "(goerr + unit) \<times> 's \<times> world \<Rightarrow> ('s \<Rightarrow> world \<Rightarrow> (goerr + unit) \<times> 's \<times> world)
       \<Rightarrow> (goerr + unit) \<times> 's \<times> world" where
  "drop_error r f = (case r of
     (Inl e, s, w) \<Rightarrow> if is_panic e then (Inl e, s, w) else f s w
   | (Inr _, s, w) \<Rightarrow> f s w)"

text \<open>The names of all tables with commas between them.\<close>

definition catalog_names :: "string list \<Rightarrow> (string \<rightharpoonup> CreateTable) \<Rightarrow> string" where
  "catalog_names ord schemas =
     butlast (foldl (\<lambda>names key. (names @ TableName (schema_of schemas key)) @ '','') '''' ord)"

definition createTable ::
    "'t btree \<Rightarrow> string list \<Rightarrow> CreateTable \<Rightarrow> 't DB \<Rightarrow> world \<Rightarrow> (goerr + unit) \<times> 't DB \<times> world" where
  "createTable B ord createTableInput db w =
     (let tableName = TableName createTableInput;
          db = db\<lparr>tableNameVsSchemaMap := (tableNameVsSchemaMap db)(tableName \<mapsto> createTableInput)\<rparr>;
          tableNames = catalog_names ord (tableNameVsSchemaMap db) in
      drop_error (DB_Put B CatalogKey tableNames db w) (\<lambda>db w.
      drop_error (DB_Put B (''_schema:'' @ tableName) (serialiseCreateTableInput createTableInput) db w) (\<lambda>db w.
      case serialiseSecondaryIndexCatalog (tableNameVsSchemaMap db) tableName
             (SecondaryIndexes createTableInput) of
        Inl e \<Rightarrow> (Inl e, db, w)
      | Inr secondaryIndexCatalogBuf \<Rightarrow>
          drop_error (DB_Put B (''_secondary_indexes:'' @ tableName) secondaryIndexCatalogBuf db w)
            (\<lambda>db w. (Inr (), db, w)))))"

definition DB_CreateTable ::
    "'t btree \<Rightarrow> string list \<Rightarrow> string \<Rightarrow> 't DB \<Rightarrow> world \<Rightarrow> (goerr + unit) \<times> 't DB \<times> world" where
  "DB_CreateTable B ord query db w =
     (case ParseCreateTable (NewParser query) of
        Inl e \<Rightarrow> (Inl e, db, w)
      | Inr input \<Rightarrow> createTable B ord input db w)"

subsection \<open>Listing tables\<close>

definition ShowTables :: "string list \<Rightarrow> 't DB \<Rightarrow> string list" where
  "ShowTables ord db = map (\<lambda>key. TableName (schema_of (tableNameVsSchemaMap db) key)) ord"

definition ShowCreateTable :: "string list \<Rightarrow> string \<Rightarrow> 't DB \<Rightarrow> goerr + CreateTable" where
  "ShowCreateTable ord tableName db =
     (case find (\<lambda>key. TableName (schema_of (tableNameVsSchemaMap db) key) = tableName) ord of
        Some key \<Rightarrow> Inr (schema_of (tableNameVsSchemaMap db) key)
      | None \<Rightarrow> Inl (Errorf (''table: '' @ [CHR 0x27] @ tableName @ [CHR 0x27] @ '' not found'')))"

subsection \<open>A transaction that only writes\<close>

text \<open>The locks beside those of \<open>tm0\<close> are the write locks on the buffered keys.\<close>

definition txn_holds :: "transactionManager \<Rightarrow> Transaction \<Rightarrow> transactionManager \<Rightarrow> bool" where
  "txn_holds tm0 txn tm \<longleftrightarrow>
     (\<forall>k. bufferedWriteMap txn k = None \<longrightarrow> locks_of tm k = locks_of tm0 k)
     \<and> (\<forall>k. bufferedWriteMap txn k \<noteq> None \<longrightarrow>
          locks_of tm k = \<lparr>writerTxnId = txn_id txn, readerTxnIds = []\<rparr> \<and> locks_of tm0 k = no_locks)
     \<and> set (lockAcquiredKeys txn) = dom (bufferedWriteMap txn)
     \<and> dom (bufferedWriteMap txn) \<subseteq> dom (keyVsLocksAcquiredMap tm)
     \<and> txn_id txn \<noteq> 0 \<and> nextTransactionId tm = nextTransactionId tm0"

lemma txn_holds_put:
  assumes "txn_holds tm0 txn tm" and "locks_of tm0 k = no_locks"
  obtains txn' tm' where "Txn_Put k v txn tm = Inr (txn', tm')" and "txn_holds tm0 txn' tm'"
    and "bufferedWriteMap txn' = (bufferedWriteMap txn)(k \<mapsto> v)" and "txn_id txn' = txn_id txn"
proof (cases "bufferedWriteMap txn k")
  case None
  then have free: "locks_of tm k = no_locks"
    using assms by (auto simp: txn_holds_def)
  let ?locks = "\<lparr>writerTxnId = txn_id txn, readerTxnIds = []\<rparr>"
  let ?txn' = "txn\<lparr>lockAcquiredKeys := lockAcquiredKeys txn @ [k], bufferedWriteMap := (bufferedWriteMap txn)(k \<mapsto> v)\<rparr>"
  let ?tm' = "tm\<lparr>keyVsLocksAcquiredMap := (keyVsLocksAcquiredMap tm)(k \<mapsto> ?locks)\<rparr>"
  have "Txn_Put k v txn tm = Inr (?txn', ?tm')"
    using free assms(1)
    by (auto simp: Txn_Put_def tryAcquireWriteLock_def txn_holds_def locks_of_def split: option.splits)
  then show ?thesis
    by (rule that) (use assms in \<open>auto simp: txn_holds_def\<close>)
next
  case (Some old)
  then have "locks_of tm k = \<lparr>writerTxnId = txn_id txn, readerTxnIds = []\<rparr>" "txn_id txn \<noteq> 0"
    using assms(1) by (auto simp: txn_holds_def)
  then have "keyVsLocksAcquiredMap tm k = Some \<lparr>writerTxnId = txn_id txn, readerTxnIds = []\<rparr>"
    by (cases "keyVsLocksAcquiredMap tm k") simp_all
  then have "tryAcquireWriteLock k txn tm = Inr (txn, tm)"
    using \<open>txn_id txn \<noteq> 0\<close> by (simp add: tryAcquireWriteLock_def)
  then have "Txn_Put k v txn tm = Inr (txn\<lparr>bufferedWriteMap := (bufferedWriteMap txn)(k \<mapsto> v)\<rparr>, tm)"
    by (simp add: Txn_Put_def)
  then show ?thesis
    by (rule that) (use assms Some in \<open>auto simp: txn_holds_def\<close>)
qed
lemma Txn_Put_locked:
  assumes "writerTxnId (locks_of tm k) \<notin> {0, txn_id txn}"
  shows "\<exists>e. Txn_Put k v txn tm = Inl (Errorf e)"
  using assms by (cases "keyVsLocksAcquiredMap tm k") (simp_all add: Txn_Put_def tryAcquireWriteLock_def)

text \<open>Puts whose errors are dropped.\<close>

fun try_puts ::
    "(string \<times> string) list \<Rightarrow> Transaction \<Rightarrow> transactionManager \<Rightarrow> Transaction \<times> transactionManager" where
  "try_puts [] txn tm = (txn, tm)"
| "try_puts ((k, v) # kvs) txn tm =
     (case Txn_Put k v txn tm of Inl _ \<Rightarrow> try_puts kvs txn tm | Inr (txn', tm') \<Rightarrow> try_puts kvs txn' tm')"

lemma txn_holds_try_puts:
  assumes "txn_holds tm0 txn tm" and "\<forall>(k, v) \<in> set kvs. locks_of tm0 k = no_locks"
  obtains txn' tm' where "try_puts kvs txn tm = (txn', tm')" and "txn_holds tm0 txn' tm'"
    and "bufferedWriteMap txn' = bufferedWriteMap txn ++ map_of (rev kvs)" and "txn_id txn' = txn_id txn"
  using assms
proof (induction kvs arbitrary: txn tm thesis)
  case (Cons kv kvs)
  obtain k v where kv: "kv = (k, v)"
    by force
  obtain txn1 tm1 where put: "Txn_Put k v txn tm = Inr (txn1, tm1)" "txn_holds tm0 txn1 tm1"
    "bufferedWriteMap txn1 = (bufferedWriteMap txn)(k \<mapsto> v)" "txn_id txn1 = txn_id txn"
    by (rule txn_holds_put [OF Cons.prems(2), of k v]) (use Cons.prems(3) kv in auto)
  have buffer: "bufferedWriteMap txn1 ++ map_of (rev kvs) = bufferedWriteMap txn ++ map_of (rev (kv # kvs))"
    by (auto simp: put(3) kv map_add_def fun_eq_iff split: option.split)
  obtain txn' tm' where rest: "try_puts kvs txn1 tm1 = (txn', tm')" "txn_holds tm0 txn' tm'"
    "bufferedWriteMap txn' = bufferedWriteMap txn1 ++ map_of (rev kvs)" "txn_id txn' = txn_id txn1"
    by (rule Cons.IH [OF _ put(2)]) (use Cons.prems(3) in auto)
  show ?case
    by (rule Cons.prems(1) [OF _ rest(2) rest(3) [unfolded buffer]])
      (simp_all add: kv put(1,4) rest(1,4))
qed auto

lemma txn_holds_release:
  assumes "txn_holds tm0 txn tm" and "releaseAllLocks txn tm = Inr (txn', tm')"
  shows "locks_of tm' k = locks_of tm0 k" and "nextTransactionId tm' = nextTransactionId tm0"
proof -
  obtain tm1 where rel: "release_keys (txn_id txn) (lockAcquiredKeys txn) tm = Inr tm1"
    "nextTransactionId tm1 = nextTransactionId tm"
    "\<forall>k. locks_of tm1 k = (unlocked (txn_id txn) ^^ count_list (lockAcquiredKeys txn) k) (locks_of tm k)"
    using release_keys_Inr [of "lockAcquiredKeys txn" tm "txn_id txn"] assms(1)
    by (auto simp: txn_holds_def)
  then have tm': "tm' = tm1"
    using assms(2) by (simp add: releaseAllLocks_def)
  let ?n = "count_list (lockAcquiredKeys txn) k"
  have "locks_of tm1 k = locks_of tm0 k"
  proof (cases "bufferedWriteMap txn k")
    case None
    then have "k \<notin> set (lockAcquiredKeys txn)"
      using assms(1) by (auto simp: txn_holds_def)
    then show ?thesis
      using rel(3) None assms(1) by (simp add: count_list_0_iff txn_holds_def)
  next
    case (Some v)
    then have "k \<in> set (lockAcquiredKeys txn)" and held: "locks_of tm k = \<lparr>writerTxnId = txn_id txn, readerTxnIds = []\<rparr>"
      "locks_of tm0 k = no_locks"
      using assms(1) by (auto simp: txn_holds_def)
    then have "0 < ?n"
      using count_list_0_iff [of "lockAcquiredKeys txn" k] by auto
    then have "writerTxnId (locks_of tm1 k) = 0" "readerTxnIds (locks_of tm1 k) = []"
      using rel(3) held unlocked_readers [where tid = "txn_id txn" and n = ?n and l = "locks_of tm k"]
      by (simp_all add: unlocked_writer)
    then show ?thesis
      using held(2) by simp
  qed
  then show "locks_of tm' k = locks_of tm0 k" and "nextTransactionId tm' = nextTransactionId tm0"
    using rel(2) tm' assms(1) by (simp_all add: txn_holds_def)
qed

subsection \<open>Inserting a row\<close>

definition index_entry :: "(string \<rightharpoonup> CreateTable) \<Rightarrow> InsertIntoTable \<Rightarrow> SecondaryIndex \<Rightarrow> goerr + string \<times> string" where
  "index_entry schemas inp idx =
     map_sum id (\<lambda>(colValues, pk). (getSecondaryIndexKeyOrPrefix (ins_TableName inp) (IndexName idx) colValues pk, ''''))
       (getIndexAndPrimaryKeyColumnValuesInIndexSequence schemas (Columns idx) inp)"

text \<open>The entries of all indexes of the table, when each of them has one.\<close>

definition index_entries :: "(string \<rightharpoonup> CreateTable) \<Rightarrow> InsertIntoTable \<Rightarrow> (string \<times> string) list \<Rightarrow> bool" where
  "index_entries schemas inp kvs \<longleftrightarrow>
     list_all2 (\<lambda>idx kv. index_entry schemas inp idx = Inr kv)
       (SecondaryIndexes (schema_of schemas (ins_TableName inp))) kvs"

lemma update_indexes_try_puts:
  assumes "list_all2 (\<lambda>idx kv. index_entry schemas inp idx = Inr kv) idxs kvs"
  shows "update_indexes schemas inp idxs txn tm = (Inr (), try_puts kvs txn tm)"
  using assms
proof (induction arbitrary: txn tm)
  case (Cons idx idxs kv kvs)
  then show ?case
    by (cases "getIndexAndPrimaryKeyColumnValuesInIndexSequence schemas (Columns idx) inp")
      (auto simp: index_entry_def Let_def split: sum.split)
qed simp

lemma index_entry_nonempty: "index_entry schemas inp idx = Inr (k, v) \<Longrightarrow> k \<noteq> '''' \<and> v = ''''"
  by (cases "getIndexAndPrimaryKeyColumnValuesInIndexSequence schemas (Columns idx) inp")
    (auto simp: index_entry_def getSecondaryIndexKeyOrPrefix_def Let_def split: if_splits)

lemma index_entries_nonempty: "index_entries schemas inp kvs \<Longrightarrow> '''' \<notin> fst ` set kvs"
  using index_entry_nonempty
  by (fastforce simp: index_entries_def list_all2_conv_all_nth in_set_conv_nth)

text \<open>The lock of the row key decides whether the row is written; the index entries always are.\<close>

lemma insertIntoTable_calm:
  assumes B: "btree_contract B" and inv: "db_inv B w db tabs"
    and id: "nextTransactionId (txnManager db) \<noteq> 0"
    and len: "length (ColumnValues inp) = length (ColumnDetails (schema_of (tableNameVsSchemaMap db) (ins_TableName inp)))"
    and row: "serialiseInsertIntoTableInput (tableNameVsSchemaMap db) inp = Inr (key, buf)"
    and entries: "index_entries (tableNameVsSchemaMap db) inp kvs"
    and free: "\<forall>(k, v) \<in> set kvs. locks_of (txnManager db) k = no_locks"
    and rows: "locks_of (txnManager db) key = no_locks \<and> rows = [(key, buf)]
      \<or> writerTxnId (locks_of (txnManager db) key) \<notin> {0, nextTransactionId (txnManager db)} \<and> rows = []"
    and writes: "writes = map_of (rev (rows @ kvs))"
    and ord: "range_order ord1 writes" "range_order ord2 writes"
    and fits: "length (serialiseTransactionCommitPayload ord1 writes) \<le> 1000000"
  obtains db' w' tabs' where "insertIntoTable B ord1 ord2 inp db w = (Inr (), db', w')"
    and "db_inv B w' db' tabs'" and "db_map B db' tabs' = db_map B db tabs ++ writes"
    and "\<And>k. locks_of (txnManager db') k = locks_of (txnManager db) k"
    and "nextTransactionId (txnManager db') = nextTransactionId (txnManager db) + 1"
    and "tableNameVsSchemaMap db' = tableNameVsSchemaMap db"
    and "indexed (ssTable db) tabs \<Longrightarrow> indexed (ssTable db') tabs'"
proof -
  let ?tm0 = "(txnManager db)\<lparr>nextTransactionId := nextTransactionId (txnManager db) + 1\<rparr>"
  let ?txn0 = "\<lparr>txn_id = nextTransactionId (txnManager db), bufferedWriteMap = Map.empty, lockAcquiredKeys = []\<rparr>"
  have start: "txn_holds ?tm0 ?txn0 ?tm0"
    using id by (simp add: txn_holds_def)
  obtain txn1 tm1 where one: "or_rollback (Txn_Put key buf ?txn0 ?tm0) ?txn0 ?tm0 = Inr (txn1, tm1)"
    "txn_holds ?tm0 txn1 tm1" "bufferedWriteMap txn1 = map_of rows"
    using rows
  proof (elim disjE conjE)
    assume row_free: "locks_of (txnManager db) key = no_locks" "rows = [(key, buf)]"
    show ?thesis
      by (rule txn_holds_put [OF start, of key buf]) (use row_free that in \<open>auto simp: or_rollback_def\<close>)
  next
    assume locked: "writerTxnId (locks_of (txnManager db) key) \<notin> {0, nextTransactionId (txnManager db)}" "rows = []"
    then obtain e where "Txn_Put key buf ?txn0 ?tm0 = Inl (Errorf e)"
      using Txn_Put_locked [of ?tm0 key ?txn0 buf] by auto
    then show ?thesis
      using that [of ?txn0 ?tm0] start locked(2)
      by (simp add: or_rollback_def Rollback_def releaseAllLocks_def cleanupBufferedWriteMap_def)
  qed
  obtain txn2 tm2 where two: "try_puts kvs txn1 tm1 = (txn2, tm2)" "txn_holds ?tm0 txn2 tm2"
    "bufferedWriteMap txn2 = map_of rows ++ map_of (rev kvs)"
    by (rule txn_holds_try_puts [OF one(2), of kvs]) (use free one(3) in auto)
  have buffer: "bufferedWriteMap txn2 = writes"
    using two(3) writes rows by auto
  have update: "updateSecondaryIndexes (tableNameVsSchemaMap db) inp txn1 tm1 = (Inr (), txn2, tm2)"
    using entries two(1) by (simp add: updateSecondaryIndexes_def index_entries_def update_indexes_try_puts)
  let ?db2 = "db\<lparr>txnManager := tm2\<rparr>"
  have "key \<noteq> ''''"
    using row by (auto simp: serialiseInsertIntoTableInput_def row_key_def Let_def split: sum.splits)
  then have ne: "bufferedWriteMap txn2 '''' = None"
    using rows index_entries_nonempty [OF entries] unfolding buffer writes map_of_eq_None_iff
    by (elim disjE conjE) simp_all
  have inv2: "db_inv B w ?db2 tabs"
    using inv by (simp add: db_inv_def)
  have keys: "\<forall>key \<in> set (lockAcquiredKeys txn2). keyVsLocksAcquiredMap (txnManager ?db2) key \<noteq> None"
    using two(2) by (auto simp: txn_holds_def)
  obtain txn3 db3 w3 tabs3 where commit: "Commit B ord1 ord2 txn2 ?db2 w = (Inr (), txn3, db3, w3)"
    "db_inv B w3 db3 tabs3" "db_map B db3 tabs3 = db_map B ?db2 tabs ++ bufferedWriteMap txn2"
    "releaseAllLocks txn2 (txnManager ?db2) = Inr (txn2\<lparr>lockAcquiredKeys := []\<rparr>, txnManager db3)"
    "tableNameVsSchemaMap db3 = tableNameVsSchemaMap ?db2"
    "indexed (ssTable ?db2) tabs \<Longrightarrow> indexed (ssTable db3) tabs3"
    by (rule Commit_calm [OF B inv2 ord [folded buffer] ne fits [folded buffer] keys]) blast
  have run: "insertIntoTable B ord1 ord2 inp db w = (Inr (), db3, w3)"
    using len row one(1) update commit(1)
    by (simp add: insertIntoTable_def Begin_def or_rollback_def)
  have tm: "txn_holds ?tm0 txn2 (txnManager ?db2)"
    using two(2) by simp
  show ?thesis
    by (rule that [OF run commit(2)])
       (use commit(3,5,6) txn_holds_release [OF tm commit(4)] in \<open>auto simp: buffer db_map_def\<close>)
qed

subsection \<open>Properties of \<open>INSERT INTO\<close>\<close>

text \<open>C19: An insert into a database without locks writes the row under its key and one empty entry
  for every index of the table, and nothing else, in one commit; it reports success, keeps the
  invariant of the database and leaves no locks.\<close>

theorem insert_refines:
  assumes "btree_contract B" and "db_inv B w db tabs" and "nextTransactionId (txnManager db) \<noteq> 0"
    and "length (ColumnValues inp) = length (ColumnDetails (schema_of (tableNameVsSchemaMap db) (ins_TableName inp)))"
    and "serialiseInsertIntoTableInput (tableNameVsSchemaMap db) inp = Inr (key, buf)"
    and "index_entries (tableNameVsSchemaMap db) inp kvs"
    and "\<forall>k. locks_of (txnManager db) k = no_locks"
    and "writes = map_of (rev ((key, buf) # kvs))"
    and "range_order ord1 writes" and "range_order ord2 writes"
    and "length (serialiseTransactionCommitPayload ord1 writes) \<le> 1000000"
  shows "\<exists>db' w' tabs'. insertIntoTable B ord1 ord2 inp db w = (Inr (), db', w')
    \<and> db_inv B w' db' tabs' \<and> db_map B db' tabs' = db_map B db tabs ++ writes
    \<and> (\<forall>k. locks_of (txnManager db') k = no_locks)"
  by (rule insertIntoTable_calm [OF assms(1-6), of "[(key, buf)]" writes ord1 ord2])
     (use assms(7-) in auto)

definition users_db :: "Entry list DB" where
  "users_db = (db_on list_btree ''w'' ''d'' one_table)\<lparr>tableNameVsSchemaMap := [''users'' \<mapsto> example_table]\<rparr>"

lemma users_db_inv: "db_inv list_btree (world_on ''w'' ''d'' one_table) users_db one_table"
  using list_db_inv(1) [OF one_table_ok] by (simp add: db_inv_def users_db_def)

abbreviation ann :: InsertIntoTable where
  "ann \<equiv> \<lparr>ins_TableName = ''users'', ColumnValues = [''Ann'', ''42'', ''1'']\<rparr>"

definition ann_value :: bytes where
  "ann_value = len32 ''Ann'' @ ''Ann'' @ be32 42 @ [byte_of 1]"

lemma ann_serialised: "serialiseInsertIntoTableInput [''users'' \<mapsto> example_table] ann = Inr (''users:42'', ann_value)"
proof -
  have "Atoi ''42'' = Inr 42" "Atoi ''1'' = Inr 1"
    using Atoi_nat_dec [of 42] Atoi_nat_dec [of 1] by (simp_all add: small_numbers del: One_nat_def)
  then show ?thesis
    by (simp add: serialiseInsertIntoTableInput_def schema_of_def example_table_def column_field_def
        row_key_def primary_key_value_def ann_value_def)
qed

lemma ann_entries: "index_entries [''users'' \<mapsto> example_table] ann [(''index:users:byok:1:Ann:42'', '''')]"
  by (simp add: index_entries_def index_entry_def schema_of_def example_table_def Let_def
      getIndexAndPrimaryKeyColumnValuesInIndexSequence_def getSecondaryIndexKeyOrPrefix_def)

lemma ann_columns: "length (ColumnDetails (schema_of [''users'' \<mapsto> example_table] ''users'')) = 3"
  by (simp add: schema_of_def example_table_def)

lemma ann_writes:
  "range_order [''users:42'', ''index:users:byok:1:Ann:42'']
     (map_of (rev [(''users:42'', ann_value), (''index:users:byok:1:Ann:42'', '''')]))"
  "range_order [''index:users:byok:1:Ann:42'', ''users:42'']
     (map_of (rev [(''users:42'', ann_value), (''index:users:byok:1:Ann:42'', '''')]))"
  "length (serialiseTransactionCommitPayload [''users:42'', ''index:users:byok:1:Ann:42'']
     (map_of (rev [(''users:42'', ann_value), (''index:users:byok:1:Ann:42'', '''')]))) \<le> 1000000"
  by (auto simp: range_order_def serialiseTransactionCommitPayload_payload txn_commands_def
      range_pairs_def put_bytes_def ann_value_def)

lemma users_db_simps [simp]:
  "tableNameVsSchemaMap users_db = [''users'' \<mapsto> example_table]"
  "txnManager users_db = \<lparr>nextTransactionId = 1, keyVsLocksAcquiredMap = Map.empty\<rparr>"
  by (simp_all add: users_db_def db_on_def)

theorem insert_refines_witness:
  "\<exists>db' w' tabs'. insertIntoTable list_btree [''users:42'', ''index:users:byok:1:Ann:42'']
      [''index:users:byok:1:Ann:42'', ''users:42''] ann users_db (world_on ''w'' ''d'' one_table) = (Inr (), db', w')
    \<and> db_inv list_btree w' db' tabs'
    \<and> db_map list_btree db' tabs' = db_map list_btree users_db one_table
        ++ map_of (rev [(''users:42'', ann_value), (''index:users:byok:1:Ann:42'', '''')])
    \<and> (\<forall>k. locks_of (txnManager db') k = no_locks)"
  by (rule insert_refines [OF list_tree.btree_contract_axioms users_db_inv _ _ _ _ _ refl ann_writes(1,2,3)])
     (simp_all add: ann_serialised ann_entries ann_columns locks_of_def del: rev.simps map_of.simps)

text \<open>C23: An insert whose row key another transaction has locked loses the row and still reports
  success: the failed \<open>Put\<close> is rolled back, but the index entries are put after that and the
  transaction is committed. The index then names a row that is not there.\<close>

theorem insert_locked_row:
  assumes "btree_contract B" and "db_inv B w db tabs" and "nextTransactionId (txnManager db) \<noteq> 0"
    and "length (ColumnValues inp) = length (ColumnDetails (schema_of (tableNameVsSchemaMap db) (ins_TableName inp)))"
    and "serialiseInsertIntoTableInput (tableNameVsSchemaMap db) inp = Inr (key, buf)"
    and "index_entries (tableNameVsSchemaMap db) inp kvs"
    and "\<forall>(k, v) \<in> set kvs. locks_of (txnManager db) k = no_locks"
    and "writerTxnId (locks_of (txnManager db) key) \<notin> {0, nextTransactionId (txnManager db)}"
    and "range_order ord1 (map_of (rev kvs))" and "range_order ord2 (map_of (rev kvs))"
    and "length (serialiseTransactionCommitPayload ord1 (map_of (rev kvs))) \<le> 1000000"
  shows "\<exists>db' w' tabs'. insertIntoTable B ord1 ord2 inp db w = (Inr (), db', w')
    \<and> db_inv B w' db' tabs' \<and> db_map B db' tabs' = db_map B db tabs ++ map_of (rev kvs)
    \<and> db_map B db' tabs' key = db_map B db tabs key"
proof -
  have "key \<notin> fst ` set kvs"
    using assms(7,8) by auto
  then have none: "map_of (rev kvs) key = None"
    by (simp add: map_of_eq_None_iff)
  show ?thesis
    by (rule insertIntoTable_calm [OF assms(1-7), of "[]" "map_of (rev kvs)" ord1 ord2])
       (use assms(8-) none in \<open>auto simp: map_add_def\<close>)
qed

definition users_db_locked :: "Entry list DB" where
  "users_db_locked = users_db\<lparr>txnManager := \<lparr>nextTransactionId = 5, keyVsLocksAcquiredMap =
     [''users:42'' \<mapsto> \<lparr>writerTxnId = 3, readerTxnIds = []\<rparr>]\<rparr>\<rparr>"

theorem insert_locked_row_witness:
  "\<exists>db' w' tabs'. insertIntoTable list_btree [''index:users:byok:1:Ann:42''] [''index:users:byok:1:Ann:42'']
      ann users_db_locked (world_on ''w'' ''d'' one_table) = (Inr (), db', w')
    \<and> db_inv list_btree w' db' tabs'
    \<and> db_map list_btree db' tabs' = db_map list_btree users_db_locked one_table
        ++ map_of (rev [(''index:users:byok:1:Ann:42'', '''')])
    \<and> db_map list_btree db' tabs' ''users:42'' = db_map list_btree users_db_locked one_table ''users:42''"
proof (rule insert_locked_row [OF list_tree.btree_contract_axioms, of _ _ _ _ _ ann_value])
  show "db_inv list_btree (world_on ''w'' ''d'' one_table) users_db_locked one_table"
    using users_db_inv by (simp add: db_inv_def users_db_locked_def)
qed (simp_all add: users_db_locked_def ann_serialised ann_entries ann_columns locks_of_def range_order_def
    serialiseTransactionCommitPayload_payload txn_commands_def range_pairs_def put_bytes_def)

end
