(* ===== verification/Sql_Catalog.thy ===== *)
theory Sql_Catalog
  imports Sql_Tables Db_Run
begin

text \<open>
  What \<^verbatim>\<open>createTable\<close> leaves in the database and what the start of the database makes of it:
  the catalog invariant ties the schemas in memory to the stored catalog, creating a table keeps it,
  and a database that opens has the schemas it had.
\<close>

subsection \<open>The stored catalog\<close>

definition index_catalog :: "CreateTable \<Rightarrow> goerr + bytes" where
  "index_catalog t = serialiseSecondaryIndexCatalog [TableName t \<mapsto> t] (TableName t) (SecondaryIndexes t)"

lemma index_catalog_eq:
  "schemas (TableName t) = Some t \<Longrightarrow>
   serialiseSecondaryIndexCatalog schemas (TableName t) (SecondaryIndexes t) = index_catalog t"
  by (simp add: index_catalog_def serialiseSecondaryIndexCatalog_def schema_of_def)

text \<open>A table that the catalog can hold: its parts fit their records and its name is a word without a comma.\<close>

definition storable :: "CreateTable \<Rightarrow> bool" where
  "storable t \<longleftrightarrow> 0 \<le> PrimaryKeyColumnPosition t \<and> PrimaryKeyColumnPosition t < 4294967296
     \<and> TableName t \<noteq> '''' \<and> CHR '','' \<notin> set (TableName t)
     \<and> (\<forall>idx \<in> set (SecondaryIndexes t). set (Columns idx) \<subseteq> ColumnName ` set (ColumnDetails t))
     \<and> length (ColumnDetails t) + length (SecondaryIndexes t) \<le> 900000
     \<and> length (TableName t) + length (serialiseCreateTableInput t) \<le> 900000
     \<and> (case index_catalog t of Inl _ \<Rightarrow> False | Inr buf \<Rightarrow> length (TableName t) + length buf \<le> 900000)"

definition catalog_ok :: "(string \<rightharpoonup> string) \<Rightarrow> (string \<rightharpoonup> CreateTable) \<Rightarrow> bool" where
  "catalog_ok m schemas \<longleftrightarrow>
     (\<forall>name t. schemas name = Some t \<longrightarrow> TableName t = name \<and> storable t
        \<and> m (''_schema:'' @ name) = Some (serialiseCreateTableInput t)
        \<and> (\<exists>buf. index_catalog t = Inr buf \<and> m (''_secondary_indexes:'' @ name) = Some buf))
     \<and> (if schemas = Map.empty then m CatalogKey = None
        else (\<exists>ord. range_order ord schemas \<and> m CatalogKey = Some (catalog_names ord schemas)))"

lemma catalog_keys [simp]:
  "CatalogKey \<noteq> ''_schema:'' @ a" "CatalogKey \<noteq> ''_secondary_indexes:'' @ a"
  "''_schema:'' @ a \<noteq> CatalogKey" "''_secondary_indexes:'' @ a \<noteq> CatalogKey"
  by (simp_all add: CatalogKey_def)

text \<open>Table names with commas between them are split again.\<close>

lemma catalog_names_eq:
  "catalog_names ord schemas = butlast (concat (map (\<lambda>k. TableName (schema_of schemas k) @ '','') ord))"
proof -
  have "foldl (\<lambda>names key. (names @ TableName (schema_of schemas key)) @ '','') acc ord =
      acc @ concat (map (\<lambda>k. TableName (schema_of schemas k) @ '','') ord)" for acc
    by (induction ord arbitrary: acc) simp_all
  then show ?thesis
    by (simp add: catalog_names_def)
qed

lemma Split_butlast_concat:
  assumes "names \<noteq> []" and "\<forall>n \<in> set names. sep \<notin> set n"
  shows "Split (butlast (concat (map (\<lambda>n. n @ [sep]) names))) sep = names"
  using assms
proof (induction names)
  case (Cons n names)
  show ?case
  proof (cases "names = []")
    case False
    then have "concat (map (\<lambda>n. n @ [sep]) names) \<noteq> []"
      by (cases names) auto
    then show ?thesis
      using Cons False by (simp add: butlast_append Split_append)
  qed (use Cons.prems in \<open>simp add: butlast_append Split_free\<close>)
qed simp

lemma catalog_names_split:
  assumes "range_order ord schemas" and "schemas \<noteq> Map.empty"
    and "\<And>name t. schemas name = Some t \<Longrightarrow> TableName t = name \<and> CHR '','' \<notin> set name"
  shows "Split (catalog_names ord schemas) (CHR '','') = ord"
proof -
  have "TableName (schema_of schemas k) = k" "CHR '','' \<notin> set k" if "k \<in> set ord" for k
    using that assms(1,3) by (auto simp: range_order_def schema_of_def)
  then have "catalog_names ord schemas = butlast (concat (map (\<lambda>n. n @ '','') ord))"
    and free: "\<forall>n \<in> set ord. CHR '','' \<notin> set n"
    by (simp_all add: catalog_names_eq cong: map_cong)
  moreover have "ord \<noteq> []"
    using assms(1,2) by (metis dom_eq_empty_conv list.set(1) range_order_def)
  ultimately show ?thesis
    using Split_butlast_concat by simp
qed

subsection \<open>Loading the schemas\<close>

lemma serialised_not_Nil: "serialiseCreateTableInput t \<noteq> []"
  by (simp add: serialiseCreateTableInput_bytes)

lemma index_catalog_read:
  assumes "storable t" and "index_catalog t = Inr buf"
  shows "buf \<noteq> []" and "deserialiseSecondaryIndexCatalog buf (ColumnDetails t) = Inr (SecondaryIndexes t)"
proof -
  have s: "fits32 (length (ColumnDetails t))" "fits32 (length buf + length (SecondaryIndexes t))"
    "\<forall>idx \<in> set (SecondaryIndexes t). set (Columns idx) \<subseteq> ColumnName ` set (ColumnDetails t)"
    using assms by (auto simp: storable_def)
  show "deserialiseSecondaryIndexCatalog buf (ColumnDetails t) = Inr (SecondaryIndexes t)"
    using secondary_index_roundtrip [of "[TableName t \<mapsto> t]" "TableName t" t "SecondaryIndexes t"] s assms(2)
    by (auto simp: index_catalog_def)
  then show "buf \<noteq> []"
    by (auto simp: deserialiseSecondaryIndexCatalog_def)
qed

lemma schema_read:
  "storable t \<Longrightarrow> deserialiseCreateTableInput (serialiseCreateTableInput t) =
     Inr (t\<lparr>TableName := '''', SecondaryIndexes := []\<rparr>)"
  by (rule schema_roundtrip) (auto simp: storable_def split: sum.splits)

lemma load_schemas_stored:
  assumes "load_schemas get names acc = Inr r"
    and "\<And>name. name \<in> set names \<Longrightarrow> \<exists>t. schemas name = Some t \<and> TableName t = name \<and> storable t
      \<and> (\<forall>v. get (''_schema:'' @ name) = Inr v \<longrightarrow> v = serialiseCreateTableInput t)
      \<and> (\<forall>v. get (''_secondary_indexes:'' @ name) = Inr v \<longrightarrow> index_catalog t = Inr v)"
  shows "r = acc ++ (schemas |` set names)"
  using assms
proof (induction names arbitrary: acc)
  case (Cons name names)
  obtain t where t: "schemas name = Some t" "TableName t = name" "storable t"
    "\<And>v. get (''_schema:'' @ name) = Inr v \<Longrightarrow> v = serialiseCreateTableInput t"
    "\<And>v. get (''_secondary_indexes:'' @ name) = Inr v \<Longrightarrow> index_catalog t = Inr v"
    using Cons.prems(2) [of name] by auto
  obtain buf where buf: "get (''_secondary_indexes:'' @ name) = Inr buf"
    and schema: "get (''_schema:'' @ name) = Inr (serialiseCreateTableInput t)"
    using Cons.prems(1) t(4) by (auto simp: Let_def split: sum.splits)
  note ix = index_catalog_read(2) [OF t(3) t(5) [OF buf]]
  have "t\<lparr>TableName := name\<rparr> = t"
    by (simp flip: t(2))
  then have "load_schemas get names (acc(name \<mapsto> t)) = Inr r"
    using Cons.prems(1) buf schema schema_read [OF t(3)] ix by (simp add: Let_def)
  then have "r = acc(name \<mapsto> t) ++ (schemas |` set names)"
    by (rule Cons.IH) (use Cons.prems(2) in simp)
  then show ?case
    using t(1) by (auto simp: map_add_def restrict_map_def fun_eq_iff split: option.splits)
qed simp

subsection \<open>Creating a table\<close>

lemma createTable_calm:
  assumes B: "btree_contract B" and inv: "db_inv B w db tabs"
    and cat: "catalog_ok (db_map B db tabs) (tableNameVsSchemaMap db)" and t: "storable t"
    and schemas: "schemas = (tableNameVsSchemaMap db)(TableName t \<mapsto> t)"
    and ord: "range_order ord schemas" and len: "length (catalog_names ord schemas) \<le> 900000"
  obtains db' w' tabs' buf where "createTable B ord t db w = (Inr (), db', w')"
    and "db_inv B w' db' tabs'" and "tableNameVsSchemaMap db' = schemas"
    and "index_catalog t = Inr buf"
    and "db_map B db' tabs' = (db_map B db tabs)(CatalogKey \<mapsto> catalog_names ord schemas,
      ''_schema:'' @ TableName t \<mapsto> serialiseCreateTableInput t, ''_secondary_indexes:'' @ TableName t \<mapsto> buf)"
    and "wal_path (wal db') = wal_path (wal db)"
    and "dataFilesDirectory (ssTable db') = dataFilesDirectory (ssTable db)"
proof -
  obtain buf where buf: "index_catalog t = Inr buf" "length (TableName t) + length buf \<le> 900000"
    using t by (auto simp: storable_def split: sum.splits)
  have small: "length (TableName t) + length (serialiseCreateTableInput t) \<le> 900000"
    using t by (simp add: storable_def)
  let ?db = "db\<lparr>tableNameVsSchemaMap := schemas\<rparr>"
  have inv0: "db_inv B w ?db tabs"
    using inv by (simp add: db_inv_def)
  obtain db1 w1 tabs1 where p1: "DB_Put B CatalogKey (catalog_names ord schemas) ?db w = (Inr (), db1, w1)"
    "db_inv B w1 db1 tabs1" "db_map B db1 tabs1 = (db_map B ?db tabs)(CatalogKey \<mapsto> catalog_names ord schemas)"
    "wal_path (wal db1) = wal_path (wal ?db)"
    "dataFilesDirectory (ssTable db1) = dataFilesDirectory (ssTable ?db)"
    "tableNameVsSchemaMap db1 = tableNameVsSchemaMap ?db"
    by (rule DB_Put_calm [OF B inv0, of CatalogKey "catalog_names ord schemas"])
       (use len in \<open>auto simp: CatalogKey_def\<close>)
  obtain db2 w2 tabs2 where p2: "DB_Put B (''_schema:'' @ TableName t) (serialiseCreateTableInput t) db1 w1 = (Inr (), db2, w2)"
    "db_inv B w2 db2 tabs2"
    "db_map B db2 tabs2 = (db_map B db1 tabs1)(''_schema:'' @ TableName t \<mapsto> serialiseCreateTableInput t)"
    "wal_path (wal db2) = wal_path (wal db1)"
    "dataFilesDirectory (ssTable db2) = dataFilesDirectory (ssTable db1)"
    "tableNameVsSchemaMap db2 = tableNameVsSchemaMap db1"
    by (rule DB_Put_calm [OF B p1(2), of "''_schema:'' @ TableName t" "serialiseCreateTableInput t"])
       (use small in auto)
  obtain db3 w3 tabs3 where p3: "DB_Put B (''_secondary_indexes:'' @ TableName t) buf db2 w2 = (Inr (), db3, w3)"
    "db_inv B w3 db3 tabs3"
    "db_map B db3 tabs3 = (db_map B db2 tabs2)(''_secondary_indexes:'' @ TableName t \<mapsto> buf)"
    "wal_path (wal db3) = wal_path (wal db2)"
    "dataFilesDirectory (ssTable db3) = dataFilesDirectory (ssTable db2)"
    "tableNameVsSchemaMap db3 = tableNameVsSchemaMap db2"
    by (rule DB_Put_calm [OF B p2(2), of "''_secondary_indexes:'' @ TableName t" buf]) (use buf(2) in auto)
  have ix: "serialiseSecondaryIndexCatalog schemas (TableName t) (SecondaryIndexes t) = Inr buf"
    using index_catalog_eq [of schemas t] buf(1) schemas by simp
  have run: "createTable B ord t db w = (Inr (), db3, w3)"
    using p1(1,6) p2(1,6) p3(1) ix by (simp add: createTable_def drop_error_def Let_def schemas)
  have contents: "db_map B ?db tabs = db_map B db tabs"
    by (simp add: db_map_def)
  show ?thesis
    by (rule that [OF run p3(2) _ buf(1)])
       (simp_all only: p3(3-6) p2(3-6) p1(3-6) contents DB.select_convs DB.update_convs simp_thms, simp_all)
qed

lemma catalog_ok_create:
  assumes "catalog_ok m schemas" and t: "storable t" and "index_catalog t = Inr buf"
    and "range_order ord (schemas(TableName t \<mapsto> t))"
  shows "catalog_ok (m(CatalogKey \<mapsto> catalog_names ord (schemas(TableName t \<mapsto> t)),
      ''_schema:'' @ TableName t \<mapsto> serialiseCreateTableInput t, ''_secondary_indexes:'' @ TableName t \<mapsto> buf))
    (schemas(TableName t \<mapsto> t))"
    (is "catalog_ok ?m ?schemas")
proof -
  have cell: "?m (''_schema:'' @ name) = (if name = TableName t then Some (serialiseCreateTableInput t) else m (''_schema:'' @ name))"
    "?m (''_secondary_indexes:'' @ name) = (if name = TableName t then Some buf else m (''_secondary_indexes:'' @ name))"
    "?m CatalogKey = Some (catalog_names ord ?schemas)" for name
    by (auto simp: CatalogKey_def)
  have tables: "TableName t' = name \<and> storable t' \<and> ?m (''_schema:'' @ name) = Some (serialiseCreateTableInput t')
      \<and> (\<exists>buf. index_catalog t' = Inr buf \<and> ?m (''_secondary_indexes:'' @ name) = Some buf)"
    if "?schemas name = Some t'" for name t'
    using that assms(1-3) unfolding cell catalog_ok_def by (cases "name = TableName t") auto
  have nonempty: "?schemas \<noteq> Map.empty"
    by (metis map_upd_nonempty)
  have "if ?schemas = Map.empty then ?m CatalogKey = None
      else \<exists>ord. range_order ord ?schemas \<and> ?m CatalogKey = Some (catalog_names ord ?schemas)"
    unfolding if_not_P [OF nonempty] using assms(4) cell(3) by blast
  with tables show ?thesis
    unfolding catalog_ok_def by blast
qed

lemma reopened_schemas:
  assumes B: "btree_contract B" and inv: "db_inv B w db tabs" and cat: "catalog_ok (db_map B db tabs) schemas"
    and ne: "wal_path (wal db) \<noteq> ''''" "dataFilesDirectory (ssTable db) \<noteq> ''''"
    and start: "NewDB B (same_place db bl) w = (Inr db', w')"
  shows "tableNameVsSchemaMap db' = schemas"
proof -
  obtain db1 where o: "NewDB B (same_place db bl) w =
      (case getTableNameVsSchemaMap B db1 w of
         Inl e \<Rightarrow> (Inl e, w) | Inr schemas \<Rightarrow> (Inr (db1\<lparr>tableNameVsSchemaMap := schemas\<rparr>), w))"
    and inv1: "\<And>schemas. db_inv B w (db1\<lparr>tableNameVsSchemaMap := schemas\<rparr>) tabs"
    and same: "mt_abs B (memTable db1) = mt_abs B (memTable db)"
    and st: "sst_inv w (ssTable db1) tabs"
    by (rule btree_contract.reopen_calm [OF B inv ne refl, of bl]) blast
  obtain loaded where loaded: "getTableNameVsSchemaMap B db1 w = Inr loaded" "tableNameVsSchemaMap db' = loaded"
    using o start by (auto split: sum.splits)
  have mt: "mt_inv B (memTable db1)"
    using db_invD(3) [OF inv1] by simp
  have m: "db_map B db1 tabs = db_map B db tabs"
    by (simp add: db_map_def same)
  note get = DB_Get_Inr [OF B mt st, unfolded m]
  have known: "TableName t = name \<and> storable t \<and> db_map B db tabs (''_schema:'' @ name) = Some (serialiseCreateTableInput t)
      \<and> (\<exists>buf. index_catalog t = Inr buf \<and> db_map B db tabs (''_secondary_indexes:'' @ name) = Some buf)"
    if "schemas name = Some t" for name t
    using cat that by (simp add: catalog_ok_def)
  obtain names where names: "DB_Get B CatalogKey db1 w = Inr names"
    using loaded(1) by (auto simp: getTableNameVsSchemaMap_def split: sum.splits)
  show ?thesis
  proof (cases "schemas = Map.empty")
    case True
    then have "names = ''''"
      using cat get(2) [OF names] by (simp add: catalog_ok_def)
    then show ?thesis
      using loaded names True by (simp add: getTableNameVsSchemaMap_def)
  next
    case False
    then obtain ord where ord: "range_order ord schemas" "db_map B db tabs CatalogKey = Some (catalog_names ord schemas)"
      using cat by (auto simp: catalog_ok_def)
    have split: "Split (catalog_names ord schemas) (CHR '','') = ord"
      by (rule catalog_names_split [OF ord(1) False]) (use known in \<open>auto simp: storable_def\<close>)
    moreover have "catalog_names ord schemas \<noteq> ''''"
    proof
      assume "catalog_names ord schemas = ''''"
      then have "'''' \<in> dom schemas"
        using split ord(1) by (auto simp: range_order_def)
      then show False
        using known by (auto simp: storable_def)
    qed
    then have "names = catalog_names ord schemas"
      using get(1) [OF names ord(2)] by simp
    ultimately have load: "load_schemas (\<lambda>key. DB_Get B key db1 w) ord Map.empty = Inr loaded"
      using loaded(1) names \<open>catalog_names ord schemas \<noteq> ''''\<close> by (simp add: getTableNameVsSchemaMap_def)
    have "loaded = Map.empty ++ (schemas |` set ord)"
    proof (rule load_schemas_stored [OF load])
      fix name assume "name \<in> set ord"
      then obtain t where t: "schemas name = Some t"
        using ord(1) by (auto simp: range_order_def)
      note k = known [OF t]
      then show "\<exists>t. schemas name = Some t \<and> TableName t = name \<and> storable t
          \<and> (\<forall>v. DB_Get B (''_schema:'' @ name) db1 w = Inr v \<longrightarrow> v = serialiseCreateTableInput t)
          \<and> (\<forall>v. DB_Get B (''_secondary_indexes:'' @ name) db1 w = Inr v \<longrightarrow> index_catalog t = Inr v)"
        using t get(1) serialised_not_Nil index_catalog_read(1) by blast
    qed
    then show ?thesis
      using loaded(2) ord(1) by (simp add: range_order_def restrict_map_def fun_eq_iff dom_def)
  qed
qed

text \<open>C15: Creating a table succeeds, keeps the catalog invariant, and is lasting: whenever the
  database opens again on its files, it has the same schemas in memory as before, the new table and
  all older ones with their columns, primary keys and secondary indexes.\<close>

theorem create_table_survives:
  assumes "btree_contract B" and "db_inv B w db tabs"
    and "catalog_ok (db_map B db tabs) (tableNameVsSchemaMap db)" and "storable t"
    and "schemas = (tableNameVsSchemaMap db)(TableName t \<mapsto> t)"
    and "range_order ord schemas" and "length (catalog_names ord schemas) \<le> 900000"
    and "wal_path (wal db) \<noteq> ''''" and "dataFilesDirectory (ssTable db) \<noteq> ''''"
  shows "\<exists>db' w' tabs'. createTable B ord t db w = (Inr (), db', w')
    \<and> db_inv B w' db' tabs' \<and> tableNameVsSchemaMap db' = schemas \<and> catalog_ok (db_map B db' tabs') schemas
    \<and> (\<forall>bl db'' w''. NewDB B (same_place db' bl) w' = (Inr db'', w'') \<longrightarrow> tableNameVsSchemaMap db'' = schemas)"
proof -
  obtain db' w' tabs' buf where c: "createTable B ord t db w = (Inr (), db', w')" "db_inv B w' db' tabs'"
    "tableNameVsSchemaMap db' = schemas" "index_catalog t = Inr buf"
    "db_map B db' tabs' = (db_map B db tabs)(CatalogKey \<mapsto> catalog_names ord schemas,
      ''_schema:'' @ TableName t \<mapsto> serialiseCreateTableInput t, ''_secondary_indexes:'' @ TableName t \<mapsto> buf)"
    "wal_path (wal db') = wal_path (wal db)"
    "dataFilesDirectory (ssTable db') = dataFilesDirectory (ssTable db)"
    by (rule createTable_calm [OF assms(1-7)])
  have ok: "catalog_ok (db_map B db' tabs') schemas"
    using catalog_ok_create [OF assms(3,4) c(4) assms(6) [unfolded assms(5)]] by (simp only: c(5) assms(5))
  have "tableNameVsSchemaMap db'' = schemas" if "NewDB B (same_place db' bl) w' = (Inr db'', w'')" for bl db'' w''
    by (rule reopened_schemas [OF assms(1) c(2) ok _ _ that]) (use c(6,7) assms(8,9) in simp_all)
  with c(1-3) ok show ?thesis
    by blast
qed

lemma example_table_storable: "storable example_table"
proof -
  have "length (serialiseCreateTableInput example_table) = 27"
    by (simp add: serialiseCreateTableInput_bytes column_bytes_def example_table_def)
  moreover obtain buf where "index_catalog example_table = Inr buf" "length buf = 24"
    by (simp add: index_catalog_def serialiseSecondaryIndexCatalog_def schema_of_def example_table_def
        column_position_def)
  ultimately show ?thesis
    by (simp add: storable_def) (simp add: example_table_def)
qed

theorem create_table_survives_witness:
  "\<exists>db' w' tabs'. createTable list_btree [''users''] example_table (db_on list_btree ''w'' ''d'' [])
      (world_on ''w'' ''d'' []) = (Inr (), db', w')
    \<and> db_inv list_btree w' db' tabs' \<and> tableNameVsSchemaMap db' = [''users'' \<mapsto> example_table]
    \<and> catalog_ok (db_map list_btree db' tabs') [''users'' \<mapsto> example_table]
    \<and> (\<forall>bl db'' w''. NewDB list_btree (same_place db' bl) w' = (Inr db'', w'') \<longrightarrow>
        tableNameVsSchemaMap db'' = [''users'' \<mapsto> example_table])"
proof (rule create_table_survives [OF list_tree.btree_contract_axioms list_db_inv(1) _ example_table_storable])
  show "catalog_ok (db_map list_btree (db_on list_btree ''w'' ''d'' []) [])
      (tableNameVsSchemaMap (db_on list_btree ''w'' ''d'' []))"
    by (simp add: catalog_ok_def db_on_def db_map_def mt_abs_def Iterate_def NewMemtable_def list_btree_def)
qed (simp_all add: db_on_def example_table_def range_order_def catalog_names_eq schema_of_def tables_state_def)

end
