(* ===== verification/Sql_Select.thy ===== *)
theory Sql_Select
  imports Sql_Tables "HOL-Library.Multiset"
begin

text \<open>
  \<^verbatim>\<open>db/select.go\<close> and \<^verbatim>\<open>db/helper.go\<close>: the ways a query is answered (by primary key, by a full
  scan, or by a secondary index) and the filter for the remaining conditions. The orders in which Go
  ranges over the maps of a scan are the record \<open>scan_orders\<close>. Loop variables are fresh in every
  iteration (Go 1.26), so the address of one names the index of that iteration.
\<close>

record scan_orders =
  mem_order :: map_range
  table_order :: map_range
  pk_order :: "(string \<rightharpoonup> bool) \<Rightarrow> string list"

subsection \<open>Kinds of queries\<close>

fun column_from :: "nat \<Rightarrow> Column list \<Rightarrow> string \<Rightarrow> int" where
  "column_from i [] colName = - 1"
| "column_from i (col # cols) colName =
     (if ColumnName col = colName then int i else column_from (Suc i) cols colName)"

definition getColPositionFromColName :: "(string \<rightharpoonup> CreateTable) \<Rightarrow> string \<Rightarrow> string \<Rightarrow> int" where
  "getColPositionFromColName schemas tableName colName =
     column_from 0 (ColumnDetails (schema_of schemas tableName)) colName"

definition isPointedPrimaryKeyQuery :: "SelectFromTable \<Rightarrow> string \<Rightarrow> bool" where
  "isPointedPrimaryKeyQuery sel pkColumnName \<longleftrightarrow>
     length (QueryConditions sel) = 1
     \<and> qc_ColumnName (QueryConditions sel ! 0) = pkColumnName
     \<and> QueryType (QueryConditions sel ! 0) = ''=''"

definition isFullTableScanQuery :: "SelectFromTable \<Rightarrow> bool" where
  "isFullTableScanQuery sel \<longleftrightarrow> length (QueryConditions sel) = 0"

subsection \<open>Choosing an index\<close>

text \<open>The loop over the columns of one index; the flag says that the function returns.\<close>

fun index_cover ::
    "QueryCondition list \<Rightarrow> SecondaryIndex \<Rightarrow> string list \<Rightarrow> string list
       \<Rightarrow> (SecondaryIndex \<times> string list) option \<Rightarrow> bool \<times> (SecondaryIndex \<times> string list) option" where
  "index_cover qcs idx [] covered candidate = (False, candidate)"
| "index_cover qcs idx (secIdxCol # cols) covered candidate =
     (if \<exists>qc \<in> set qcs. qc_ColumnName qc = secIdxCol then
        let covered = covered @ [secIdxCol] in
        if length covered = length (Columns idx) then (True, Some (idx, covered))
        else index_cover qcs idx cols covered
               (if length covered > 0 then Some (idx, covered) else candidate)
      else (False, candidate))"

fun choose_index ::
    "QueryCondition list \<Rightarrow> SecondaryIndex list \<Rightarrow> (SecondaryIndex \<times> string list) option
       \<Rightarrow> (SecondaryIndex \<times> string list) option" where
  "choose_index qcs [] candidate = candidate"
| "choose_index qcs (idx # idxs) candidate =
     (case index_cover qcs idx (Columns idx) [] candidate of
        (True, r) \<Rightarrow> r
      | (False, candidate') \<Rightarrow> choose_index qcs idxs candidate')"

definition getSecondaryIndexForQueryIfApplicable ::
    "SelectFromTable \<Rightarrow> SecondaryIndex list \<Rightarrow> (SecondaryIndex \<times> string list) option" where
  "getSecondaryIndexForQueryIfApplicable sel secondaryIndexes =
     choose_index (QueryConditions sel) secondaryIndexes None"

definition allColumnsCoveredBySecondaryIndex :: "SecondaryIndex \<Rightarrow> string list \<Rightarrow> bool" where
  "allColumnsCoveredBySecondaryIndex idx cols \<longleftrightarrow> length (Columns idx) = length cols"

subsection \<open>Filtering\<close>

text \<open>Values are compared as strings. \<open>row[colPos]\<close> panics beyond the row.\<close>

definition isQueryConditionApplicable :: "string list \<Rightarrow> nat \<Rightarrow> QueryCondition \<Rightarrow> goerr + bool" where
  "isQueryConditionApplicable row colPos qc =
     (if QueryType qc \<notin> {''='', ''<'', ''<='', ''>'', ''>=''} then Inl (Errorf ''query type not supported'')
      else if colPos \<ge> length row then Inl index_panic
      else Inr (if QueryType qc = ''='' then row ! colPos = qc_Value qc
           else if QueryType qc = ''<'' then row ! colPos < qc_Value qc
           else if QueryType qc = ''<='' then row ! colPos \<le> qc_Value qc
           else if QueryType qc = ''>'' then row ! colPos > qc_Value qc
           else row ! colPos \<ge> qc_Value qc))"

fun filter_rows :: "nat \<Rightarrow> QueryCondition \<Rightarrow> string list list \<Rightarrow> goerr + string list list" where
  "filter_rows colPos qc [] = Inr []"
| "filter_rows colPos qc (row # rows) =
     then_ok (isQueryConditionApplicable row colPos qc) (\<lambda>applicable.
     then_ok (filter_rows colPos qc rows) (\<lambda>filtered.
     Inr (if applicable then row # filtered else filtered)))"

fun filterQueryConditions ::
    "(string \<rightharpoonup> CreateTable) \<Rightarrow> string \<Rightarrow> QueryCondition list \<Rightarrow> string list \<Rightarrow> string list list
       \<Rightarrow> goerr + string list list" where
  "filterQueryConditions schemas tableName [] covered queryResult = Inr queryResult"
| "filterQueryConditions schemas tableName (qc # qcs) covered queryResult =
     (if qc_ColumnName qc \<in> set covered
      then filterQueryConditions schemas tableName qcs covered queryResult
      else let colPos = getColPositionFromColName schemas tableName (qc_ColumnName qc) in
        if colPos = - 1 then Inl (Errorf ''unable to apply all query conditions'')
        else then_ok (filter_rows (nat colPos) qc queryResult) (\<lambda>filtered.
          filterQueryConditions schemas tableName qcs covered filtered))"

subsection \<open>Scans\<close>

fun read_rows ::
    "(string \<rightharpoonup> CreateTable) \<Rightarrow> string \<Rightarrow> bytes list \<Rightarrow> goerr + string list list" where
  "read_rows schemas tableName [] = Inr []"
| "read_rows schemas tableName (value # vals) =
     then_ok (deserializeRowValues schemas tableName value) (\<lambda>row.
     then_ok (read_rows schemas tableName vals) (\<lambda>rows. Inr (row # rows)))"

definition fullTableScan ::
    "'t btree \<Rightarrow> scan_orders \<Rightarrow> string \<Rightarrow> 't DB \<Rightarrow> world \<Rightarrow> goerr + string list list" where
  "fullTableScan B ords tableName db w =
     (let key = tableName @ '':''; memTableMap = Memtable_PrefixScan B (memTable db) key in
      then_ok (SsTable_PrefixScan (ssTable db) key w) (\<lambda>ssTableMap.
      then_ok (read_rows (tableNameVsSchemaMap db) tableName
                 (map (\<lambda>k. the (memTableMap k)) (mem_order ords memTableMap))) (\<lambda>memRows.
      then_ok (read_rows (tableNameVsSchemaMap db) tableName
                 (map (\<lambda>k. the (ssTableMap k))
                   (filter (\<lambda>k. memTableMap k = None) (table_order ords ssTableMap)))) (\<lambda>tableRows.
      Inr (memRows @ tableRows)))))"

text \<open>The set of primary keys is a Go map; the last part of a key is its primary key.\<close>

definition pk_of_key :: "string \<Rightarrow> string" where
  "pk_of_key key = last (Split key (CHR '':''))"

definition secondaryIndexPrefixScan ::
    "'t btree \<Rightarrow> scan_orders \<Rightarrow> string \<Rightarrow> 't DB \<Rightarrow> world \<Rightarrow> goerr + string list" where
  "secondaryIndexPrefixScan B ords prefixKey db w =
     (let memTableMap = Memtable_PrefixScan B (memTable db) prefixKey in
      then_ok (SsTable_PrefixScan (ssTable db) prefixKey w) (\<lambda>ssTableMap.
      let pkSet = foldl (\<lambda>pkSet key. pkSet(pk_of_key key \<mapsto> True)) Map.empty (table_order ords ssTableMap);
          pkSet = foldl (\<lambda>pkSet key. pkSet(pk_of_key key \<mapsto> True)) pkSet (mem_order ords memTableMap)
      in Inr (pk_order ords pkSet)))"

subsection \<open>Queries\<close>

definition getRowForPrimaryKey ::
    "'t btree \<Rightarrow> string \<Rightarrow> string \<Rightarrow> 't DB \<Rightarrow> world \<Rightarrow> goerr + string list" where
  "getRowForPrimaryKey B tableName primaryKeyId db w =
     then_ok (DB_Get B (row_key tableName primaryKeyId) db w)
       (deserializeRowValues (tableNameVsSchemaMap db) tableName)"

fun rows_for_keys :: "'t btree \<Rightarrow> string \<Rightarrow> string list \<Rightarrow> 't DB \<Rightarrow> world \<Rightarrow> goerr + string list list" where
  "rows_for_keys B tableName [] db w = Inr []"
| "rows_for_keys B tableName (pkId # pkIds) db w =
     then_ok (getRowForPrimaryKey B tableName pkId db w) (\<lambda>row.
     then_ok (rows_for_keys B tableName pkIds db w) (\<lambda>rows. Inr (row # rows)))"

definition runFullTableScanAndFilterConditions ::
    "'t btree \<Rightarrow> scan_orders \<Rightarrow> string \<Rightarrow> SelectFromTable \<Rightarrow> 't DB \<Rightarrow> world \<Rightarrow> goerr + string list list" where
  "runFullTableScanAndFilterConditions B ords tableName sel db w =
     then_ok (fullTableScan B ords tableName db w)
       (filterQueryConditions (tableNameVsSchemaMap db) tableName (QueryConditions sel) [])"

definition getQueryResultFromSecondaryIndexIfApplicable ::
    "'t btree \<Rightarrow> scan_orders \<Rightarrow> string \<Rightarrow> SelectFromTable \<Rightarrow> CreateTable \<Rightarrow> 't DB \<Rightarrow> world
       \<Rightarrow> goerr + string list list" where
  "getQueryResultFromSecondaryIndexIfApplicable B ords tableName sel schema db w =
     (case getSecondaryIndexForQueryIfApplicable sel (SecondaryIndexes schema) of
        None \<Rightarrow> runFullTableScanAndFilterConditions B ords tableName sel db w
      | Some (secondaryIndex, covered) \<Rightarrow>
          let columnValues = map qc_Value (QueryConditions sel);
              prefixKey = getSecondaryIndexKeyOrPrefix tableName (IndexName secondaryIndex) columnValues '''' in
          then_ok (secondaryIndexPrefixScan B ords prefixKey db w) (\<lambda>primaryKeyIds.
          then_ok (rows_for_keys B tableName primaryKeyIds db w) (\<lambda>queryResult.
          if allColumnsCoveredBySecondaryIndex secondaryIndex covered then Inr queryResult
          else filterQueryConditions (tableNameVsSchemaMap db) tableName (QueryConditions sel) covered queryResult)))"

definition selectFromTable ::
    "'t btree \<Rightarrow> scan_orders \<Rightarrow> SelectFromTable \<Rightarrow> 't DB \<Rightarrow> world \<Rightarrow> goerr + string list list" where
  "selectFromTable B ords sel db w =
     (let tableName = sel_TableName sel in
      case tableNameVsSchemaMap db tableName of
        None \<Rightarrow> Inl (Errorf (''table with name '' @ quoted tableName @ '' not found''))
      | Some schema \<Rightarrow>
          let pkPos = PrimaryKeyColumnPosition schema;
              pkColumnName = (if 0 \<le> pkPos \<and> nat pkPos < length (ColumnDetails schema)
                              then ColumnName (ColumnDetails schema ! nat pkPos) else '''') in
          if pkColumnName = '''' then Inl (Errorf ''primary key column position is incorrect'')
          else if isPointedPrimaryKeyQuery sel pkColumnName
          then then_ok (getRowForPrimaryKey B tableName (qc_Value (QueryConditions sel ! 0)) db w)
                 (\<lambda>rowValues. Inr [rowValues])
          else if isFullTableScanQuery sel then fullTableScan B ords tableName db w
          else getQueryResultFromSecondaryIndexIfApplicable B ords tableName sel schema db w)"

subsection \<open>What a scan returns\<close>

definition orders_ok :: "scan_orders \<Rightarrow> bool" where
  "orders_ok ords \<longleftrightarrow> rng_ok (mem_order ords) \<and> rng_ok (table_order ords)
     \<and> (\<forall>m. finite (dom m) \<longrightarrow> range_order (pk_order ords m) m)"

lemma read_rows_ok:
  "\<forall>v \<in> set vals. deserializeRowValues schemas tableName v = Inr (f v) \<Longrightarrow>
   read_rows schemas tableName vals = Inr (map f vals)"
  by (induction vals) simp_all

lemma finite_dom_mt: "finite (dom (mt_abs B m))"
  by (simp add: mt_abs_def finite_dom_map_of)

text \<open>The keys that a scan visits, in its order.\<close>

lemma scan_keys:
  assumes "btree_contract B" and "mt_inv B (memTable db)" and "orders_ok ords"
    and "mm = mt_abs B (memTable db) |` {k. HasPrefix k p}" and "sm = sst_map tabs |` {k. HasPrefix k p}"
  shows "distinct (mem_order ords mm @ filter (\<lambda>k. mm k = None) (table_order ords sm))"
    and "set (mem_order ords mm @ filter (\<lambda>k. mm k = None) (table_order ords sm)) =
      {k \<in> dom (db_map B db tabs). HasPrefix k p}"
    and "set (mem_order ords mm) = dom mm" and "set (table_order ords sm) = dom sm"
proof -
  have "finite (dom mm)" "finite (dom sm)"
    using finite_dom_mt [of B "memTable db"] finite_dom_sst_map [of tabs] by (simp_all add: assms(4,5))
  then have r: "range_order (mem_order ords mm) mm" "range_order (table_order ords sm) sm"
    using assms(3) by (simp_all add: orders_ok_def rng_ok_def)
  then show "set (mem_order ords mm) = dom mm" "set (table_order ords sm) = dom sm"
    by (simp_all add: range_order_def)
  then show "set (mem_order ords mm @ filter (\<lambda>k. mm k = None) (table_order ords sm)) =
      {k \<in> dom (db_map B db tabs). HasPrefix k p}"
    by (auto simp: assms(4,5) db_map_def restrict_map_def split: if_splits)
  show "distinct (mem_order ords mm @ filter (\<lambda>k. mm k = None) (table_order ords sm))"
    using r by (auto simp: range_order_def)
qed

lemma fullTableScan_keys:
  assumes B: "btree_contract B" and mt: "mt_inv B (memTable db)" and st: "sst_inv w (ssTable db) tabs"
    and ords: "orders_ok ords"
    and rows: "\<forall>k \<in> {k \<in> dom (db_map B db tabs). HasPrefix k (tableName @ '':'')}.
      deserializeRowValues (tableNameVsSchemaMap db) tableName (the (db_map B db tabs k)) = Inr (row k)"
  obtains ks where "fullTableScan B ords tableName db w = Inr (map row ks)" and "distinct ks"
    and "set ks = {k \<in> dom (db_map B db tabs). HasPrefix k (tableName @ '':'')}"
proof -
  let ?p = "tableName @ '':''"
  define mm where "mm = mt_abs B (memTable db) |` {k. HasPrefix k ?p}"
  define sm where "sm = sst_map tabs |` {k. HasPrefix k ?p}"
  note keys = scan_keys [OF B mt ords mm_def sm_def]
  let ?ks = "mem_order ords mm" and ?ts = "filter (\<lambda>k. mm k = None) (table_order ords sm)"
  have in_mem: "deserializeRowValues (tableNameVsSchemaMap db) tableName (the (mm k)) = Inr (row k)"
    if "k \<in> set ?ks" for k
  proof -
    have "mm k \<noteq> None"
      using that keys(3) by auto
    then have "the (db_map B db tabs k) = the (mm k)" "k \<in> {k \<in> dom (db_map B db tabs). HasPrefix k ?p}"
      using that keys(2) by (auto simp: mm_def db_map_def restrict_map_def split: if_splits)
    then show ?thesis
      using rows by metis
  qed
  have in_tables: "deserializeRowValues (tableNameVsSchemaMap db) tableName (the (sm k)) = Inr (row k)"
    if "k \<in> set ?ts" for k
  proof -
    have "mm k = None" "sm k \<noteq> None"
      using that keys(4) by auto
    then have "the (db_map B db tabs k) = the (sm k)" "k \<in> {k \<in> dom (db_map B db tabs). HasPrefix k ?p}"
      by (auto simp: mm_def sm_def db_map_def restrict_map_def map_add_def split: if_splits option.splits)
    then show ?thesis
      using rows by metis
  qed
  have decode: "read_rows (tableNameVsSchemaMap db) tableName (map (\<lambda>k. the (m k)) ks) = Inr (map row ks)"
    if "\<And>k. k \<in> set ks \<Longrightarrow> deserializeRowValues (tableNameVsSchemaMap db) tableName (the (m k)) = Inr (row k)"
    for ks :: "string list" and m
    using that by (induction ks) simp_all
  have maps: "Memtable_PrefixScan B (memTable db) ?p = mm" "SsTable_PrefixScan (ssTable db) ?p w = Inr sm"
    by (simp_all add: SsTable_PrefixScan_tables [OF st] btree_contract.PrefixScan_abs [OF B mt] mm_def sm_def)
  have "read_rows (tableNameVsSchemaMap db) tableName (map (\<lambda>k. the (mm k)) ?ks) = Inr (map row ?ks)"
    "read_rows (tableNameVsSchemaMap db) tableName (map (\<lambda>k. the (sm k)) ?ts) = Inr (map row ?ts)"
    by (rule decode, erule in_mem) (rule decode, erule in_tables)
  then have "fullTableScan B ords tableName db w = Inr (map row (?ks @ ?ts))"
    unfolding fullTableScan_def Let_def maps by simp
  then show ?thesis
    using that keys(1,2) by blast
qed

text \<open>A full scan returns exactly one row for every key of the table in the contents of the
  database, decoded from its newest value, whichever of memtable and tables holds it and whatever
  the orders in which Go ranges over the two maps. All these values must be rows of the table.\<close>

theorem full_scan_rows:
  assumes "btree_contract B" and "mt_inv B (memTable db)" and "sst_inv w (ssTable db) tabs" and "orders_ok ords"
    and "ks = {k \<in> dom (db_map B db tabs). HasPrefix k (tableName @ '':'')}"
    and "\<forall>k \<in> ks. deserializeRowValues (tableNameVsSchemaMap db) tableName (the (db_map B db tabs k)) = Inr (row k)"
  shows "\<exists>rows. fullTableScan B ords tableName db w = Inr rows \<and> mset rows = image_mset row (mset_set ks)"
proof -
  obtain xs where xs: "fullTableScan B ords tableName db w = Inr (map row xs)" "distinct xs" "set xs = ks"
    using fullTableScan_keys [OF assms(1-4) assms(6) [unfolded assms(5)]] assms(5) by metis
  have "mset (map row xs) = image_mset row (mset_set ks)"
    using mset_set_set [OF xs(2)] xs(3) by simp
  with xs(1) show ?thesis
    by blast
qed

lemma ann_read: "deserializeRowValues [''users'' \<mapsto> example_table] ''users'' ann_value = Inr [''Ann'', ''42'', ''1'']"
proof -
  have fields: "row_fields (ColumnDetails example_table) [''Ann'', ''42'', ''1''] [] = Inr ann_value"
    using ann_serialised by (auto simp: serialiseInsertIntoTableInput_def schema_of_def split: sum.splits)
  show ?thesis
    by (rule row_read_back [OF _ example_row fields]) (simp_all add: ann_value_def)
qed

text \<open>A database whose one table holds the row and its index entry.\<close>

definition ann_table :: "sorted_table list" where
  "ann_table = [(100, [(''index:users:byok:1:Ann:42'', ''''), (''users:42'', ann_value)])]"

definition ann_db :: "Entry list DB" where
  "ann_db = (db_on list_btree ''w'' ''d'' ann_table)\<lparr>tableNameVsSchemaMap := [''users'' \<mapsto> example_table]\<rparr>"

abbreviation ann_world :: world where
  "ann_world \<equiv> world_on ''w'' ''d'' ann_table"

definition ordered_scans :: scan_orders where
  "ordered_scans = \<lparr>mem_order = ordered_range, table_order = ordered_range,
     pk_order = (\<lambda>m. sorted_list_of_set (dom m))\<rparr>"

lemma ann_db_facts:
  "mt_inv list_btree (memTable ann_db)" "sst_inv ann_world (ssTable ann_db) ann_table"
  "orders_ok ordered_scans" "tableNameVsSchemaMap ann_db = [''users'' \<mapsto> example_table]"
  "db_map list_btree ann_db ann_table = [''index:users:byok:1:Ann:42'' \<mapsto> '''', ''users:42'' \<mapsto> ann_value]"
proof -
  have ok: "\<forall>t \<in> set ann_table. table_ok (fst t) (snd t)"
    by (simp add: ann_table_def table_ok_def file_bytes_def file_index_def kv_bytes_def ann_value_def less_list_code)
  have inv: "db_inv list_btree ann_world (db_on list_btree ''w'' ''d'' ann_table) ann_table"
    and ix: "indexed (ssTable (db_on list_btree ''w'' ''d'' ann_table)) ann_table"
    using list_db_inv [OF ok] by blast+
  show "mt_inv list_btree (memTable ann_db)"
    using db_invD(3) [OF inv] by (simp add: ann_db_def)
  show "sst_inv ann_world (ssTable ann_db) ann_table"
    using db_invD(1) [OF inv] ix by (simp add: ann_db_def sst_inv_def)
  show "orders_ok ordered_scans"
    using rng_ok_ordered_range by (simp add: orders_ok_def ordered_scans_def range_order_def)
  show "tableNameVsSchemaMap ann_db = [''users'' \<mapsto> example_table]"
    by (simp add: ann_db_def)
  show "db_map list_btree ann_db ann_table = [''index:users:byok:1:Ann:42'' \<mapsto> '''', ''users:42'' \<mapsto> ann_value]"
    by (simp add: db_map_def ann_db_def mt_abs_def Iterate_def NewMemtable_def list_btree_def ann_table_def
        sst_map_def fun_eq_iff)
qed

theorem full_scan_rows_witness:
  "\<exists>rows. fullTableScan list_btree ordered_scans ''users'' ann_db ann_world = Inr rows
    \<and> mset rows = image_mset (\<lambda>_. [''Ann'', ''42'', ''1'']) (mset_set {''users:42''})"
  by (rule full_scan_rows [OF list_tree.btree_contract_axioms ann_db_facts(1-3)])
     (auto simp: ann_db_facts(4,5) ann_read split: if_splits)

subsection \<open>Queries without an index\<close>

text \<open>What a condition means for a row.\<close>

definition compares :: "string \<Rightarrow> string \<Rightarrow> string \<Rightarrow> bool" where
  "compares operator a b =
     (if operator = ''='' then a = b else if operator = ''<'' then a < b else if operator = ''<='' then a \<le> b
      else if operator = ''>'' then a > b else a \<ge> b)"

definition satisfies :: "(string \<rightharpoonup> CreateTable) \<Rightarrow> string \<Rightarrow> QueryCondition \<Rightarrow> string list \<Rightarrow> bool" where
  "satisfies schemas tableName qc row =
     compares (QueryType qc) (row ! nat (getColPositionFromColName schemas tableName (qc_ColumnName qc))) (qc_Value qc)"

text \<open>A condition that can be applied: its operator is known and its column belongs to the table.\<close>

definition applicable :: "(string \<rightharpoonup> CreateTable) \<Rightarrow> string \<Rightarrow> QueryCondition \<Rightarrow> bool" where
  "applicable schemas tableName qc \<longleftrightarrow> QueryType qc \<in> {''='', ''<'', ''<='', ''>'', ''>=''}
     \<and> qc_ColumnName qc \<in> ColumnName ` set (ColumnDetails (schema_of schemas tableName))"

lemma column_from_found:
  "name \<in> ColumnName ` set cols \<Longrightarrow>
   \<exists>j < length cols. column_from i cols name = int (i + j) \<and> ColumnName (cols ! j) = name"
proof (induction cols arbitrary: i)
  case (Cons col cols)
  show ?case
  proof (cases "ColumnName col = name")
    case False
    then obtain j where "j < length cols" "column_from (Suc i) cols name = int (Suc i + j)" "ColumnName (cols ! j) = name"
      using Cons.IH [of "Suc i"] Cons.prems by auto
    then show ?thesis
      using False by (intro exI [of _ "Suc j"]) simp
  qed (intro exI [of _ 0], simp)
qed simp

lemma filter_rows_holds:
  assumes "QueryType qc \<in> {''='', ''<'', ''<='', ''>'', ''>=''}" and "\<forall>row \<in> set rows. colPos < length row"
  shows "filter_rows colPos qc rows = Inr (filter (\<lambda>row. compares (QueryType qc) (row ! colPos) (qc_Value qc)) rows)"
  using assms
  by (induction rows) (auto simp: isQueryConditionApplicable_def compares_def)

lemma filterQueryConditions_satisfies:
  assumes "\<forall>qc \<in> set qcs. applicable schemas tableName qc"
    and "\<forall>row \<in> set rows. length row = length (ColumnDetails (schema_of schemas tableName))"
  shows "filterQueryConditions schemas tableName qcs covered rows =
    Inr (filter (\<lambda>row. \<forall>qc \<in> set qcs. qc_ColumnName qc \<in> set covered \<or> satisfies schemas tableName qc row) rows)"
  using assms
proof (induction qcs arbitrary: rows)
  case (Cons qc qcs)
  obtain j where j: "j < length (ColumnDetails (schema_of schemas tableName))"
    "getColPositionFromColName schemas tableName (qc_ColumnName qc) = int j"
    using column_from_found [of "qc_ColumnName qc" "ColumnDetails (schema_of schemas tableName)" 0] Cons.prems(1)
    by (auto simp: applicable_def getColPositionFromColName_def)
  show ?case
  proof (cases "qc_ColumnName qc \<in> set covered")
    case True
    then show ?thesis
      using Cons by simp
  next
    case False
    have "filter_rows j qc rows = Inr (filter (satisfies schemas tableName qc) rows)"
      using filter_rows_holds [of qc rows j] Cons.prems j
      by (simp add: applicable_def satisfies_def [abs_def])
    moreover have "\<forall>row \<in> set (filter (satisfies schemas tableName qc) rows).
        length row = length (ColumnDetails (schema_of schemas tableName))"
      using Cons.prems(2) by simp
    ultimately show ?thesis
      using Cons.IH Cons.prems(1) False j(2) by (simp add: conj_commute)
  qed
qed simp

text \<open>C18: A query that is answered by a scan returns exactly the rows of the table that satisfy all
  its conditions, each as often as the table holds it; values are compared as strings, numbers too.
  A query is answered by a scan when it is not a single equality on the primary key (which is a
  lookup, and panics for a row that is not there) and no index is applicable to it. The conditions
  of the statement: the table is known and its key position is the position of a column with a name;
  every condition names a column of the table and uses one of the supported operators; every stored
  row of the table is decoded to a value for every column; the memtable is well formed, and the
  indexes in memory are those of the files (no compaction since the start of the database).\<close>

theorem select_by_scan:
  assumes "btree_contract B" and "mt_inv B (memTable db)" and "sst_inv w (ssTable db) tabs" and "orders_ok ords"
    and "tableNameVsSchemaMap db (sel_TableName sel) = Some t"
    and "0 \<le> PrimaryKeyColumnPosition t" and "nat (PrimaryKeyColumnPosition t) < length (ColumnDetails t)"
    and "pkName = ColumnName (ColumnDetails t ! nat (PrimaryKeyColumnPosition t))" and "pkName \<noteq> ''''"
    and "\<not> isPointedPrimaryKeyQuery sel pkName"
    and "getSecondaryIndexForQueryIfApplicable sel (SecondaryIndexes t) = None"
    and "\<forall>qc \<in> set (QueryConditions sel). applicable (tableNameVsSchemaMap db) (sel_TableName sel) qc"
    and "ks = {k \<in> dom (db_map B db tabs). HasPrefix k (sel_TableName sel @ '':'')}"
    and "\<forall>k \<in> ks. deserializeRowValues (tableNameVsSchemaMap db) (sel_TableName sel) (the (db_map B db tabs k)) = Inr (row k)
      \<and> length (row k) = length (ColumnDetails t)"
  shows "\<exists>rows. selectFromTable B ords sel db w = Inr rows
    \<and> mset rows = {# r \<in># image_mset row (mset_set ks).
        \<forall>qc \<in> set (QueryConditions sel). satisfies (tableNameVsSchemaMap db) (sel_TableName sel) qc r #}"
proof -
  have read: "\<forall>k \<in> {k \<in> dom (db_map B db tabs). HasPrefix k (sel_TableName sel @ '':'')}.
      deserializeRowValues (tableNameVsSchemaMap db) (sel_TableName sel) (the (db_map B db tabs k)) = Inr (row k)"
    using assms(13,14) by blast
  obtain xs where xs: "fullTableScan B ords (sel_TableName sel) db w = Inr (map row xs)" "distinct xs" "set xs = ks"
    using fullTableScan_keys [OF assms(1-4) read] assms(13) by metis
  let ?ok = "\<lambda>r. \<forall>qc \<in> set (QueryConditions sel). satisfies (tableNameVsSchemaMap db) (sel_TableName sel) qc r"
  have schema: "schema_of (tableNameVsSchemaMap db) (sel_TableName sel) = t"
    using assms(5) by (simp add: schema_of_def)
  have "filterQueryConditions (tableNameVsSchemaMap db) (sel_TableName sel) (QueryConditions sel) [] (map row xs)
      = Inr (filter ?ok (map row xs))"
    using filterQueryConditions_satisfies [OF assms(12), of "map row xs" "[]"] assms(14) xs(3) schema by simp
  then have result: "selectFromTable B ords sel db w = Inr (filter ?ok (map row xs))"
    by (cases "QueryConditions sel = []")
       (simp_all add: selectFromTable_def Let_def isFullTableScanQuery_def runFullTableScanAndFilterConditions_def
        getQueryResultFromSecondaryIndexIfApplicable_def xs(1) assms(5-7,9-11) assms(8) [symmetric])
  have "mset (map row xs) = image_mset row (mset_set ks)"
    using mset_set_set [OF xs(2)] xs(3) by simp
  then have "mset (filter ?ok (map row xs)) = filter_mset ?ok (image_mset row (mset_set ks))"
    by (simp only: mset_filter)
  with result show ?thesis
    by blast
qed

abbreviation condition :: "string \<Rightarrow> string \<Rightarrow> string \<Rightarrow> QueryCondition" where
  "condition col operator v \<equiv> \<lparr>qc_ColumnName = col, QueryType = operator, qc_Value = v\<rparr>"

abbreviation query :: "QueryCondition list \<Rightarrow> SelectFromTable" where
  "query conds \<equiv> \<lparr>sel_TableName = ''users'', ColumnsRequired = [''*''], QueryConditions = conds\<rparr>"

lemma example_table_pk:
  "0 \<le> PrimaryKeyColumnPosition example_table"
  "nat (PrimaryKeyColumnPosition example_table) < length (ColumnDetails example_table)"
  "''id'' = ColumnName (ColumnDetails example_table ! nat (PrimaryKeyColumnPosition example_table))"
  by (simp_all add: example_table_def)

lemma ann_keys: "{''users:42''} = {k \<in> dom (db_map list_btree ann_db ann_table). HasPrefix k (''users'' @ '':'')}"
  by (auto simp: ann_db_facts(5) split: if_splits)

theorem select_by_scan_witness:
  "\<exists>rows. selectFromTable list_btree ordered_scans (query [condition ''id'' ''>'' ''100'']) ann_db ann_world = Inr rows
    \<and> mset rows = {# r \<in># image_mset (\<lambda>_. [''Ann'', ''42'', ''1'']) (mset_set {''users:42''}).
        \<forall>qc \<in> set [condition ''id'' ''>'' ''100'']. satisfies [''users'' \<mapsto> example_table] ''users'' qc r #}"
proof -
  let ?q = "query [condition ''id'' ''>'' ''100'']"
  have q: "tableNameVsSchemaMap ann_db (sel_TableName ?q) = Some example_table" "''id'' \<noteq> ''''"
    "\<not> isPointedPrimaryKeyQuery ?q ''id''"
    "getSecondaryIndexForQueryIfApplicable ?q (SecondaryIndexes example_table) = None"
    "\<forall>qc \<in> set (QueryConditions ?q). applicable (tableNameVsSchemaMap ann_db) (sel_TableName ?q) qc"
    "{''users:42''} = {k \<in> dom (db_map list_btree ann_db ann_table). HasPrefix k (sel_TableName ?q @ '':'')}"
    using ann_keys
    by (simp_all add: ann_db_facts(4) isPointedPrimaryKeyQuery_def getSecondaryIndexForQueryIfApplicable_def
        example_table_def applicable_def schema_of_def)
  have rows: "\<forall>k \<in> {''users:42''}. deserializeRowValues (tableNameVsSchemaMap ann_db) (sel_TableName ?q)
      (the (db_map list_btree ann_db ann_table k)) = Inr [''Ann'', ''42'', ''1'']
      \<and> length [''Ann'', ''42'', ''1''] = length (ColumnDetails example_table)"
    by (simp add: ann_db_facts(4,5) ann_read) (simp add: example_table_def)
  from select_by_scan [OF list_tree.btree_contract_axioms ann_db_facts(1-3) q(1) example_table_pk(1-3) q(2-6) rows]
  show ?thesis
    by (simp only: ann_db_facts(4) SelectFromTable.select_convs)
qed

subsection \<open>Which index a query uses\<close>

abbreviation in_query :: "QueryCondition list \<Rightarrow> string \<Rightarrow> bool" where
  "in_query qcs col \<equiv> \<exists>qc \<in> set qcs. qc_ColumnName qc = col"

definition covered_prefix :: "QueryCondition list \<Rightarrow> SecondaryIndex \<Rightarrow> string list" where
  "covered_prefix qcs idx = takeWhile (in_query qcs) (Columns idx)"

lemma index_cover_eq:
  assumes "Columns idx = covered @ cols" and "\<forall>c \<in> set covered. in_query qcs c"
  shows "index_cover qcs idx cols covered candidate =
    (if cols \<noteq> [] \<and> covered_prefix qcs idx = Columns idx then (True, Some (idx, Columns idx))
     else (False, if takeWhile (in_query qcs) cols = [] then candidate else Some (idx, covered_prefix qcs idx)))"
  using assms
proof (induction cols arbitrary: covered candidate)
  case (Cons c cols)
  have whole: "covered_prefix qcs idx = covered @ takeWhile (in_query qcs) (c # cols)"
    using Cons.prems by (simp add: covered_prefix_def)
  show ?case
  proof (cases "in_query qcs c")
    case True
    have "index_cover qcs idx cols (covered @ [c]) (Some (idx, covered @ [c])) =
      (if cols \<noteq> [] \<and> covered_prefix qcs idx = Columns idx then (True, Some (idx, Columns idx))
       else (False, if takeWhile (in_query qcs) cols = [] then Some (idx, covered @ [c]) else Some (idx, covered_prefix qcs idx)))"
      by (rule Cons.IH) (use Cons.prems True in auto)
    then show ?thesis
      using True whole Cons.prems(1) by (auto simp: Let_def)
  next
    case False
    then have "covered_prefix qcs idx \<noteq> Columns idx"
      using whole Cons.prems(1) by simp
    then show ?thesis
      using False by simp
  qed
qed simp

lemma choose_index_eq:
  "choose_index qcs idxs candidate =
    (case find (\<lambda>idx. Columns idx \<noteq> [] \<and> list_all (in_query qcs) (Columns idx)) idxs of
       Some idx \<Rightarrow> Some (idx, Columns idx)
     | None \<Rightarrow> (case filter (\<lambda>idx. covered_prefix qcs idx \<noteq> []) idxs of
         [] \<Rightarrow> candidate
       | some \<Rightarrow> Some (last some, covered_prefix qcs (last some))))"
proof (induction idxs arbitrary: candidate)
  case (Cons idx idxs)
  have "list_all (in_query qcs) (Columns idx) \<longleftrightarrow> covered_prefix qcs idx = Columns idx"
    by (auto simp: covered_prefix_def takeWhile_eq_all_conv list_all_iff)
  then show ?case
    using index_cover_eq [of idx "[]" "Columns idx" qcs candidate] Cons.IH
    by (auto simp: covered_prefix_def split: option.splits list.splits)
qed simp

text \<open>C22: The index of a query is the first one all of whose columns have a condition; without
  such an index it is the last one whose first column has a condition (not the one that covers
  most), with the longest covered prefix of its columns; without that there is none. Operators do
  not matter.\<close>

theorem index_choice:
  "getSecondaryIndexForQueryIfApplicable sel idxs =
    (case find (\<lambda>idx. Columns idx \<noteq> [] \<and> list_all (in_query (QueryConditions sel)) (Columns idx)) idxs of
       Some idx \<Rightarrow> Some (idx, Columns idx)
     | None \<Rightarrow> (case filter (\<lambda>idx. covered_prefix (QueryConditions sel) idx \<noteq> []) idxs of
         [] \<Rightarrow> None
       | some \<Rightarrow> Some (last some, covered_prefix (QueryConditions sel) (last some))))"
  unfolding getSecondaryIndexForQueryIfApplicable_def by (rule choose_index_eq)

subsection \<open>A query for a missing row\<close>

lemma read_row_empty:
  "\<exists>col \<in> set cols. known_type col \<Longrightarrow> \<exists>e. read_row cols '''' 0 acc = Inl e \<and> is_panic e"
  by (induction cols arbitrary: acc) (auto simp: read_field_def known_type_def)

text \<open>A query by primary key for a row that does not exist does not return an empty result or
  an error: the empty value of the missing key is decoded as a row, and the slice expression
  panics.\<close>

theorem select_missing_row_panics:
  assumes "tableNameVsSchemaMap db (sel_TableName sel) = Some t"
    and "0 \<le> PrimaryKeyColumnPosition t" and "nat (PrimaryKeyColumnPosition t) < length (ColumnDetails t)"
    and "pkName = ColumnName (ColumnDetails t ! nat (PrimaryKeyColumnPosition t))" and "pkName \<noteq> ''''"
    and "isPointedPrimaryKeyQuery sel pkName"
    and "DB_Get B (sel_TableName sel @ '':'' @ qc_Value (QueryConditions sel ! 0)) db w = Inr ''''"
    and "\<exists>col \<in> set (ColumnDetails t). known_type col"
  shows "\<exists>e. selectFromTable B ords sel db w = Inl e \<and> is_panic e"
proof -
  obtain e where "deserializeRowValues (tableNameVsSchemaMap db) (sel_TableName sel) '''' = Inl e" "is_panic e"
    using read_row_empty [OF assms(8), of "[]"] assms(1) by (auto simp: deserializeRowValues_def schema_of_def)
  then show ?thesis
    using assms(1-3,5-7) assms(4) [symmetric]
    by (simp add: selectFromTable_def Let_def getRowForPrimaryKey_def row_key_def)
qed

theorem select_missing_row_panics_witness:
  "\<exists>e. selectFromTable list_btree ordered_scans (query [condition ''id'' ''='' ''7''])
      (db_on list_btree ''w'' ''d'' []\<lparr>tableNameVsSchemaMap := [''users'' \<mapsto> example_table]\<rparr>)
      (world_on ''w'' ''d'' []) = Inl e \<and> is_panic e"
proof (rule select_missing_row_panics [OF _ example_table_pk(1-3)])
  show "DB_Get list_btree (sel_TableName (query [condition ''id'' ''='' ''7'']) @ '':''
      @ qc_Value (QueryConditions (query [condition ''id'' ''='' ''7'']) ! 0))
      (db_on list_btree ''w'' ''d'' []\<lparr>tableNameVsSchemaMap := [''users'' \<mapsto> example_table]\<rparr>)
      (world_on ''w'' ''d'' []) = Inr ''''"
    by (simp add: DB_Get_def db_on_def Memtable_Get_def NewMemtable_def list_btree_def SsTable_Get_def tables_state_def
        table_names_def)
  show "\<exists>col \<in> set (ColumnDetails example_table). known_type col"
    by (simp add: example_table_def known_type_def)
qed (simp_all add: isPointedPrimaryKeyQuery_def)

subsection \<open>Scans of an index\<close>

text \<open>The keys below \<open>index:\<close> are those of the entries \<open>E\<close>: table, index, values of the index
  columns, primary key.\<close>

definition index_contents ::
    "(string \<rightharpoonup> string) \<Rightarrow> (string \<times> string \<times> string list \<times> string) set \<Rightarrow> bool" where
  "index_contents m E \<longleftrightarrow>
     {k \<in> dom m. HasPrefix k ''index:''} = (\<lambda>(t, i, us, pk). getSecondaryIndexKeyOrPrefix t i us pk) ` E
     \<and> (\<forall>(t, i, us, pk) \<in> E. (\<forall>s \<in> set (t # i # us). colon_free s) \<and> colon_free pk \<and> pk \<noteq> '''')"

lemma pk_of_index_key:
  assumes "colon_free pk" and "pk \<noteq> ''''"
  shows "pk_of_key (getSecondaryIndexKeyOrPrefix t i us pk) = pk"
proof -
  have "getSecondaryIndexKeyOrPrefix t i us pk = (butlast (colon_join ([''index'', t, i] @ us))) @ CHR '':'' # pk"
  proof -
    have "colon_join (xs @ [x]) = butlast (colon_join (xs @ [x])) @ '':''" for xs x
      by (simp add: colon_join_def butlast_append)
    from this [of "butlast ([''index'', t, i] @ us)" "last ([''index'', t, i] @ us)"]
    show ?thesis
      using assms(2) by (simp add: index_key_parts append_butlast_last_id del: append.simps)
  qed
  then show ?thesis
    using assms(1) by (simp add: pk_of_key_def colon_free_def last_Split(1))
qed

lemma foldl_pk_set:
  "dom (foldl (\<lambda>pkSet key. pkSet(pk_of_key key \<mapsto> True)) m ks) = dom m \<union> pk_of_key ` set ks"
  by (induction ks arbitrary: m) auto

lemma index_scan_keys:
  assumes B: "btree_contract B" and mt: "mt_inv B (memTable db)" and st: "sst_inv w (ssTable db) tabs"
    and ords: "orders_ok ords"
  obtains pks where "secondaryIndexPrefixScan B ords p db w = Inr pks" and "distinct pks"
    and "set pks = pk_of_key ` {k \<in> dom (db_map B db tabs). HasPrefix k p}"
proof -
  define mm where "mm = mt_abs B (memTable db) |` {k. HasPrefix k p}"
  define sm where "sm = sst_map tabs |` {k. HasPrefix k p}"
  note keys = scan_keys [OF B mt ords mm_def sm_def]
  let ?put = "foldl (\<lambda>pkSet key. pkSet(pk_of_key key \<mapsto> True))"
  define pkSet where "pkSet = ?put (?put Map.empty (table_order ords sm)) (mem_order ords mm)"
  have scan: "secondaryIndexPrefixScan B ords p db w = Inr (pk_order ords pkSet)"
    by (simp add: secondaryIndexPrefixScan_def Let_def SsTable_PrefixScan_tables [OF st]
        btree_contract.PrefixScan_abs [OF B mt] mm_def sm_def pkSet_def)
  have dom: "dom pkSet = pk_of_key ` {k \<in> dom (db_map B db tabs). HasPrefix k p}"
  proof -
    have "dom pkSet = pk_of_key ` (dom sm \<union> dom mm)"
      by (simp add: pkSet_def foldl_pk_set keys(3,4) image_Un)
    moreover have "dom sm \<union> dom mm = {k \<in> dom (db_map B db tabs). HasPrefix k p}"
      by (auto simp: mm_def sm_def db_map_def restrict_map_def split: if_splits)
    ultimately show ?thesis
      by simp
  qed
  have "finite (dom pkSet)"
    by (simp add: pkSet_def foldl_pk_set)
  then have "range_order (pk_order ords pkSet) pkSet"
    using ords by (simp add: orders_ok_def)
  then show ?thesis
    using that [OF scan] dom by (simp add: range_order_def)
qed

lemma index_scan_entries:
  assumes "btree_contract B" and "mt_inv B (memTable db)" and "sst_inv w (ssTable db) tabs" and "orders_ok ords"
    and E: "index_contents (db_map B db tabs) E" and free: "\<forall>s \<in> set (tableName # indexName # vs). colon_free s"
  obtains pks where "secondaryIndexPrefixScan B ords (getSecondaryIndexKeyOrPrefix tableName indexName vs '''') db w = Inr pks"
    and "distinct pks" and "set pks = {pk. \<exists>us. (tableName, indexName, us, pk) \<in> E \<and> prefix vs us}"
proof -
  let ?p = "getSecondaryIndexKeyOrPrefix tableName indexName vs ''''"
  let ?key = "\<lambda>(t, i, us, pk). getSecondaryIndexKeyOrPrefix t i us pk"
  have colon_join_index: "HasPrefix (colon_join (''index'' # xs)) ''index:''" for xs
    by (simp add: colon_join_def)
  then have "HasPrefix ?p ''index:''"
    by (simp add: index_key_parts)
  then have "{k \<in> dom (db_map B db tabs). HasPrefix k ?p}
      = {k \<in> {k \<in> dom (db_map B db tabs). HasPrefix k ''index:''}. HasPrefix k ?p}"
    by (auto dest: prefix_order.trans)
  also have "\<dots> = {k \<in> ?key ` E. HasPrefix k ?p}"
    using E by (simp add: index_contents_def)
  also have "\<dots> = ?key ` {(t, i, us, pk) \<in> E. t = tableName \<and> i = indexName \<and> prefix vs us}"
  proof -
    have "HasPrefix (?key e) ?p \<longleftrightarrow> (case e of (t, i, us, pk) \<Rightarrow> t = tableName \<and> i = indexName \<and> prefix vs us)"
      if "e \<in> E" for e
    proof -
      obtain t i us pk where e: "e = (t, i, us, pk)"
        by (cases e)
      then have "\<forall>s \<in> set (t # i # us). colon_free s" "colon_free pk" "pk \<noteq> ''''"
        using E that by (auto simp: index_contents_def)
      from index_prefix_iff [OF free this] show ?thesis
        using e by auto
    qed
    then have "{e \<in> E. HasPrefix (?key e) ?p} = {(t, i, us, pk) \<in> E. t = tableName \<and> i = indexName \<and> prefix vs us}"
      by (auto split: prod.splits)
    moreover have "{k \<in> ?key ` E. HasPrefix k ?p} = ?key ` {e \<in> E. HasPrefix (?key e) ?p}"
      by blast
    ultimately show ?thesis
      by (simp only:)
  qed
  finally have keys: "{k \<in> dom (db_map B db tabs). HasPrefix k ?p}
      = ?key ` {(t, i, us, pk) \<in> E. t = tableName \<and> i = indexName \<and> prefix vs us}" .
  have "pk_of_key (?key e) = snd (snd (snd e))" if "e \<in> E" for e
    using that E pk_of_index_key by (auto simp: index_contents_def split: prod.splits)
  then have "pk_of_key ` {k \<in> dom (db_map B db tabs). HasPrefix k ?p}
      = (\<lambda>e. snd (snd (snd e))) ` {(t, i, us, pk) \<in> E. t = tableName \<and> i = indexName \<and> prefix vs us}"
    unfolding keys image_image by (intro image_cong) auto
  also have "\<dots> = {pk. \<exists>us. (tableName, indexName, us, pk) \<in> E \<and> prefix vs us}"
    by force
  finally show ?thesis
    using index_scan_keys [OF assms(1-4), of ?p] that by metis
qed

lemma rows_for_keys_cases:
  "case rows_for_keys B tableName pks db w of
     Inl e \<Rightarrow> \<exists>pk \<in> set pks. getRowForPrimaryKey B tableName pk db w = Inl e
   | Inr rows \<Rightarrow> list_all2 (\<lambda>pk r. getRowForPrimaryKey B tableName pk db w = Inr r) pks rows"
  by (induction pks) (auto simp: then_ok_def split: sum.splits)

lemma image_mset_found:
  assumes "list_all2 (\<lambda>x r. f x = Inr r) xs rows" and "distinct xs"
  shows "\<exists>row. (\<forall>x \<in> set xs. f x = Inr (row x)) \<and> mset rows = image_mset row (mset_set (set xs))"
proof (intro exI conjI)
  show "\<forall>x \<in> set xs. f x = Inr (projr (f x))"
    using assms(1) by (auto simp: list_all2_conv_all_nth in_set_conv_nth)
  have "rows = map (\<lambda>x. projr (f x)) xs"
    using assms(1) by induction simp_all
  then show "mset rows = image_mset (\<lambda>x. projr (f x)) (mset_set (set xs))"
    using mset_set_set [OF assms(2)] by simp
qed

lemma selectFromTable_index:
  assumes "tableNameVsSchemaMap db (sel_TableName sel) = Some t"
    and "0 \<le> PrimaryKeyColumnPosition t" and "nat (PrimaryKeyColumnPosition t) < length (ColumnDetails t)"
    and "pkName = ColumnName (ColumnDetails t ! nat (PrimaryKeyColumnPosition t))" and "pkName \<noteq> ''''"
    and "\<not> isPointedPrimaryKeyQuery sel pkName" and "QueryConditions sel \<noteq> []"
  shows "selectFromTable B ords sel db w =
    getQueryResultFromSecondaryIndexIfApplicable B ords (sel_TableName sel) sel t db w"
  using assms(1-3,5-7)
  by (simp add: selectFromTable_def Let_def isFullTableScanQuery_def assms(4) [symmetric])

text \<open>C20: A query whose conditions cover an index reads the rows of exactly those primary keys that
  have an entry in that index whose column values begin with the values of the query, in the order
  in which the query lists them; the operators and the column names of the conditions are not looked
  at. When all these rows can be read, the answer has one row for every such key. When it is an
  error, it is the error of reading one of these rows (a lookup can fail although the row is there,
  see the lookups in the tables), and no rows are returned. The conditions: the query is not an
  equality on the primary key alone, the table has a primary-key column with a name, the keys
  beginning with \<open>index:\<close> are entries of indexes whose names and values have no colon, nor have those
  of the query, and the offsets in memory are those of the files (no compaction since the start).\<close>

theorem select_by_index:
  assumes "btree_contract B" and "mt_inv B (memTable db)" and "sst_inv w (ssTable db) tabs" and "orders_ok ords"
    and "tableNameVsSchemaMap db (sel_TableName sel) = Some t"
    and "0 \<le> PrimaryKeyColumnPosition t" and "nat (PrimaryKeyColumnPosition t) < length (ColumnDetails t)"
    and "pkName = ColumnName (ColumnDetails t ! nat (PrimaryKeyColumnPosition t))" and "pkName \<noteq> ''''"
    and "\<not> isPointedPrimaryKeyQuery sel pkName" and "QueryConditions sel \<noteq> []"
    and "getSecondaryIndexForQueryIfApplicable sel (SecondaryIndexes t) = Some (idx, Columns idx)"
    and "index_contents (db_map B db tabs) E"
    and "\<forall>s \<in> set (sel_TableName sel # IndexName idx # map qc_Value (QueryConditions sel)). colon_free s"
    and "pks = {pk. \<exists>us. (sel_TableName sel, IndexName idx, us, pk) \<in> E
      \<and> prefix (map qc_Value (QueryConditions sel)) us}"
  shows "case selectFromTable B ords sel db w of
      Inl e \<Rightarrow> \<exists>pk \<in> pks. getRowForPrimaryKey B (sel_TableName sel) pk db w = Inl e
    | Inr rows \<Rightarrow> \<exists>row. (\<forall>pk \<in> pks. getRowForPrimaryKey B (sel_TableName sel) pk db w = Inr (row pk))
        \<and> mset rows = image_mset row (mset_set pks)"
proof -
  obtain xs where xs: "secondaryIndexPrefixScan B ords (getSecondaryIndexKeyOrPrefix (sel_TableName sel) (IndexName idx)
      (map qc_Value (QueryConditions sel)) '''') db w = Inr xs" "distinct xs" "set xs = pks"
    by (rule index_scan_entries [OF assms(1-4,13,14), folded assms(15)])
  have "selectFromTable B ords sel db w = rows_for_keys B (sel_TableName sel) xs db w"
    using selectFromTable_index [OF assms(5-11), of B ords w] xs(1) assms(12)
    by (simp add: getQueryResultFromSecondaryIndexIfApplicable_def allColumnsCoveredBySecondaryIndex_def Let_def
        then_ok_def split: sum.splits)
  then show ?thesis
    using rows_for_keys_cases [where B = B and tableName = "sel_TableName sel" and pks = xs and db = db and w = w]
      image_mset_found [OF _ xs(2)]
    by (simp add: xs(3) split: sum.splits)
qed

abbreviation ann_entries_set :: "(string \<times> string \<times> string list \<times> string) set" where
  "ann_entries_set \<equiv> {(''users'', ''byok'', [''1'', ''Ann''], ''42'')}"

lemma ann_index_contents: "index_contents (db_map list_btree ann_db ann_table) ann_entries_set"
proof -
  have "{k \<in> dom (db_map list_btree ann_db ann_table). HasPrefix k ''index:''} = {''index:users:byok:1:Ann:42''}"
    by (auto simp: ann_db_facts(5) split: if_splits)
  then show ?thesis
    by (simp add: index_contents_def colon_free_def getSecondaryIndexKeyOrPrefix_def)
qed

lemma ann_row: "getRowForPrimaryKey list_btree ''users'' ''42'' ann_db ann_world = Inr [''Ann'', ''42'', ''1'']"
proof -
  have "mt_abs list_btree (memTable ann_db) = Map.empty"
    by (simp add: ann_db_def mt_abs_def Iterate_def NewMemtable_def list_btree_def)
  then have "DB_Get list_btree (row_key ''users'' ''42'') ann_db ann_world = Inr ann_value"
    using DB_Get_tables [OF list_tree.btree_contract_axioms ann_db_facts(1,2)]
    by (simp add: row_key_def ann_table_def file_get_def less_list_code ann_value_def)
  then show ?thesis
    by (simp add: getRowForPrimaryKey_def ann_db_facts(4) ann_read)
qed

abbreviation full_query :: SelectFromTable where
  "full_query \<equiv> query [condition ''ok'' ''='' ''1'', condition ''name'' ''='' ''Ann'']"

theorem select_by_index_witness:
  "\<exists>rows. selectFromTable list_btree ordered_scans full_query ann_db ann_world = Inr rows
    \<and> mset rows = image_mset (\<lambda>_. [''Ann'', ''42'', ''1'']) (mset_set {''42''})"
proof -
  have "case selectFromTable list_btree ordered_scans full_query ann_db ann_world of
      Inl e \<Rightarrow> \<exists>pk \<in> {''42''}. getRowForPrimaryKey list_btree (sel_TableName full_query) pk ann_db ann_world = Inl e
    | Inr rows \<Rightarrow> \<exists>row.
        (\<forall>pk \<in> {''42''}. getRowForPrimaryKey list_btree (sel_TableName full_query) pk ann_db ann_world = Inr (row pk))
        \<and> mset rows = image_mset row (mset_set {''42''})"
    by (rule select_by_index [OF list_tree.btree_contract_axioms ann_db_facts(1-3) _ example_table_pk(1-3) _ _ _ _
          ann_index_contents, of _ "\<lparr>Columns = [''ok'', ''name''], IndexName = ''byok''\<rparr>"])
       (simp_all add: ann_db_facts(4) isPointedPrimaryKeyQuery_def colon_free_def example_table_def
          getSecondaryIndexForQueryIfApplicable_def Let_def)
  then show ?thesis
    by (auto simp: ann_row split: sum.splits)
qed

text \<open>C21: A query that uses an index and has more conditions than the index has columns finds
  nothing, whatever rows the table holds: the prefix that is looked up contains the values of all
  conditions, so no entry of the index begins with it. Without the index the same query would be
  answered by a scan.\<close>

theorem select_index_misses:
  assumes "btree_contract B" and "mt_inv B (memTable db)" and "sst_inv w (ssTable db) tabs" and "orders_ok ords"
    and "tableNameVsSchemaMap db (sel_TableName sel) = Some t"
    and "0 \<le> PrimaryKeyColumnPosition t" and "nat (PrimaryKeyColumnPosition t) < length (ColumnDetails t)"
    and "pkName = ColumnName (ColumnDetails t ! nat (PrimaryKeyColumnPosition t))" and "pkName \<noteq> ''''"
    and "\<not> isPointedPrimaryKeyQuery sel pkName"
    and "getSecondaryIndexForQueryIfApplicable sel (SecondaryIndexes t) = Some (idx, covered)"
    and "index_contents (db_map B db tabs) E"
    and "\<forall>s \<in> set (sel_TableName sel # IndexName idx # map qc_Value (QueryConditions sel)). colon_free s"
    and "\<forall>(t, i, us, pk) \<in> E. t = sel_TableName sel \<longrightarrow> i = IndexName idx \<longrightarrow> length us = length (Columns idx)"
    and "length (Columns idx) < length (QueryConditions sel)"
    and "\<forall>qc \<in> set (QueryConditions sel). applicable (tableNameVsSchemaMap db) (sel_TableName sel) qc"
  shows "selectFromTable B ords sel db w = Inr []"
proof -
  obtain xs where xs: "secondaryIndexPrefixScan B ords (getSecondaryIndexKeyOrPrefix (sel_TableName sel) (IndexName idx)
      (map qc_Value (QueryConditions sel)) '''') db w = Inr xs" "distinct xs"
    "set xs = {pk. \<exists>us. (sel_TableName sel, IndexName idx, us, pk) \<in> E \<and> prefix (map qc_Value (QueryConditions sel)) us}"
    by (rule index_scan_entries [OF assms(1-4,12,13)])
  have "xs = []"
  proof (rule ccontr)
    assume "xs \<noteq> []"
    then have "hd xs \<in> set xs"
      by simp
    then obtain us where "(sel_TableName sel, IndexName idx, us, hd xs) \<in> E" "prefix (map qc_Value (QueryConditions sel)) us"
      unfolding xs(3) by blast
    then have "length us = length (Columns idx)" "length (QueryConditions sel) \<le> length us"
      using assms(14) prefix_length_le by fastforce+
    then show False
      using assms(15) by simp
  qed
  have "QueryConditions sel \<noteq> []"
    using assms(15) by auto
  note query = selectFromTable_index [OF assms(5-10) this, of B ords w]
  show ?thesis
    using query xs(1) \<open>xs = []\<close> assms(11)
      filterQueryConditions_satisfies [OF assms(16), of "[]" covered]
    by (simp add: getQueryResultFromSecondaryIndexIfApplicable_def Let_def)
qed

theorem select_index_misses_witness:
  "selectFromTable list_btree ordered_scans
     (query [condition ''ok'' ''='' ''1'', condition ''name'' ''='' ''Ann'', condition ''id'' ''>'' ''100''])
     ann_db ann_world = Inr []"
  by (rule select_index_misses [OF list_tree.btree_contract_axioms ann_db_facts(1-3) _ example_table_pk(1-3) _ _ _
        ann_index_contents, of _ "\<lparr>Columns = [''ok'', ''name''], IndexName = ''byok''\<rparr>" "[''ok'', ''name'']"])
     (simp_all add: ann_db_facts(4) isPointedPrimaryKeyQuery_def colon_free_def example_table_def
        getSecondaryIndexForQueryIfApplicable_def Let_def applicable_def schema_of_def)

subsection \<open>Insert, then read\<close>

lemma index_entry_prefix:
  assumes "index_entries schemas inp kvs" and "(k, v) \<in> set kvs"
  shows "HasPrefix k ''index:''"
proof -
  obtain idx where "index_entry schemas inp idx = Inr (k, v)"
    using assms by (auto simp: index_entries_def list_all2_conv_all_nth in_set_conv_nth)
  then show ?thesis
    by (cases "getIndexAndPrimaryKeyColumnValuesInIndexSequence schemas (Columns idx) inp")
      (auto simp: index_entry_def index_key_parts colon_join_def split: if_splits)
qed

lemma not_index_prefix:
  assumes "HasPrefix k ''index:''" and "colon_free tableName" and "tableName \<noteq> ''index''"
  shows "\<not> HasPrefix k (tableName @ '':'')"
proof
  assume "HasPrefix k (tableName @ '':'')"
  moreover obtain r where "k = ''index'' @ CHR '':'' # r"
    using assms(1) by (auto simp: prefix_def)
  moreover have "colon_free ''index''"
    by (simp add: colon_free_def)
  ultimately show False
    using prefix_colon [of tableName "''index''" "[]" r] assms(2,3) by simp
qed

text \<open>C17: A row that was inserted is seen by the next full scan, exactly once and with its values,
  in place of the old row with the same primary key and beside all other rows; this holds also when
  the insert flushed the memtable. The conditions: the database is in a state of its invariant, the
  indexes in memory are those of the files (no compaction since the start), and no transaction holds
  a lock; the values are those that a row gives back as written (\<open>canonical\<close>: an INT from 0 to
  \<open>2 ^ 32 - 1\<close> in plain decimals, a BOOL \<open>0\<close> or \<open>1\<close>, any string); the name of the table has no colon
  and is not \<open>index\<close> (then the scan would read index entries as rows); every index of the table has
  an entry for the row; the rows already stored can be decoded; the row is below the 32-bit limit and
  the record of the commit within 1,000,000 bytes.\<close>

theorem insert_then_scan:
  assumes "btree_contract B" and "db_inv B w db tabs" and "indexed (ssTable db) tabs" and "orders_ok ords"
    and "nextTransactionId (txnManager db) \<noteq> 0" and "\<forall>k. locks_of (txnManager db) k = no_locks"
    and "tableNameVsSchemaMap db tableName = Some t" and "list_all2 canonical (ColumnDetails t) vs"
    and "colon_free tableName" and "tableName \<noteq> ''index''"
    and "key = tableName @ '':'' @ primary_key_value t vs"
    and "row_fields (ColumnDetails t) vs [] = Inr buf" and "fits32 (length buf)"
    and "index_entries (tableNameVsSchemaMap db) \<lparr>ins_TableName = tableName, ColumnValues = vs\<rparr> kvs"
    and "range_order ord1 (map_of (rev ((key, buf) # kvs)))" and "range_order ord2 (map_of (rev ((key, buf) # kvs)))"
    and "length (serialiseTransactionCommitPayload ord1 (map_of (rev ((key, buf) # kvs)))) \<le> 1000000"
    and "ks = {k \<in> dom (db_map B db tabs). HasPrefix k (tableName @ '':'')}"
    and "\<forall>k \<in> ks. deserializeRowValues (tableNameVsSchemaMap db) tableName (the (db_map B db tabs k)) = Inr (row k)"
  shows "\<exists>db' w' rows. insertIntoTable B ord1 ord2 \<lparr>ins_TableName = tableName, ColumnValues = vs\<rparr> db w = (Inr (), db', w')
    \<and> fullTableScan B ords tableName db' w' = Inr rows
    \<and> mset rows = add_mset vs (image_mset row (mset_set (ks - {key})))"
proof -
  let ?inp = "\<lparr>ins_TableName = tableName, ColumnValues = vs\<rparr>" and ?writes = "map_of (rev ((key, buf) # kvs))"
  have schema: "schema_of (tableNameVsSchemaMap db) tableName = t"
    using assms(7) by (simp add: schema_of_def)
  have ser: "serialiseInsertIntoTableInput (tableNameVsSchemaMap db) ?inp = Inr (key, buf)"
    using assms(11,12) schema by (simp add: serialiseInsertIntoTableInput_def row_key_def)
  have len: "length (ColumnValues ?inp) = length (ColumnDetails (schema_of (tableNameVsSchemaMap db) (ins_TableName ?inp)))"
    using list_all2_lengthD [OF assms(8)] schema by simp
  obtain db' w' tabs' where ins: "insertIntoTable B ord1 ord2 ?inp db w = (Inr (), db', w')"
    "db_inv B w' db' tabs'" "db_map B db' tabs' = db_map B db tabs ++ ?writes"
    "tableNameVsSchemaMap db' = tableNameVsSchemaMap db" "indexed (ssTable db') tabs'"
    by (rule insertIntoTable_calm [OF assms(1,2,5) len ser assms(14) _ _ _ assms(15,16,17), of "[(key, buf)]"])
       (use assms(3,6) in auto)
  have other: "k \<notin> fst ` set kvs" if "HasPrefix k (tableName @ '':'')" for k
    using index_entry_prefix [OF assms(14)] not_index_prefix [OF _ assms(9,10)] that by force
  have key: "HasPrefix key (tableName @ '':'')"
    using assms(11) by simp
  have writes: "?writes k = (if k = key then Some buf else None)" if "HasPrefix k (tableName @ '':'')" for k
  proof -
    have "map_of (rev kvs) k = None"
      using other [OF that] by (simp add: map_of_eq_None_iff)
    then show ?thesis
      by (simp add: map_add_def)
  qed
  let ?row = "\<lambda>k. if k = key then vs else row k"
  let ?ks = "{k \<in> dom (db_map B db' tabs'). HasPrefix k (tableName @ '':'')}"
  have cell: "db_map B db' tabs' k = (if k = key then Some buf else db_map B db tabs k)"
    if "HasPrefix k (tableName @ '':'')" for k
    unfolding ins(3) map_add_def writes [OF that] by simp
  have "k \<in> ?ks \<longleftrightarrow> k \<in> insert key ks" for k
    using cell [of k] key assms(18) by (cases "HasPrefix k (tableName @ '':'')") auto
  then have ks: "?ks = insert key ks"
    by blast
  have read: "\<forall>k \<in> ?ks. deserializeRowValues (tableNameVsSchemaMap db') tableName (the (db_map B db' tabs' k)) = Inr (?row k)"
  proof
    fix k assume k: "k \<in> ?ks"
    show "deserializeRowValues (tableNameVsSchemaMap db') tableName (the (db_map B db' tabs' k)) = Inr (?row k)"
    proof (cases "k = key")
      case True
      then show ?thesis
        using row_read_back [where schemas = "tableNameVsSchemaMap db", OF assms(7,8,12,13)] cell [OF key] by (simp add: ins(4))
    next
      case False
      then have "k \<in> ks" "db_map B db' tabs' k = db_map B db tabs k"
        using k ks cell [of k] by auto
      then show ?thesis
        using assms(19) False by (simp add: ins(4))
    qed
  qed
  have st: "sst_inv w' (ssTable db') tabs'"
    using db_invD(1) [OF ins(2)] ins(5) by (simp add: sst_inv_def)
  obtain xs where xs: "fullTableScan B ords tableName db' w' = Inr (map ?row xs)" "distinct xs" "set xs = ?ks"
    by (rule fullTableScan_keys [OF assms(1) db_invD(3) [OF ins(2)] st assms(4) read])
  have "finite ks"
    using finite_set [of xs] xs(3) ks by simp
  have "mset (map ?row xs) = image_mset ?row (mset_set (insert key (ks - {key})))"
    using mset_set_set [OF xs(2)] xs(3) ks by simp
  also have "\<dots> = add_mset vs (image_mset ?row (mset_set (ks - {key})))"
    using \<open>finite ks\<close> by (subst mset_set.insert) simp_all
  also have "image_mset ?row (mset_set (ks - {key})) = image_mset row (mset_set (ks - {key}))"
    using \<open>finite ks\<close> by (intro image_mset_cong) auto
  finally show ?thesis
    using ins(1) xs(1) by blast
qed

theorem insert_then_scan_witness:
  "\<exists>db' w' rows. insertIntoTable list_btree [''users:42'', ''index:users:byok:1:Ann:42'']
      [''index:users:byok:1:Ann:42'', ''users:42''] ann users_db (world_on ''w'' ''d'' one_table) = (Inr (), db', w')
    \<and> fullTableScan list_btree ordered_scans ''users'' db' w' = Inr rows
    \<and> mset rows = {# [''Ann'', ''42'', ''1''] #}"
proof -
  have fields: "row_fields (ColumnDetails example_table) [''Ann'', ''42'', ''1''] [] = Inr ann_value"
    using ann_serialised by (auto simp: serialiseInsertIntoTableInput_def schema_of_def split: sum.splits)
  have key: "''users:42'' = ''users'' @ '':'' @ primary_key_value example_table [''Ann'', ''42'', ''1'']"
    by (simp add: primary_key_value_def example_table_def)
  have ix: "indexed (ssTable users_db) one_table"
    using list_db_inv(2) [OF one_table_ok] by (simp add: users_db_def)
  have none: "{} = {k \<in> dom (db_map list_btree users_db one_table). HasPrefix k (''users'' @ '':'')}"
    by (auto simp: db_map_def users_db_def mt_abs_def Iterate_def NewMemtable_def list_btree_def one_table_def
        sst_map_def split: if_splits)
  have small: "fits32 (length ann_value)" "colon_free ''users''"
    by (simp_all add: ann_value_def colon_free_def)
  have entries: "index_entries (tableNameVsSchemaMap users_db) ann [(''index:users:byok:1:Ann:42'', '''')]"
    by (simp add: ann_entries)
  from insert_then_scan [OF list_tree.btree_contract_axioms users_db_inv ix ann_db_facts(3) _ _ _ example_row
      small(2) _ key fields small(1) entries ann_writes none, of "\<lambda>_. []"]
  show ?thesis
    by (simp add: locks_of_def)
qed

end
