(* ===== verification/Cli.thy ===== *)
theory Cli
  imports Sql_Tables
begin

text \<open>
  \<^verbatim>\<open>main.go\<close>: the loop over the lines of standard input. A line is what the scanner delivers,
  together with the two orders in which Go ranges over maps while the line is handled; the output is
  the list of the printed lines. \<open>os\<close> is the text of an error of the operating system. \<open>None\<close> means
  that a line is never answered (the parser loops), \<open>Inl\<close> that the program panics.
\<close>

text \<open>\<open>strings.SplitN(s, sep, n)\<close> for a separator of one character and positive \<open>n\<close>.\<close>

fun SplitN :: "string \<Rightarrow> char \<Rightarrow> nat \<Rightarrow> string list" where
  "SplitN s sep 0 = []"
| "SplitN s sep (Suc n) =
     (if n = 0 \<or> sep \<notin> set s then [s]
      else takeWhile (\<lambda>c. c \<noteq> sep) s # SplitN (tl (dropWhile (\<lambda>c. c \<noteq> sep) s)) sep n)"

fun error_text :: "string \<Rightarrow> goerr \<Rightarrow> string" where
  "error_text os EOF = ''EOF''"
| "error_text os (Errorf s) = s"
| "error_text os SysErr = os"
| "error_text os (Panic s) = s"

definition CommandNotSupported :: string where
  "CommandNotSupported = ''Command Not Supported''"

definition in_quotes :: "string \<Rightarrow> string" where
  "in_quotes s = [CHR 0x27] @ s @ [CHR 0x27]"

definition cmdGet :: "'t btree \<Rightarrow> string \<Rightarrow> string list \<Rightarrow> 't DB \<Rightarrow> world \<Rightarrow> goerr + string" where
  "cmdGet B os args db w =
     (if length args \<noteq> 2 then Inl (Errorf (''Expected exactly 1 argument for GET command'' @ [CHR 0x0A]))
      else let key = args ! 1 in
        case DB_Get B key db w of
          Inl e \<Rightarrow> if is_panic e then Inl e
            else Inl (Errorf (''No value found for GET '' @ key @ ''. Error: '' @ error_text os e))
        | Inr val \<Rightarrow> if val = '''' then Inl (Errorf (''No value found for GET '' @ key)) else Inr val)"

definition cmdPut ::
    "'t btree \<Rightarrow> string \<Rightarrow> string list \<Rightarrow> 't DB \<Rightarrow> world \<Rightarrow> (goerr + unit) \<times> 't DB \<times> world" where
  "cmdPut B os args db w =
     (if length args \<noteq> 3 then (Inl (Errorf (''Expected exactly 2 arguments for PUT command'' @ [CHR 0x0A])), db, w)
      else (case DB_Put B (args ! 1) (args ! 2) db w of
          (Inl e, db', w') \<Rightarrow>
            (if is_panic e then Inl e else Inl (Errorf (''Something went wrong: '' @ error_text os e)), db', w')
        | (Inr _, db', w') \<Rightarrow> (Inr (), db', w')))"

definition cmdCreateTable ::
    "'t btree \<Rightarrow> string list \<Rightarrow> string \<Rightarrow> 't DB \<Rightarrow> world \<Rightarrow> (goerr + unit) \<times> 't DB \<times> world" where
  "cmdCreateTable B ord line db w = DB_CreateTable B ord line db w"

definition cmdInsertIntoTable ::
    "'t btree \<Rightarrow> string list \<Rightarrow> string list \<Rightarrow> string \<Rightarrow> 't DB \<Rightarrow> world
       \<Rightarrow> ((goerr + unit) \<times> 't DB \<times> world) option" where
  "cmdInsertIntoTable B ord1 ord2 line db w = DB_InsertIntoTable B ord1 ord2 line db w"

definition cmdSelectFromTable :: "string \<Rightarrow> goerr + unit" where
  "cmdSelectFromTable line = Inl (Errorf ''yet to be implemented'')"

text \<open>What is printed for the outcome of a command; a panic is passed on.\<close>

definition report :: "string \<Rightarrow> string \<Rightarrow> string \<Rightarrow> goerr + 'a \<Rightarrow> goerr + string" where
  "report os failure success r =
     (case r of
        Inl e \<Rightarrow> if is_panic e then Inl e else Inr (failure @ in_quotes (error_text os e))
      | Inr _ \<Rightarrow> Inr success)"

text \<open>One line; the flag says that the loop ends.\<close>

definition run_line ::
    "'t btree \<Rightarrow> string \<Rightarrow> string \<times> string list \<times> string list \<Rightarrow> 't DB \<Rightarrow> world
       \<Rightarrow> ((goerr + string list) \<times> bool \<times> 't DB \<times> world) option" where
  "run_line B os input db w =
     (case input of (line, ord1, ord2) \<Rightarrow>
      let args = SplitN line (CHR '' '') 3; cmd = args ! 0;
          printed = map_sum id (\<lambda>s. [s]) in
      if cmd = ''GET'' then
        (let r = cmdGet B os args db w;
             success = ''GET '' @ args ! 1 @ '' returned: '' @ (case r of Inr v \<Rightarrow> v | Inl _ \<Rightarrow> '''') in
         Some (printed (report os ''Error while performing GET operation: '' success r), False, db, w))
      else if cmd = ''PUT'' then
        (case cmdPut B os args db w of (r, db', w') \<Rightarrow>
           Some (printed (report os ''Error while performing PUT operation: ''
                   ''PUT operation performed successfully'' r), False, db', w'))
      else if cmd = ''CREATE'' then
        if length args > 1 \<and> args ! 1 = ''TABLE'' then
          (case cmdCreateTable B ord1 line db w of (r, db', w') \<Rightarrow>
             Some (printed (report os ''Error while running CREATE TABLE command: ''
                     ''CREATE TABLE performed successfully'' r), False, db', w'))
        else Some (Inr [CommandNotSupported], False, db, w)
      else if cmd = ''INSERT'' then
        map_option (\<lambda>(r, db', w'). (printed (report os ''Error while running INSERT INTO command: ''
            ''INSERT INTO performed successfully'' r), False, db', w'))
          (cmdInsertIntoTable B ord1 ord2 line db w)
      else if cmd = ''SELECT'' then
        if length args > 1 \<and> args ! 1 = ''TABLE'' then
          Some (printed (report os ''Error while running SELECT FROM command: ''
                  ''SELECT performed successfully'' (cmdSelectFromTable line)), False, db, w)
        else Some (Inr [CommandNotSupported], False, db, w)
      else if cmd = ''EXIT'' then Some (Inr [], True, db, w)
      else Some (Inr [CommandNotSupported], False, db, w))"

text \<open>The loop, with the lines printed so far.\<close>

fun main_loop ::
    "'t btree \<Rightarrow> string \<Rightarrow> (string \<times> string list \<times> string list) list \<Rightarrow> string list \<Rightarrow> 't DB \<Rightarrow> world
       \<Rightarrow> ((goerr + string list) \<times> 't DB \<times> world) option" where
  "main_loop B os [] out db w = Some (Inr out, db, w)"
| "main_loop B os (input # inputs) out db w =
     (case run_line B os input db w of
        None \<Rightarrow> None
      | Some (Inl e, _, db', w') \<Rightarrow> Some (Inl e, db', w')
      | Some (Inr printed, breakLoop, db', w') \<Rightarrow>
          if breakLoop then Some (Inr (out @ printed), db', w')
          else main_loop B os inputs (out @ printed) db' w')"

text \<open>\<open>main\<close>: the database is opened with an empty configuration; without it the program ends.\<close>

definition main_program ::
    "'t btree \<Rightarrow> string \<Rightarrow> (string \<times> string list \<times> string list) list \<Rightarrow> world
       \<Rightarrow> ((goerr + string list) \<times> world) option" where
  "main_program B os inputs w =
     (case NewDB B \<lparr>SsTableConfig = \<lparr>DataFilesDirectory = '''', BlockLength = 0\<rparr>, WalFilePath = ''''\<rparr> w of
        (Inl e, w') \<Rightarrow>
          Some (if is_panic e then Inl e else Inr [''Error while setting up DB: '' @ error_text os e], w')
      | (Inr db, w') \<Rightarrow> map_option (\<lambda>(r, _, w''). (r, w'')) (main_loop B os inputs [] db w'))"

subsection \<open>Properties\<close>

lemma SplitN_word: "sep \<notin> set a \<Longrightarrow> SplitN (a @ sep # s) sep (Suc (Suc n)) = a # SplitN s sep (Suc n)"
  by (simp add: takeWhile_append dropWhile_append)

lemma SplitN_last: "sep \<notin> set a \<Longrightarrow> SplitN a sep (Suc n) = [a]"
  by simp

lemma main_loop_next:
  "run_line B os input db w = Some (Inr printed, False, db', w') \<Longrightarrow>
   main_loop B os (input # inputs) out db w = main_loop B os inputs (out @ printed) db' w'"
  by simp

lemma main_loop_exit:
  "run_line B os input db w = Some (Inr printed, True, db', w') \<Longrightarrow>
   main_loop B os (input # inputs) out db w = Some (Inr (out @ printed), db', w')"
  by simp

text \<open>C26: A session that puts a value and gets it again prints the value: for every nonempty key without a
  space and every nonempty value, with spaces or not, when key and value together have at most
  999,985 bytes. The database is in a state of its invariant whose indexes
  in memory are those of the files, which is so from the start until a compaction replaces files
  (after one, a get of a key that was flushed can fail).\<close>

theorem put_get_session:
  assumes "btree_contract B" and "db_inv B w db tabs" and "indexed (ssTable db) tabs"
    and "key \<noteq> ''''" and "CHR '' '' \<notin> set key" and "val \<noteq> ''''" and "length key + length val \<le> 999985"
  shows "\<exists>db' w'. main_loop B os [(''PUT '' @ key @ '' '' @ val, o1, o2), (''GET '' @ key, o3, o4), (''EXIT'', o5, o6)]
      [] db w = Some (Inr [''PUT operation performed successfully'', ''GET '' @ key @ '' returned: '' @ val], db', w')"
proof -
  obtain db' w' where put: "DB_Put B key val db w = (Inr (), db', w')" and get: "DB_Get B key db' w' = Inr val"
    using db_get_after_put [OF assms(1-4,7,6)] by blast
  have "SplitN (''PUT'' @ CHR '' '' # (key @ CHR '' '' # val)) (CHR '' '') 3 = [''PUT'', key, val]"
    using assms(5) SplitN_word [of "CHR '' ''" "''PUT''" "key @ CHR '' '' # val" 1] SplitN_word [of "CHR '' ''" key val 0]
    by (simp add: numeral_3_eq_3 del: SplitN.simps) simp
  then have put_args: "SplitN (''PUT '' @ key @ '' '' @ val) (CHR '' '') 3 = [''PUT'', key, val]"
    by (simp del: SplitN.simps)
  have "SplitN (''GET'' @ CHR '' '' # key) (CHR '' '') 3 = [''GET'', key]"
    using assms(5) SplitN_word [of "CHR '' ''" "''GET''" key 1] SplitN_last [of "CHR '' ''" key 1]
    by (simp add: numeral_3_eq_3 del: SplitN.simps)
  then have get_args: "SplitN (''GET '' @ key) (CHR '' '') 3 = [''GET'', key]"
    by (simp del: SplitN.simps)
  have exit_args: "SplitN ''EXIT'' (CHR '' '') 3 = [''EXIT'']"
    by (simp add: numeral_3_eq_3)
  have line1: "run_line B os (''PUT '' @ key @ '' '' @ val, o1, o2) db w =
      Some (Inr [''PUT operation performed successfully''], False, db', w')"
    by (simp only: run_line_def put_args prod.case Let_def)
       (simp add: cmdPut_def put report_def)
  have line2: "run_line B os (''GET '' @ key, o3, o4) db' w' =
      Some (Inr [''GET '' @ key @ '' returned: '' @ val], False, db', w')"
    by (simp only: run_line_def get_args prod.case Let_def)
       (simp add: cmdGet_def get report_def assms(6))
  have line3: "run_line B os (''EXIT'', o5, o6) db' w' = Some (Inr [], True, db', w')"
    by (simp only: run_line_def exit_args prod.case Let_def) simp
  show ?thesis
    unfolding main_loop_next [OF line1] main_loop_next [OF line2] main_loop_exit [OF line3] by simp
qed

theorem put_get_session_witness:
  "\<exists>db' w'. main_loop list_btree '''' [(''PUT '' @ ''k'' @ '' '' @ ''two words'', [], []),
        (''GET '' @ ''k'', [], []), (''EXIT'', [], [])] []
      (db_on list_btree ''w'' ''d'' one_table) (world_on ''w'' ''d'' one_table) =
    Some (Inr [''PUT operation performed successfully'', ''GET '' @ ''k'' @ '' returned: '' @ ''two words''], db', w')"
  by (rule put_get_session [OF list_tree.btree_contract_axioms list_db_inv [OF one_table_ok]]) simp_all

end
