(* ===== verification/Spec2Isabelle.thy ===== *)
theory Spec2Isabelle
  imports Lsm_Steps Txn_Locks Catalog Db_Races Db_Scans Db_Serial Sstable_Linear Sql_Types Sql_Catalog Sql_Select Cli
begin

text \<open>
  golang-db: a key-value database on a log-structured merge tree, with a write-ahead log,
  transactions with locks on keys, and an SQL layer of tables, secondary indexes and
  queries. File names below are relative to \<^verbatim>\<open>src/\<close>.

  \<^bold>\<open>The program.\<close> A \<open>DB\<close> (\<^verbatim>\<open>db/db.go\<close>) holds a memtable (\<^verbatim>\<open>memtable/\<close>), a log (\<^verbatim>\<open>wal/\<close>), a
  set of table files (\<^verbatim>\<open>sstable/\<close>) and the table of locks of the transactions
  (\<^verbatim>\<open>db/transaction.go\<close>). \<open>Put\<close> appends a record to the log and then sets the key in the memtable;
  when the memtable has reached its limit it becomes a new table file, the manifest is rewritten,
  and memtable and log are cleared; enough files start a compaction in the background. \<open>Get\<close> reads
  the memtable and then the files, newest first. \<open>NewDB\<close> reads the manifest and the indexes of the
  files, replays the log into a new memtable and loads the catalog of SQL tables. A transaction
  buffers its writes, takes the locks of its keys as it goes, and writes one log record at its
  commit. SQL tables are rows under the keys \<open>table:primarykey\<close> and empty index entries under
  \<open>index:table:name:values:primarykey\<close>; their schemas are kept under the catalog keys.

  \<^bold>\<open>The theories\<close>, in the order in which they build on each other:

  \<^item> \<open>Go_Prelude\<close>: Go strings and byte slices (lists of characters, as bytes), big-endian 32-bit
    fields, slice expressions, error values with panics among them; the shared lemmas.
  \<^item> \<open>Go_IO\<close>: the calls of \<open>os\<close> and \<open>io\<close> that the program makes, over a record of named files
    with a schedule of faults for the system calls to come. A world is calm when no fault is
    scheduled. Theorems on results assume a calm world; the branches for errors are in the
    definitions.
  \<^item> \<open>Codec\<close>: the locale \<open>offset_reader\<close>, a reader that inverts a writer at any offset, and what
    follows for lists of records. It is interpreted for the log payloads, the table files and the
    catalog columns by the theories that define them.
  \<^item> \<open>Memtable\<close> (\<^verbatim>\<open>memtable/memtable.go\<close>): the tree of \<^verbatim>\<open>google/btree\<close> is not under \<^verbatim>\<open>src/\<close> and is a
    parameter, a record of operations, with its documented behaviour as the locale
    \<open>btree_contract\<close>; the locale \<open>kv_store\<close> is what the replay needs of a store. The contract is
    shown to hold of sorted lists, and the witnesses use that instance.
  \<^item> \<open>Wal\<close> (\<^verbatim>\<open>wal/wal.go\<close>), \<open>Wal_Command\<close> (\<open>writeToWal\<close>, \<open>buildMemtableFromWal\<close> and the payloads
    of \<^verbatim>\<open>db/db.go\<close> and \<^verbatim>\<open>db/transaction.go\<close>): records with length and checksum, round trip, detection
    of damage, what a torn tail does, and that the replay repeats the writes.
  \<^item> \<open>Sstable_File\<close>, \<open>Sstable_Read\<close>, \<open>Sstable\<close> (\<^verbatim>\<open>sstable/sstable.go\<close>): the writer of a file with
    its blocks, index and footer; the search in one file; the set of files with \<open>Write\<close>, \<open>Get\<close>,
    \<open>PrefixScan\<close> and \<open>NewSsTable\<close>. The state of a set of files is abstracted by \<open>sst_map\<close>, the map
    in which newer tables override older ones; \<open>sst_inv\<close> and \<open>disk_inv\<close> tie it to the bytes.
    \<open>Sstable_Linear\<close> has the same operations with the benchmarks' switch \<open>skipIndex\<close> on, where a
    lookup after a flush panics.
  \<^item> \<open>Manifest\<close> (\<^verbatim>\<open>sstable/manifest.go\<close>): its JSON, the file order,
    and that reading the written manifest gives it back.
  \<^item> \<open>Compaction\<close> (\<^verbatim>\<open>sstable/compaction.go\<close>, \<^verbatim>\<open>sstable/utils.go\<close>) and \<open>Lsm_Steps\<close>: the merge as one
    call, and as a step relation whose steps are the critical sections of the code, interleaved
    with flushes; an invariant over all interleavings and recovery from a crash after any step.
  \<^item> \<open>Txn_Locks\<close> (\<^verbatim>\<open>db/transaction.go\<close>): the lock table and a transaction's operations on it, as
    functions and as a step relation of any number of transactions, with mutual exclusion as a
    reachability invariant.
  \<^item> \<open>Catalog\<close> (\<^verbatim>\<open>db/create.go\<close>, \<^verbatim>\<open>sql_parser/ast.go\<close>): the encodings of table schemas.
  \<^item> \<open>Db\<close> (\<^verbatim>\<open>db/db.go\<close>), \<open>Db_Txn\<close> (\<open>Commit\<close> and the reads of \<^verbatim>\<open>db/transaction.go\<close>), \<open>Db_Run\<close>: the
    whole database. \<open>db_inv\<close> is its invariant and \<open>db_map\<close> its contents; every operation refines
    the operation on maps, and \<open>Db_Run\<close> composes puts, commits, compactions and restarts, one after
    the other.
  \<^item> \<open>Db_Steps\<close>: the same operations taken apart into the steps between which others can run (log
    record, memtable, new file, table, check, clearing; the critical sections of a compaction), as
    a step relation. Each operation is a run of its steps. With one writer and one compaction at a
    time, an invariant shows that a crash after any step loses nothing.
  \<^item> \<open>Db_Races\<close>: what happens without that restriction, which the code does not enforce: a commit
    beside the flush of a put is lost at the next start, and two compactions, started
    by two puts in a row and run at the same time, undo a third put. \<open>Db_Scans\<close>: the scans of queries, which take no lock, see every key that is
    not being written, whatever part of a flush runs between their two reads.
  \<^item> \<open>Db_Serial\<close>: any number of transactions on the database, their calls interleaved, with a record of
    their reads and writes; the committed ones are serializable in the order of their commits.
  \<^item> \<open>Sql_Tokens\<close>, \<open>Sql_Parser\<close> (\<^verbatim>\<open>sql_parser/\<close>): tokeniser and recursive-descent parser. From
    any text with the tokens of an accepted statement the parser returns the statement's parts. The
    tokeniser is modelled for ASCII text only (\<open>ascii\<close>).
  \<^item> \<open>Sql_Rows\<close> (\<open>serialiseInsertIntoTableInput\<close>, index keys of \<^verbatim>\<open>db/db.go\<close> and \<open>deserializeRowValues\<close>
    of \<^verbatim>\<open>db/select.go\<close>), \<open>Sql_Tables\<close> (\<open>createTable\<close>, \<open>insertIntoTable\<close>, \<open>ShowTables\<close>), \<open>Sql_Catalog\<close>
    (what a restart makes of the catalog), \<open>Sql_Select\<close> (\<^verbatim>\<open>db/select.go\<close>, \<^verbatim>\<open>db/helper.go\<close>): rows,
    inserts, the choice of an index and the queries. \<open>Sql_Types\<close> connects parser, encoder and
    decoder by a type system: schemas from the parser are well typed, exactly the rows of the right
    types are written, and what is read back has the same types, an INT modulo \<open>2 ^ 32\<close>.
  \<^item> \<open>Cli\<close> (\<^verbatim>\<open>main.go\<close>): the loop over the lines of standard input.

  \<^bold>\<open>How the code is read.\<close> Methods on pointers return the updated record with the world; a
  result is a sum with the error on the left. A run-time panic is an error value of its own, which
  no caller handles. Where Go ranges over a map, the order is an argument of the definition, and the
  theorems hold for every order. Lengths are natural numbers; every conversion to \<open>uint32\<close> is
  written out modulo \<open>2 ^ 32\<close>, and theorems that need it say so (\<open>fits32\<close>). \<open>[]byte(s)\<close> is taken to
  have the length of \<open>s\<close> as its capacity, which matters for slice expressions past the end.

  \<^bold>\<open>Bounds and termination.\<close> Loops are structural recursion, or \<open>function\<close>s with a measure (bytes
  left, characters left). The one loop of the program that can run forever, the values of
  \<open>INSERT INTO\<close>, is a \<open>partial_function (option)\<close>: \<open>insert_returns\<close> shows that it returns on every
  text of supported characters and \<open>insert_diverges\<close> that it does not when one of the values is
  followed by another ASCII character. The program's own bounds are kept: a
  memtable of 1000 bytes, log payloads of at most 1,000,000 bytes when read (so keys and
  values of at most 999,985 bytes in a put), the fixed numbers of columns and conditions that the
  parser accepts.

  \<^bold>\<open>Not modelled.\<close> \<open>Close\<close> and the file handles that stay open, logging and printed
  diagnostics, the limits of \<open>bufio.Scanner\<close>, queries with characters outside ASCII, JSON beyond
  the layout that \<open>json.Marshal\<close> writes for the manifest, \<open>Fsync\<close> as anything but a success or a
  fault, and interleavings finer than the steps of \<open>Lsm_Steps\<close>, \<open>Txn_Locks\<close> and \<open>Db_Steps\<close>: a crash
  within \<open>os.WriteFile\<close> of the manifest is none of them, nor is a data race on the nodes of the
  tree or on the fields of one object. Tests and benchmarks are left out.
\<close>

end
